(* ===== verification/Prelude.thy ===== *)
theory Prelude
  imports Main "HOL-Library.Word"
begin

text \<open>
  The types and the generic lemmas that the component theories share.

  Machine integers keep the width they have in the code: \<^verbatim>\<open>BYTE\<close> and
  \<^verbatim>\<open>uint8_t\<close> are \<open>byte\<close>, \<^verbatim>\<open>unsigned __int16\<close> is \<open>u16\<close>, \<^verbatim>\<open>int\<close> is \<open>i32\<close> (read with
  \<open>sint\<close>), \<^verbatim>\<open>size_t\<close> is \<open>u64\<close> (the server is built for x64).

  \<open>'a pres\<close> is the result of code that reads memory through a pointer: a value, the
  null pointer that the parser returns for malformed input, a read outside the
  accessible bytes, a \<^verbatim>\<open>GOOGLE_LOG(FATAL)\<close>, or a recursion that used up its fuel.
\<close>

unbundle bit_operations_syntax

type_synonym byte = "8 word"
type_synonym u16 = "16 word"
type_synonym u32 = "32 word"
type_synonym u64 = "64 word"
type_synonym i32 = "32 word"

section \<open>Results of pointer-level code\<close>

datatype 'a pres = Ok 'a | Null | OOB | Fatal | NoFuel

fun pbind :: "'a pres \<Rightarrow> ('a \<Rightarrow> 'b pres) \<Rightarrow> 'b pres" where
  "pbind (Ok x) f = f x"
| "pbind Null f = Null"
| "pbind OOB f = OOB"
| "pbind Fatal f = Fatal"
| "pbind NoFuel f = NoFuel"

lemma pbind_eq_Ok: "pbind m f = Ok y \<longleftrightarrow> (\<exists>x. m = Ok x \<and> f x = Ok y)"
  by (cases m) auto

lemma pbind_cong [fundef_cong]:
  "m = m' \<Longrightarrow> (\<And>x. m' = Ok x \<Longrightarrow> f x = g x) \<Longrightarrow> pbind m f = pbind m' g"
  by (cases m') auto

lemma pbind_assoc: "pbind (pbind m f) g = pbind m (\<lambda>x. pbind (f x) g)"
  by (cases m) auto

text \<open>The bytes a pointer read sees: \<open>OOB\<close> past the accessible ones.\<close>

definition rd :: "'a list \<Rightarrow> nat \<Rightarrow> 'a pres" where
  "rd bs i = (if i < length bs then Ok (bs ! i) else OOB)"

lemma rd_in [simp]: "i < length bs \<Longrightarrow> rd bs i = Ok (bs ! i)"
  by (simp add: rd_def)

lemma rd_out: "length bs \<le> i \<Longrightarrow> rd bs i = OOB"
  by (simp add: rd_def)

lemma rd_eq_Ok: "rd bs i = Ok b \<longleftrightarrow> i < length bs \<and> b = bs ! i"
  by (auto simp: rd_def)

section \<open>Little-endian 16-bit fields\<close>

text \<open>x64 is little-endian: \<^verbatim>\<open>memcpy\<close> of a \<^verbatim>\<open>uint16_t\<close> writes its low byte first.\<close>

definition le16_bytes :: "u16 \<Rightarrow> byte list" where
  "le16_bytes w = [ucast w, ucast (drop_bit 8 w)]"

definition le16_load :: "byte \<Rightarrow> byte \<Rightarrow> u16" where
  "le16_load lo hi = ucast lo OR push_bit 8 (ucast hi)"

lemma length_le16_bytes [simp]: "length (le16_bytes w) = 2"
  by (simp add: le16_bytes_def)

lemma le16_load_bytes [simp]: "le16_load (ucast w) (ucast (drop_bit 8 w)) = w"
  unfolding le16_load_def
  by (rule bit_word_eqI) (auto simp: bit_simps)

lemma unat_byte_less: "unat (b :: byte) < 256"
  using unsigned_less [of b, where ?'a = nat] by simp

lemma unat_ucast_byte16 [simp]: "unat (ucast (b :: byte) :: u16) = unat b"
  using unat_byte_less [of b] by (simp add: unsigned_ucast_eq take_bit_nat_eq_self)

lemma unat_le16_load: "unat (le16_load lo hi) = unat lo + 256 * unat hi"
proof -
  have "ucast lo AND push_bit 8 (ucast hi) = (0 :: u16)"
    by (rule bit_word_eqI) (auto simp: bit_simps dest: bit_imp_le_length)
  then have "le16_load lo hi = ucast lo + push_bit 8 (ucast hi)"
    by (simp add: le16_load_def disjunctive_add_eq_or [symmetric] disjunctive_add)
  moreover have "unat (ucast lo + push_bit 8 (ucast hi) :: u16) = unat lo + 256 * unat hi"
  proof -
    have "unat lo < 256" "unat hi < 256"
      by (rule unat_byte_less)+
    then show ?thesis
      by (simp add: push_bit_eq_mult unat_word_ariths)
  qed
  ultimately show ?thesis by simp
qed

section \<open>Small values in wider and narrower integers\<close>

lemma sint_of_nat_i32: "n < 2147483648 \<Longrightarrow> sint (of_nat n :: i32) = int n"
  by (simp add: signed_of_nat signed_take_bit_int_eq_self)

lemma unat_of_nat_u64: "n < 18446744073709551616 \<Longrightarrow> unat (of_nat n :: u64) = n"
  by (simp add: unsigned_of_nat take_bit_nat_eq_self)

lemma unat_of_nat_u32: "n < 4294967296 \<Longrightarrow> unat (of_nat n :: u32) = n"
  by (simp add: unsigned_of_nat take_bit_nat_eq_self)

lemma scast_i32_u64: "n < 2147483648 \<Longrightarrow> scast (of_nat n :: i32) = (of_nat n :: u64)"
  by (simp add: signed_of_nat signed_take_bit_int_eq_self)

lemma ucast_u64_i32: "ucast (w :: u64) = (of_nat (unat w) :: i32)"
  by simp

lemma unat_add_u64: "unat (a :: u64) + unat b < 18446744073709551616 \<Longrightarrow> unat (a + b) = unat a + unat b"
  by (simp add: unat_word_ariths)

section \<open>Lists\<close>

lemma take_drop_split: "i + n \<le> length xs \<Longrightarrow> drop i xs = take n (drop i xs) @ drop (i + n) xs"
  by (metis add.commute append_take_drop_id drop_drop)

lemma take2_conv: "2 \<le> length xs \<Longrightarrow> xs = xs ! 0 # xs ! 1 # drop 2 xs"
  by (cases xs; cases "tl xs") auto

end
