(* ===== verification/Varint.thy ===== *)
theory Varint
  imports Prelude
begin

text \<open>
  Base-128 varints, tags and fixed-width integers of the wire format:
  \<^verbatim>\<open>Server/Libraries/include/google/protobuf/io/coded_stream.h\<close> (writers and sizes),
  \<^verbatim>\<open>parse_context.h\<close> and \<^verbatim>\<open>parse_context.cc\<close> (readers), \<^verbatim>\<open>stubs/port.h\<close> (\<^verbatim>\<open>Bits\<close>),
  \<^verbatim>\<open>wire_format_lite.h\<close> (tags, ZigZag).

  A writer that advances a pointer is a function to the bytes it writes. A reader gets
  the bytes accessible from its pointer and returns the value with the number of bytes
  consumed; a read past the accessible bytes is \<open>OOB\<close>.
\<close>

section \<open>The reference encoding\<close>

text \<open>Least significant group of seven bits first, the high bit set on every byte but the last.\<close>

fun varint_enc :: "nat \<Rightarrow> byte list" where
  "varint_enc n = (if n < 128 then [of_nat n] else of_nat (n mod 128 + 128) # varint_enc (n div 128))"

declare varint_enc.simps [simp del]

fun varint_val :: "byte list \<Rightarrow> nat" where
  "varint_val [] = 0"
| "varint_val (b # bs) = unat b mod 128 + 128 * varint_val bs"

section \<open>Writers\<close>

lemma unat_drop_bit7: "unat (drop_bit 7 (w :: 'a::len word)) = unat w div 128"
  by (simp add: unat_drop_bit_eq drop_bit_nat_def)

text \<open>\<^verbatim>\<open>EpsCopyOutputStream::UnsafeVarint\<close>; \<open>prev\<close> is the byte at \<^verbatim>\<open>ptr[-1]\<close>.\<close>

function UnsafeVarint_loop :: "byte \<Rightarrow> 'a::len word \<Rightarrow> byte list" where
  "UnsafeVarint_loop prev value =
     (let value' = drop_bit 7 value
      in (prev OR 0x80) #
         (if 0x80 \<le> unat value' then UnsafeVarint_loop (ucast value') value' else [ucast value']))"
  by pat_completeness auto
termination
  by (relation "measure (\<lambda>(prev, value). unat value)")
    (auto simp: unat_drop_bit7)

declare UnsafeVarint_loop.simps [simp del]

definition UnsafeVarint :: "'a::len word \<Rightarrow> byte list" where
  "UnsafeVarint value =
     (if unat value < 0x80 then [ucast value]
      else let value' = drop_bit 7 value
           in (if unat value' < 0x80 then [ucast value OR 0x80, ucast value']
               else (ucast value OR 0x80) # UnsafeVarint_loop (ucast value') value'))"

text \<open>\<^verbatim>\<open>EpsCopyOutputStream::UnsafeWriteSize\<close> and \<^verbatim>\<open>WriteVarint(uint64_t, std::string*)\<close>.\<close>

function UnsafeWriteSize :: "u32 \<Rightarrow> byte list" where
  "UnsafeWriteSize value =
     (if 0x80 \<le> unat value then ucast (value OR 0x80) # UnsafeWriteSize (drop_bit 7 value)
      else [ucast value])"
  by pat_completeness auto
termination
  by (relation "measure unat") (auto simp: unat_drop_bit7)

function WriteVarint :: "u64 \<Rightarrow> byte list" where
  "WriteVarint val =
     (if 128 \<le> unat val then (ucast val OR 0x80) # WriteVarint (drop_bit 7 val)
      else [ucast val])"
  by pat_completeness auto
termination
  by (relation "measure unat") (auto simp: unat_drop_bit7)

declare UnsafeWriteSize.simps [simp del] WriteVarint.simps [simp del]

text \<open>\<^verbatim>\<open>CodedOutputStream::WriteVarint32ToArrayOutOfLine\<close> with its helper.\<close>

definition WriteVarint32ToArrayOutOfLineHelper :: "u32 \<Rightarrow> byte \<Rightarrow> byte list" where
  "WriteVarint32ToArrayOutOfLineHelper value target0 =
     (let value' = drop_bit 7 value
      in (if unat value' < 0x80 then [target0 OR 0x80, ucast value']
          else (target0 OR 0x80) # UnsafeVarint_loop (ucast value') value'))"

definition WriteVarint32ToArrayOutOfLine :: "u32 \<Rightarrow> byte list" where
  "WriteVarint32ToArrayOutOfLine value =
     (if unat value < 0x80 then [ucast value]
      else WriteVarint32ToArrayOutOfLineHelper value (ucast value))"

definition WriteVarint32ToArray :: "u32 \<Rightarrow> byte list" where
  "WriteVarint32ToArray value = UnsafeVarint value"

definition WriteVarint64ToArray :: "u64 \<Rightarrow> byte list" where
  "WriteVarint64ToArray value = UnsafeVarint value"

definition WriteVarint32SignExtendedToArray :: "i32 \<Rightarrow> byte list" where
  "WriteVarint32SignExtendedToArray value = WriteVarint64ToArray (scast value)"

section \<open>Every writer computes the reference encoding\<close>

lemma bit_byte_128: "bit (0x80 :: byte) n \<longleftrightarrow> n = 7"
proof -
  have "bit (push_bit 7 1 :: byte) n \<longleftrightarrow> n = 7"
    by (auto simp only: bit_push_bit_iff bit_1_iff) (auto dest: bit_imp_le_length)
  then show ?thesis by simp
qed

lemma byte_or_128: "(x :: byte) OR 0x80 = of_nat (unat x mod 128 + 128)"
proof -
  have "take_bit 7 x AND 0x80 = 0"
    by (rule bit_word_eqI) (auto simp only: bit_and_iff bit_take_bit_iff bit_byte_128 bit_0_eq bot_apply bot_bool_def)
  then have "take_bit 7 x OR 0x80 = take_bit 7 x + 0x80"
    by (simp add: disjunctive_add_eq_or)
  moreover have "take_bit 7 x OR 0x80 = x OR 0x80"
  proof (rule bit_word_eqI)
    fix n assume "n < LENGTH(8)"
    then have "n = 7 \<or> n < 7" by auto
    then show "bit (take_bit 7 x OR 0x80) n = bit (x OR 0x80) n"
      by (simp only: bit_or_iff bit_take_bit_iff bit_byte_128) auto
  qed
  moreover have "take_bit 7 x = of_nat (unat x mod 128)"
    by (simp add: word_unat_eq_iff unsigned_take_bit_eq take_bit_nat_def unsigned_of_nat)
  ultimately show ?thesis by simp
qed

lemma ucast_byte_mod: "(of_nat (unat (w :: 'a::len word) mod 256) :: byte) = ucast w"
  by (simp add: word_unat_eq_iff unsigned_of_nat unsigned_ucast_eq take_bit_nat_def)

lemma ucast_or_128: "(ucast (w :: 'a::len word) OR 0x80 :: byte) = of_nat (unat w mod 128 + 128)"
proof -
  have "unat (ucast w :: byte) mod 128 = unat w mod 128"
    by (simp add: unsigned_ucast_eq take_bit_nat_def mod_mod_cancel)
  then show ?thesis by (simp add: byte_or_128)
qed

lemma varint_enc_small: "n < 128 \<Longrightarrow> varint_enc n = [of_nat n]"
  by (simp add: varint_enc.simps)

lemma varint_enc_large:
  "128 \<le> n \<Longrightarrow> varint_enc n = of_nat (n mod 128 + 128) # varint_enc (n div 128)"
  by (simp add: varint_enc.simps)

lemma UnsafeVarint_loop_eq:
  "128 \<le> n \<Longrightarrow> n = unat v \<Longrightarrow> 
     (prev OR 0x80) # varint_enc (unat v div 128) = UnsafeVarint_loop prev v"
proof (induction prev v arbitrary: n rule: UnsafeVarint_loop.induct)
  case (1 prev v)
  show ?case
  proof (cases "128 \<le> unat v div 128")
    case True
    have "UnsafeVarint_loop prev v
        = (prev OR 0x80) # UnsafeVarint_loop (ucast (drop_bit 7 v)) (drop_bit 7 v)"
      using True by (subst UnsafeVarint_loop.simps) (simp add: unat_drop_bit7 Let_def)
    also have "UnsafeVarint_loop (ucast (drop_bit 7 v)) (drop_bit 7 v)
        = (ucast (drop_bit 7 v) OR 0x80) # varint_enc (unat (drop_bit 7 v) div 128)"
      using "1.IH" [of "drop_bit 7 v"] True by (simp add: unat_drop_bit7)
    also have "\<dots> = varint_enc (unat v div 128)"
      using True by (simp add: varint_enc_large ucast_or_128 unat_drop_bit7)
    finally show ?thesis by simp
  next
    case False
    then show ?thesis
      by (subst UnsafeVarint_loop.simps)
        (simp add: unat_drop_bit7 [symmetric] varint_enc_small Let_def)
  qed
qed

lemma UnsafeVarint_eq: "UnsafeVarint v = varint_enc (unat v)"
proof (cases "unat v < 128")
  case True
  then show ?thesis by (simp add: UnsafeVarint_def varint_enc_small)
next
  case False
  then have e: "varint_enc (unat v) = (ucast v OR 0x80) # varint_enc (unat (drop_bit 7 v))"
    by (simp add: varint_enc_large ucast_or_128 unat_drop_bit7)
  show ?thesis
  proof (cases "unat (drop_bit 7 v) < 128")
    case True
    with False e show ?thesis by (simp add: UnsafeVarint_def Let_def varint_enc_small)
  next
    case False2: False
    then have "varint_enc (unat (drop_bit 7 v))
        = UnsafeVarint_loop (ucast (drop_bit 7 v)) (drop_bit 7 v)"
      using UnsafeVarint_loop_eq [OF _ refl, of "drop_bit 7 v" "ucast (drop_bit 7 v)"]
      by (simp add: varint_enc_large ucast_or_128)
    with False False2 e show ?thesis by (simp add: UnsafeVarint_def Let_def)
  qed
qed

lemma UnsafeWriteSize_eq: "UnsafeWriteSize v = varint_enc (unat v)"
proof (induction v rule: UnsafeWriteSize.induct)
  case (1 v)
  have or: "ucast (v OR 0x80) = (ucast v OR 0x80 :: byte)"
    by (rule bit_word_eqI) (auto simp: bit_simps)
  show ?case
  proof (cases "128 \<le> unat v")
    case True
    with 1 show ?thesis
      by (subst UnsafeWriteSize.simps) (simp add: varint_enc_large ucast_or_128 unat_drop_bit7 or)
  next
    case False
    then show ?thesis by (subst UnsafeWriteSize.simps) (simp add: varint_enc_small)
  qed
qed

lemma WriteVarint_eq: "WriteVarint v = varint_enc (unat v)"
proof (induction v rule: WriteVarint.induct)
  case (1 v)
  show ?case
  proof (cases "128 \<le> unat v")
    case True
    with 1 show ?thesis
      by (subst WriteVarint.simps) (simp add: varint_enc_large ucast_or_128 unat_drop_bit7)
  next
    case False
    then show ?thesis by (subst WriteVarint.simps) (simp add: varint_enc_small)
  qed
qed

lemma WriteVarint32ToArrayOutOfLine_eq: "WriteVarint32ToArrayOutOfLine v = UnsafeVarint v"
  by (simp add: WriteVarint32ToArrayOutOfLine_def WriteVarint32ToArrayOutOfLineHelper_def
      UnsafeVarint_def Let_def)

lemmas varint_writers =
  WriteVarint32ToArray_def WriteVarint64ToArray_def WriteVarint32SignExtendedToArray_def
  UnsafeVarint_eq UnsafeWriteSize_eq WriteVarint_eq WriteVarint32ToArrayOutOfLine_eq


section \<open>Sizes\<close>

text \<open>
  \<^verbatim>\<open>Bits::Log2FloorNonZero\<close>: the index of the highest set bit. The compilers' intrinsics
  and the portable loop of \<^verbatim>\<open>stubs/port.h\<close> compute the same index; the loop is modelled.
\<close>

fun Log2_loop :: "nat \<Rightarrow> u32 \<Rightarrow> nat \<Rightarrow> u32 \<times> nat" where
  "Log2_loop 0 value log = (value, log)"
| "Log2_loop (Suc i) value log =
     (let shift = 2 ^ i; x = drop_bit shift value
      in (if x \<noteq> 0 then Log2_loop i x (log + shift) else Log2_loop i value log))"

definition Log2FloorNonZero_Portable :: "u32 \<Rightarrow> int" where
  "Log2FloorNonZero_Portable n = (if n = 0 then -1 else int (snd (Log2_loop 5 n 0)))"

definition Log2FloorNonZero :: "u32 \<Rightarrow> u32" where
  "Log2FloorNonZero n = of_int (Log2FloorNonZero_Portable n)"

definition Log2FloorNonZero64_Portable :: "u64 \<Rightarrow> int" where
  "Log2FloorNonZero64_Portable n =
     (let topbits = (ucast (drop_bit 32 n) :: u32)
      in (if topbits = 0 then sint (Log2FloorNonZero (ucast n))
          else 32 + sint (Log2FloorNonZero topbits)))"

definition Log2FloorNonZero64 :: "u64 \<Rightarrow> u32" where
  "Log2FloorNonZero64 n = of_int (Log2FloorNonZero64_Portable n)"

definition VarintSize32 :: "u32 \<Rightarrow> u64" where
  "VarintSize32 value = (let log2value = Log2FloorNonZero (value OR 0x1)
     in ucast ((log2value * 9 + 73) div 64))"

definition VarintSize32PlusOne :: "u32 \<Rightarrow> u64" where
  "VarintSize32PlusOne value = (let log2value = Log2FloorNonZero (value OR 0x1)
     in ucast ((log2value * 9 + 73 + 64) div 64))"

definition VarintSize64 :: "u64 \<Rightarrow> u64" where
  "VarintSize64 value = (let log2value = Log2FloorNonZero64 (value OR 0x1)
     in ucast ((log2value * 9 + 73) div 64))"

definition VarintSize64PlusOne :: "u64 \<Rightarrow> u64" where
  "VarintSize64PlusOne value = (let log2value = Log2FloorNonZero64 (value OR 0x1)
     in ucast ((log2value * 9 + 73 + 64) div 64))"

definition VarintSize32SignExtended :: "i32 \<Rightarrow> u64" where
  "VarintSize32SignExtended value = VarintSize64 (scast value)"

definition VarintSize32SignExtendedPlusOne :: "i32 \<Rightarrow> u64" where
  "VarintSize32SignExtendedPlusOne value = VarintSize64PlusOne (scast value)"

text \<open>\<^verbatim>\<open>EpsCopyOutputStream::TagSize\<close> and \<^verbatim>\<open>StaticVarintSize32\<close> compare instead.\<close>

definition TagSize :: "u32 \<Rightarrow> nat" where
  "TagSize tag =
     (if unat tag < 2 ^ 7 then 1 else if unat tag < 2 ^ 14 then 2
      else if unat tag < 2 ^ 21 then 3 else if unat tag < 2 ^ 28 then 4 else 5)"

definition StaticVarintSize32 :: "u32 \<Rightarrow> nat" where
  "StaticVarintSize32 Value =
     (if unat Value < 2 ^ 7 then 1 else if unat Value < 2 ^ 14 then 2
      else if unat Value < 2 ^ 21 then 3 else if unat Value < 2 ^ 28 then 4 else 5)"

lemma Log2_loop_Suc:
  "Log2_loop (Suc i) v log =
     (if drop_bit (2 ^ i) v \<noteq> 0 then Log2_loop i (drop_bit (2 ^ i) v) (log + 2 ^ i)
      else Log2_loop i v log)"
  by (simp add: Let_def)

declare Log2_loop.simps(2) [simp del]

lemma Log2_loop_bounds:
  "v \<noteq> 0 \<Longrightarrow> unat v < 2 ^ (2 ^ i) \<Longrightarrow> Log2_loop i v log = (v', l) \<Longrightarrow>
     \<exists>k < 2 ^ i. l = log + k \<and> 2 ^ k \<le> unat v \<and> unat v < 2 ^ Suc k"
proof (induction i arbitrary: v log l)
  case 0
  then have "unat v = 1" using unat_gt_0 [of v] by simp
  with 0 show ?case by simp
next
  case (Suc i)
  define s :: nat where "s = 2 ^ i"
  define x where "x = drop_bit s v"
  have x: "unat x = unat v div 2 ^ s"
    by (simp only: x_def unat_drop_bit_eq drop_bit_nat_def)
  have sq: "(2::nat) ^ 2 ^ Suc i = 2 ^ s * 2 ^ s"
    by (simp only: s_def power_Suc mult_2 power_add)
  have s2: "(2::nat) ^ Suc i = s + s" by (simp add: s_def)
  show ?case
  proof (cases "x = 0")
    case True
    then have "unat v div 2 ^ s = 0" using x by (metis unsigned_0)
    then have lt: "unat v < 2 ^ 2 ^ i" by (simp only: div_eq_0_iff s_def) simp
    have "Log2_loop i v log = (v', l)"
      using Suc.prems(3) True by (simp only: Log2_loop_Suc x_def s_def) simp
    from Suc.IH [OF Suc.prems(1) lt this] obtain k where
      "k < s" "l = log + k" "2 ^ k \<le> unat v" "unat v < 2 ^ Suc k" unfolding s_def by blast
    then show ?thesis unfolding s2 by (intro exI [of _ k]) simp
  next
    case False
    have lt: "unat x < 2 ^ 2 ^ i"
      using Suc.prems(2) unfolding sq x s_def [symmetric] by (rule less_mult_imp_div_less)
    have "Log2_loop i x (log + s) = (v', l)"
      using Suc.prems(3) False by (simp only: Log2_loop_Suc x_def s_def) simp
    from Suc.IH [OF False lt this] obtain k where
      k: "k < s" "l = log + s + k" "2 ^ k \<le> unat x" "unat x < 2 ^ Suc k" unfolding s_def by blast
    have "2 ^ k * 2 ^ s \<le> unat v div 2 ^ s * 2 ^ s"
      using k(3) x by (simp only: mult_le_mono1)
    also have "\<dots> \<le> unat v" by (rule div_times_less_eq_dividend)
    finally have lo: "2 ^ (s + k) \<le> unat v" by (simp only: power_add mult.commute)
    have "unat v < 2 ^ Suc k * 2 ^ s"
      using k(4) x by (metis div_less_iff_less_mult zero_less_numeral zero_less_power)
    then have hi: "unat v < 2 ^ Suc (s + k)"
      by (simp only: power_add [symmetric] add_Suc add.commute [of k])
    from lo hi k show ?thesis unfolding s2 by (intro exI [of _ "s + k"]) simp
  qed
qed

text \<open>\<open>is_log2 k n\<close>: \<open>k\<close> is the index of the highest bit of \<open>n\<close>.\<close>

definition is_log2 :: "nat \<Rightarrow> nat \<Rightarrow> bool" where
  "is_log2 k n \<longleftrightarrow> 2 ^ k \<le> n \<and> n < 2 ^ Suc k"

lemma Log2FloorNonZero_eq:
  assumes "n \<noteq> 0"
  obtains k where "Log2FloorNonZero n = of_nat k" "k < 32" "is_log2 k (unat n)"
proof -
  obtain v' l where l: "Log2_loop 5 n 0 = (v', l)" by fastforce
  have "unat n < 2 ^ 2 ^ 5" using unsigned_less [of n, where ?'a = nat] by simp
  from Log2_loop_bounds [OF assms this l] have "is_log2 l (unat n)" "l < 32"
    by (auto simp: is_log2_def)
  moreover have "Log2FloorNonZero n = of_nat l"
    using assms l by (simp add: Log2FloorNonZero_def Log2FloorNonZero_Portable_def)
  ultimately show thesis using that by blast
qed

lemma Log2FloorNonZero64_eq:
  assumes "n \<noteq> 0"
  obtains k where "Log2FloorNonZero64 n = of_nat k" "k < 64" "is_log2 k (unat n)"
proof (cases "(ucast (drop_bit 32 n) :: u32) = 0")
  case True
  have hi: "unat (ucast (drop_bit 32 n) :: u32) = unat n div 4294967296"
    using unsigned_less [of n, where ?'a = nat]
    by (simp add: unsigned_ucast_eq unat_drop_bit_eq drop_bit_nat_def take_bit_nat_def)
  have lt: "unat n < 4294967296" using True hi by (simp add: div_eq_0_iff)
  then have u: "unat (ucast n :: u32) = unat n"
    by (simp add: unsigned_ucast_eq take_bit_nat_def)
  then have "(ucast n :: u32) \<noteq> 0" using assms by (metis unsigned_0 unsigned_eq_0_iff)
  then obtain k where k: "Log2FloorNonZero (ucast n) = of_nat k" "k < 32"
    "is_log2 k (unat (ucast n :: u32))" by (rule Log2FloorNonZero_eq)
  have "Log2FloorNonZero64 n = of_nat k"
    using True k by (simp add: Log2FloorNonZero64_def Log2FloorNonZero64_Portable_def sint_of_nat_i32)
  with k u that show thesis by simp
next
  case False
  let ?h = "ucast (drop_bit 32 n) :: u32"
  have hi: "unat ?h = unat n div 4294967296"
    using unsigned_less [of n, where ?'a = nat]
    by (simp add: unsigned_ucast_eq unat_drop_bit_eq drop_bit_nat_def take_bit_nat_def)
  from False obtain k where k: "Log2FloorNonZero ?h = of_nat k" "k < 32"
    "is_log2 k (unat ?h)" by (rule Log2FloorNonZero_eq)
  have "2 ^ (32 + k) \<le> unat n"
    using k(3) hi by (simp add: is_log2_def power_add less_eq_div_iff_mult_less_eq mult.commute)
  moreover have "unat n < 2 ^ Suc (32 + k)"
    using k(3) hi by (simp add: is_log2_def power_add div_less_iff_less_mult mult.commute)
  ultimately have "is_log2 (32 + k) (unat n)" by (simp add: is_log2_def)
  moreover have "Log2FloorNonZero64 n = of_nat (32 + k)"
    using False k
    by (simp add: Log2FloorNonZero64_def Log2FloorNonZero64_Portable_def sint_of_nat_i32)
  ultimately show thesis using k(2) that [of "32 + k"] by simp
qed

lemma length_varint_enc:
  "n < 128 ^ Suc m \<Longrightarrow> m = 0 \<or> 128 ^ m \<le> n \<Longrightarrow> length (varint_enc n) = Suc m"
proof (induction m arbitrary: n)
  case 0
  then show ?case by (simp add: varint_enc_small)
next
  case (Suc m)
  have "(128 :: nat) ^ 1 \<le> 128 ^ Suc m" by (rule power_increasing) simp_all
  also have "\<dots> \<le> n" using Suc.prems(2) by simp
  finally have "128 \<le> n" by simp
  moreover have "n div 128 < 128 ^ Suc m"
    using Suc.prems(1) by (simp add: div_less_iff_less_mult mult.commute)
  moreover have "m = 0 \<or> 128 ^ m \<le> n div 128"
    using Suc.prems(2) by (simp add: less_eq_div_iff_mult_less_eq mult.commute)
  ultimately show ?case using Suc.IH [of "n div 128"] by (simp add: varint_enc_large)
qed

lemma varint_enc_nonempty: "varint_enc n \<noteq> []"
  by (subst varint_enc.simps) simp

lemma length_varint_enc_le: "n < 128 ^ Suc m \<Longrightarrow> length (varint_enc n) \<le> Suc m"
proof (induction m arbitrary: n)
  case 0
  then show ?case by (simp add: varint_enc_small)
next
  case (Suc m)
  show ?case
  proof (cases "n < 128")
    case False
    moreover have "n div 128 < 128 ^ Suc m"
      using Suc.prems by (simp add: div_less_iff_less_mult mult.commute)
    ultimately show ?thesis using Suc.IH [of "n div 128"] by (simp add: varint_enc_large)
  qed (simp add: varint_enc_small)
qed

lemma unat_or_1: "unat ((v :: 'a::len word) OR 1) = (if odd (unat v) then unat v else Suc (unat v))"
proof -
  have "v OR 1 = v + of_bool (even v)" by (rule or_one_eq)
  moreover have "even v \<longleftrightarrow> even (unat v)"
    using bit_unsigned_iff [of v 0, where ?'a = nat] by (simp add: bit_0)
  moreover have "even (unat v) \<Longrightarrow> unat (v + 1) = Suc (unat v)"
  proof -
    assume ev: "even (unat v)"
    have "unat v < 2 ^ LENGTH('a)" by (rule unsigned_less)
    moreover have "even ((2 :: nat) ^ LENGTH('a))" by simp
    ultimately have "Suc (unat v) < 2 ^ LENGTH('a)" using ev by presburger
    then show "unat (v + 1) = Suc (unat v)"
      by (simp add: unat_word_ariths)
  qed
  ultimately show ?thesis by (auto simp: or_one_eq)
qed

lemma is_log2_length:
  assumes "is_log2 k (unat ((v :: 'a::len word) OR 1))"
  shows "length (varint_enc (unat v)) = Suc (k div 7)"
proof -
  define m where "m = k div 7"
  have p: "(128 :: nat) ^ j = 2 ^ (7 * j)" for j by (simp add: power_mult)
  have lo: "2 ^ k \<le> unat (v OR 1)" and hi: "unat (v OR 1) < 2 ^ Suc k"
    using assms by (simp_all add: is_log2_def)
  have "unat v \<le> unat (v OR 1)" by (simp add: unat_or_1)
  also have "\<dots> < 2 ^ Suc k" by (rule hi)
  also have "(2 :: nat) ^ Suc k \<le> 2 ^ (7 * Suc m)"
    by (rule power_increasing) (auto simp: m_def)
  finally have 1: "unat v < 128 ^ Suc m" by (simp only: p)
  have "(2 :: nat) ^ (7 * m) \<le> 2 ^ k" by (rule power_increasing) (auto simp: m_def)
  with lo have le: "128 ^ m \<le> unat (v OR 1)" by (simp only: p)
  have 2: "m = 0 \<or> 128 ^ m \<le> unat v"
  proof (cases m)
    case (Suc j)
    then have ev: "even ((128 :: nat) ^ m)" by simp
    have "odd (unat (v OR 1))" by (simp add: unat_or_1)
    then have "128 ^ m < unat (v OR 1)" using le ev by (metis le_neq_implies_less)
    then show ?thesis by (auto simp: unat_or_1 split: if_splits)
  qed simp
  from length_varint_enc [OF 1 2] show ?thesis by (simp add: m_def)
qed

text \<open>The multiplication by 9/64 divides by 7.\<close>

lemma size_formula:
  "k < 64 \<Longrightarrow> (ucast ((of_nat k * 9 + 73 :: u32) div 64) :: u64) = of_nat (Suc (k div 7))"
proof -
  have "\<forall>k \<in> set [0..<64]. (ucast ((of_nat k * 9 + 73 :: u32) div 64) :: u64) = of_nat (Suc (k div 7))"
    by code_simp
  then show "k < 64 \<Longrightarrow> ?thesis" by auto
qed

lemma size_formula_plus_one:
  "k < 64 \<Longrightarrow> (ucast ((of_nat k * 9 + 73 + 64 :: u32) div 64) :: u64) = of_nat (Suc (Suc (k div 7)))"
proof -
  have "\<forall>k \<in> set [0..<64].
      (ucast ((of_nat k * 9 + 73 + 64 :: u32) div 64) :: u64) = of_nat (Suc (Suc (k div 7)))"
    by code_simp
  then show "k < 64 \<Longrightarrow> ?thesis" by auto
qed

lemma or_1_nonzero: "(v :: 'a::len word) OR 1 \<noteq> 0"
proof
  assume "v OR 1 = 0"
  then have "unat (v OR 1) = 0" by simp
  then show False by (simp add: unat_or_1 split: if_splits)
qed

lemma VarintSize32_eq:
  "VarintSize32 v = of_nat (length (varint_enc (unat v)))"
  "VarintSize32PlusOne v = of_nat (Suc (length (varint_enc (unat v))))"
proof -
  obtain k where k: "Log2FloorNonZero (v OR 1) = of_nat k" "k < 32" "is_log2 k (unat (v OR 1))"
    using Log2FloorNonZero_eq [OF or_1_nonzero] .
  then show "VarintSize32 v = of_nat (length (varint_enc (unat v)))"
    "VarintSize32PlusOne v = of_nat (Suc (length (varint_enc (unat v))))"
    using size_formula [of k] size_formula_plus_one [of k] is_log2_length [OF k(3)]
    by (simp_all only: VarintSize32_def VarintSize32PlusOne_def Let_def)
qed

lemma VarintSize64_eq:
  "VarintSize64 v = of_nat (length (varint_enc (unat v)))"
  "VarintSize64PlusOne v = of_nat (Suc (length (varint_enc (unat v))))"
proof -
  obtain k where k: "Log2FloorNonZero64 (v OR 1) = of_nat k" "k < 64" "is_log2 k (unat (v OR 1))"
    using Log2FloorNonZero64_eq [OF or_1_nonzero] .
  then show "VarintSize64 v = of_nat (length (varint_enc (unat v)))"
    "VarintSize64PlusOne v = of_nat (Suc (length (varint_enc (unat v))))"
    using size_formula [of k] size_formula_plus_one [of k] is_log2_length [OF k(3)]
    by (simp_all only: VarintSize64_def VarintSize64PlusOne_def Let_def)
qed

lemma TagSize_eq: "TagSize v = length (varint_enc (unat v))"
proof -
  have lt: "unat v < 4294967296" using unsigned_less [of v, where ?'a = nat] by simp
  show ?thesis
    unfolding TagSize_def
    using lt length_varint_enc [of "unat v" 0] length_varint_enc [of "unat v" 1]
      length_varint_enc [of "unat v" 2] length_varint_enc [of "unat v" 3]
      length_varint_enc [of "unat v" 4]
    by auto
qed

lemma StaticVarintSize32_eq: "StaticVarintSize32 v = length (varint_enc (unat v))"
  using TagSize_eq [of v] by (simp add: TagSize_def StaticVarintSize32_def)

lemmas varint_sizes = VarintSize32_eq VarintSize64_eq TagSize_eq StaticVarintSize32_eq
  VarintSize32SignExtended_def VarintSize32SignExtendedPlusOne_def

section \<open>Properties\<close>

text \<open>
  Every varint writer of the runtime writes the same bytes, the base-128 digits of the value
  with the continuation bit on all but the last: decoding them gives the value back.
\<close>

theorem varint_writers_agree:
  "WriteVarint32ToArray v = varint_enc (unat v) \<and> UnsafeWriteSize v = varint_enc (unat v)
   \<and> WriteVarint w = varint_enc (unat w) \<and> WriteVarint64ToArray w = varint_enc (unat w)
   \<and> WriteVarint32ToArrayOutOfLine v = varint_enc (unat v)"
  by (simp add: varint_writers)

text \<open>
  The branch-free size formulas \<^verbatim>\<open>(log2 * 9 + 73) / 64\<close> and the comparison chains give the
  number of bytes that the writers write.
\<close>

theorem varint_sizes_exact:
  "VarintSize32 v = of_nat (length (WriteVarint32ToArray v)) \<and> VarintSize64 w = of_nat (length (WriteVarint64ToArray w))
   \<and> TagSize v = length (WriteVarint32ToArray v) \<and> StaticVarintSize32 v = length (WriteVarint32ToArray v)
   \<and> length (WriteVarint32ToArray v) \<le> 5 \<and> length (WriteVarint64ToArray w) \<le> 10"
proof -
  have "length (varint_enc (unat v)) \<le> 5" "length (varint_enc (unat w)) \<le> 10"
    using length_varint_enc_le [of "unat v" 4] unsigned_less [of v, where ?'a = nat]
      length_varint_enc_le [of "unat w" 9] unsigned_less [of w, where ?'a = nat] by simp_all
  then show ?thesis by (simp add: varint_writers varint_sizes)
qed

end
