(* ===== verification/Readers.thy ===== *)
theory Readers
  imports Varint
begin

text \<open>
  The primitive readers of the parser: \<^verbatim>\<open>VarintParse\<close>, \<^verbatim>\<open>ReadTag\<close>, \<^verbatim>\<open>ReadSize\<close> with their
  out-of-line parts (\<^verbatim>\<open>parse_context.h\<close>, \<^verbatim>\<open>parse_context.cc\<close>) and the fixed-width loads.

  A reader gets the bytes that are accessible from its pointer on and returns the value
  with the number of bytes it advances the pointer by. \<open>Null\<close> is the null pointer of a
  malformed encoding, \<open>OOB\<close> a read past the accessible bytes. The contract \<open>wire_reader\<close>
  says what the parse loop relies on; every reader is an instance.
\<close>

section \<open>Readers\<close>

text \<open>
  The body of the loops \<^verbatim>\<open>for (i = i0; i < i0 + n; i++)\<close> of the slow paths: the byte
  at \<open>i\<close> is added with its continuation bit, which the \<^verbatim>\<open>- 1\<close> of the next byte takes off
  again. \<open>k\<close> is what follows the loop.
\<close>

fun varint_loop ::
  "nat \<Rightarrow> nat \<Rightarrow> byte list \<Rightarrow> 'a::len word \<Rightarrow> ('a word \<Rightarrow> ('a word \<times> nat) pres) \<Rightarrow> ('a word \<times> nat) pres"
where
  "varint_loop 0 i p res k = k res"
| "varint_loop (Suc n) i p res k =
     pbind (rd p i) (\<lambda>b.
       let byte = ucast b; res' = res + push_bit (7 * i) (byte - 1)
       in (if unat b < 128 then Ok (res', i + 1) else varint_loop n (i + 1) p res' k))"

text \<open>The second loop of \<^verbatim>\<open>VarintParseSlow32\<close> skips the bytes that do not fit.\<close>

fun varint_skip_loop :: "nat \<Rightarrow> nat \<Rightarrow> byte list \<Rightarrow> 'a::len word \<Rightarrow> ('a word \<times> nat) pres" where
  "varint_skip_loop 0 i p res = Null"
| "varint_skip_loop (Suc n) i p res =
     pbind (rd p i) (\<lambda>b. if unat b < 128 then Ok (res, i + 1) else varint_skip_loop n (i + 1) p res)"

definition VarintParseSlow32 :: "byte list \<Rightarrow> u32 \<Rightarrow> (u32 \<times> nat) pres" where
  "VarintParseSlow32 p res = varint_loop 3 2 p res (\<lambda>res. varint_skip_loop 5 5 p res)"

definition VarintParseSlow64 :: "byte list \<Rightarrow> u32 \<Rightarrow> (u64 \<times> nat) pres" where
  "VarintParseSlow64 p res32 = varint_loop 8 2 p (ucast res32) (\<lambda>res. Null)"

text \<open>\<^verbatim>\<open>VarintParse<T>\<close> for the two instances; \<open>slow\<close> is the overload of \<^verbatim>\<open>VarintParseSlow\<close>.\<close>

definition VarintParse :: "(byte list \<Rightarrow> u32 \<Rightarrow> ('a::len word \<times> nat) pres) \<Rightarrow> byte list \<Rightarrow> ('a word \<times> nat) pres" where
  "VarintParse slow p =
     pbind (rd p 0) (\<lambda>b0. let res = (ucast b0 :: u32) in
       if res AND 0x80 = 0 then Ok (ucast res, 1)
       else pbind (rd p 1) (\<lambda>b1.
         let byte = (ucast b1 :: u32); res = res + push_bit 7 (byte - 1)
         in (if byte AND 0x80 = 0 then Ok (ucast res, 2) else slow p res)))"

definition VarintParse32 :: "byte list \<Rightarrow> (u32 \<times> nat) pres" where
  "VarintParse32 = VarintParse VarintParseSlow32"

definition VarintParse64 :: "byte list \<Rightarrow> (u64 \<times> nat) pres" where
  "VarintParse64 = VarintParse VarintParseSlow64"

definition ReadTagFallback :: "byte list \<Rightarrow> u32 \<Rightarrow> (u32 \<times> nat) pres" where
  "ReadTagFallback p res = varint_loop 3 2 p res (\<lambda>res. Null)"

definition ReadTag :: "byte list \<Rightarrow> (u32 \<times> nat) pres" where
  "ReadTag p =
     pbind (rd p 0) (\<lambda>b0. let res = (ucast b0 :: u32) in
       if unat res < 128 then Ok (res, 1)
       else pbind (rd p 1) (\<lambda>b1.
         let second = (ucast b1 :: u32); res = res + push_bit 7 (second - 1)
         in (if unat second < 128 then Ok (res, 2) else ReadTagFallback p res)))"

text \<open>\<^verbatim>\<open>ReadSizeFallback\<close> rejects a size above \<^verbatim>\<open>INT_MAX - kSlopBytes\<close>.\<close>

definition kSlopBytes :: nat where "kSlopBytes = 16"
definition INT_MAX :: nat where "INT_MAX = 2147483647"

definition ReadSizeFallback :: "byte list \<Rightarrow> u32 \<Rightarrow> (u32 \<times> nat) pres" where
  "ReadSizeFallback p res =
     varint_loop 3 1 p res (\<lambda>res.
       pbind (rd p 4) (\<lambda>b. let byte = (ucast b :: u32) in
         if 8 \<le> unat byte then Null
         else let res = res + push_bit 28 (byte - 1) in
           if INT_MAX - kSlopBytes < unat res then Null else Ok (res, 5)))"

definition ReadSize :: "byte list \<Rightarrow> (u32 \<times> nat) pres" where
  "ReadSize p =
     pbind (rd p 0) (\<lambda>b0. let res = (ucast b0 :: u32) in
       if unat res < 128 then Ok (res, 1) else ReadSizeFallback p res)"

section \<open>What they compute\<close>

text \<open>The number of continuation bytes at the front, and the value up to the terminator.\<close>

definition vlead :: "byte list \<Rightarrow> nat" where
  "vlead bs = length (takeWhile (\<lambda>b. 128 \<le> unat b) bs)"

definition vvalue :: "byte list \<Rightarrow> nat" where
  "vvalue bs = varint_val (take (Suc (vlead bs)) bs)"

definition varint_spec :: "nat \<Rightarrow> byte list \<Rightarrow> ('a::len word \<times> nat) pres" where
  "varint_spec m p =
     (if m \<le> vlead p then Null else if length p \<le> vlead p then OOB
      else Ok (of_nat (vvalue p), Suc (vlead p)))"

lemma vlead_Nil [simp]: "vlead [] = 0"
  by (simp add: vlead_def)

lemma vlead_le: "vlead bs \<le> length bs"
  by (simp add: vlead_def length_takeWhile_le)

lemma vlead_lead: "i < vlead bs \<Longrightarrow> 128 \<le> unat (bs ! i)"
  using nth_mem [of i "takeWhile (\<lambda>b. 128 \<le> unat b) bs"]
  by (auto simp: vlead_def takeWhile_nth dest: set_takeWhileD)

lemma vlead_end: "vlead bs < length bs \<Longrightarrow> unat (bs ! vlead bs) < 128"
  using nth_length_takeWhile [of "\<lambda>b. 128 \<le> unat b" bs] by (simp add: vlead_def)

lemma vlead_ge:
  assumes "i \<le> vlead bs"
  shows "i = vlead bs \<longleftrightarrow> length bs \<le> i \<or> unat (bs ! i) < 128"
  using assms vlead_lead [of i bs] vlead_end [of bs] vlead_le [of bs] by fastforce

lemma varint_val_snoc: "varint_val (bs @ [b]) = varint_val bs + 2 ^ (7 * length bs) * (unat b mod 128)"
  by (induction bs) (simp_all add: power_add algebra_simps)

lemma varint_val_take_Suc:
  "i < length bs \<Longrightarrow> varint_val (take (Suc i) bs) = varint_val (take i bs) + 2 ^ (7 * i) * (unat (bs ! i) mod 128)"
  by (simp add: take_Suc_conv_app_nth varint_val_snoc)

lemma of_nat_unat_byte: "(of_nat (unat (b :: byte)) :: 'a::len word) = ucast b"
  by simp

text \<open>The accumulator runs ahead by the continuation bit of the last byte.\<close>

definition vacc :: "byte list \<Rightarrow> nat \<Rightarrow> 'a::len word" where
  "vacc bs i = of_nat (varint_val (take i bs)) + 2 ^ (7 * i)"

lemma vacc_step:
  assumes "i < length bs"
  shows "vacc bs i + push_bit (7 * i) (ucast (bs ! i) - 1) =
    (if unat (bs ! i) < 128 then of_nat (varint_val (take (Suc i) bs)) else vacc bs (Suc i))"
proof -
  let ?b = "bs ! i"
  have b: "(ucast ?b :: 'a word) = of_nat (unat ?b)" by simp
  have s: "vacc bs i + push_bit (7 * i) (ucast ?b - 1)
      = (of_nat (varint_val (take i bs) + 2 ^ (7 * i) * unat ?b) :: 'a word)"
    unfolding b by (simp add: vacc_def push_bit_eq_mult algebra_simps)
  have v: "varint_val (take (Suc i) bs) = varint_val (take i bs) + 2 ^ (7 * i) * (unat ?b mod 128)"
    by (rule varint_val_take_Suc [OF assms])
  show ?thesis
  proof (cases "unat ?b < 128")
    case True
    then show ?thesis unfolding s by (simp only: v mod_less if_True)
  next
    case False
    have "unat ?b div 128 = 1" using False unat_byte_less [of ?b] by simp
    then have "unat ?b = unat ?b mod 128 + 128" using div_mult_mod_eq [of "unat ?b" 128] by simp
    then have "2 ^ (7 * i) * unat ?b = 2 ^ (7 * i) * (unat ?b mod 128 + 128)"
      by (rule arg_cong)
    also have "\<dots> = 2 ^ (7 * i) * (unat ?b mod 128) + 2 ^ (7 * Suc i)"
      by (simp only: add_mult_distrib2 mult_Suc_right power_add) simp
    finally have "2 ^ (7 * i) * unat ?b = 2 ^ (7 * i) * (unat ?b mod 128) + 2 ^ (7 * Suc i)" .
    with v have "varint_val (take i bs) + 2 ^ (7 * i) * unat ?b
        = varint_val (take (Suc i) bs) + 2 ^ (7 * Suc i)" by simp
    then show ?thesis using False unfolding s by (simp only: vacc_def if_False of_nat_add of_nat_power) simp
  qed
qed

lemma varint_loop_spec:
  "i \<le> vlead p \<Longrightarrow> varint_loop n i p (vacc p i) k =
     (if i + n \<le> vlead p then k (vacc p (i + n)) else if length p \<le> vlead p then OOB
      else Ok (of_nat (vvalue p), Suc (vlead p)))"
proof (induction n arbitrary: i)
  case 0
  then show ?case by simp
next
  case (Suc n)
  show ?case
  proof (cases "i < length p")
    case False
    then have "i = vlead p" "length p \<le> i" using Suc.prems vlead_le [of p] by simp_all
    then show ?thesis by (simp add: rd_out)
  next
    case True
    show ?thesis
    proof (cases "i = vlead p")
      case i: True
      then have "unat (p ! i) < 128" using vlead_end True by simp
      then show ?thesis using True i vacc_step [OF True, where ?'a = 'a]
        by (simp add: vvalue_def)
    next
      case i: False
      then have "\<not> unat (p ! i) < 128" using vlead_lead [of i p] Suc.prems by simp
      then show ?thesis using True i vacc_step [OF True, where ?'a = 'a] Suc.IH [of "Suc i"] Suc.prems
        by simp
    qed
  qed
qed

lemma varint_skip_loop_spec:
  "i \<le> vlead p \<Longrightarrow> varint_skip_loop n i p res =
     (if i + n \<le> vlead p then Null else if length p \<le> vlead p then OOB
      else Ok (res, Suc (vlead p)))"
proof (induction n arbitrary: i)
  case 0
  then show ?case by simp
next
  case (Suc n)
  show ?case
  proof (cases "i < length p")
    case False
    then have "i = vlead p" "length p \<le> i" using Suc.prems vlead_le [of p] by simp_all
    then show ?thesis by (simp add: rd_out)
  next
    case True
    then show ?thesis
      using vlead_end [of p] vlead_lead [of i p] Suc.prems Suc.IH [of "Suc i"]
      by (cases "i = vlead p") auto
  qed
qed

lemma varint_val_append:
  "varint_val (a @ b) = varint_val a + 2 ^ (7 * length a) * varint_val b"
  by (induction a) (simp_all add: power_add algebra_simps)

lemma vacc_overflow:
  assumes "i \<le> vlead p" and "(2 :: 'a::len word) ^ (7 * i) = 0"
  shows "(vacc p i :: 'a word) = of_nat (vvalue p)"
proof -
  have len: "length (take i p) = i" using assms(1) vlead_le [of p] by simp
  have "take (Suc (vlead p)) p = take i p @ drop i (take (Suc (vlead p)) p)"
    using append_take_drop_id [of i "take (Suc (vlead p)) p"] assms(1) by (simp add: min_def)
  then have "vvalue p = varint_val (take i p) + 2 ^ (7 * i) * varint_val (drop i (take (Suc (vlead p)) p))"
    unfolding vvalue_def by (metis varint_val_append len)
  then show ?thesis using assms(2)
    by (simp only: vacc_def of_nat_add of_nat_mult of_nat_power of_nat_numeral mult_zero_left)
qed

text \<open>The first bytes, read outside the loops.\<close>

lemma and_128_zero: "(ucast (b :: byte) AND 0x80 :: u32) = 0 \<longleftrightarrow> unat b < 128"
proof -
  have all: "\<forall>n \<in> set [0..<256]. ((ucast (of_nat n :: byte) AND 0x80 :: u32) = 0) = (n < 128)"
    by code_simp
  have "unat b \<in> set [0..<256]" using unat_byte_less [of b] by simp
  from bspec [OF all this] show ?thesis by simp
qed

lemma ucast_ucast_byte [simp]: "ucast (ucast (b :: byte) :: u32) = (ucast b :: 'a::len word)"
  by (rule bit_word_eqI) (auto simp: bit_simps dest: bit_imp_le_length)

lemma unat_ucast_byte32 [simp]: "unat (ucast (b :: byte) :: u32) = unat b"
  using unat_byte_less [of b] by (simp add: unsigned_ucast_eq take_bit_nat_eq_self)

lemma vlead_0: "p \<noteq> [] \<Longrightarrow> unat (p ! 0) < 128 \<longleftrightarrow> vlead p = 0"
  using vlead_ge [of 0 p] by auto

lemma vacc_1: "p \<noteq> [] \<Longrightarrow> vlead p \<noteq> 0 \<Longrightarrow> (vacc p 1 :: 'a::len word) = ucast (p ! 0)"
proof -
  assume p: "p \<noteq> []" and v: "vlead p \<noteq> 0"
  then have ge: "128 \<le> unat (p ! 0)" using vlead_lead [of 0 p] by simp
  then have "unat (p ! 0) div 128 = 1" using unat_byte_less [of "p ! 0"] by simp
  then have e: "unat (p ! 0) = unat (p ! 0) mod 128 + 128"
    using div_mult_mod_eq [of "unat (p ! 0)" 128] by simp
  have "take 1 p = [p ! 0]" using p by (cases p) simp_all
  then have "(vacc p 1 :: 'a word) = of_nat (unat (p ! 0) mod 128 + 128)"
    by (simp add: vacc_def)
  also have "\<dots> = ucast (p ! 0)" by (simp only: e [symmetric] of_nat_unat_byte)
  finally show ?thesis .
qed

lemma vvalue_0: "p \<noteq> [] \<Longrightarrow> vlead p = 0 \<Longrightarrow> of_nat (vvalue p) = (ucast (p ! 0) :: 'a::len word)"
proof -
  assume p: "p \<noteq> []" and v: "vlead p = 0"
  then have "vvalue p = unat (p ! 0)"
    using vlead_0 [OF p] by (cases p) (simp_all add: vvalue_def)
  then show ?thesis by simp
qed

text \<open>Two bytes by hand, then a loop: the reference again.\<close>

lemma two_bytes_32:
  "p \<noteq> [] \<Longrightarrow> vlead p \<noteq> 0 \<Longrightarrow> pbind (rd p 1) (\<lambda>b1. let byte = (ucast b1 :: u32);
       res = ucast (p ! 0) + push_bit 7 (byte - 1) in
         if unat b1 < 128 then f res else g res)
     = (if length p \<le> 1 then OOB else if vlead p = 1 then f (of_nat (vvalue p)) else g (vacc p 2))"
proof -
  assume p: "p \<noteq> []" and v: "vlead p \<noteq> 0"
  show ?thesis
  proof (cases "1 < length p")
    case True
    have "vacc p 1 + push_bit 7 (ucast (p ! 1) - 1) =
      (if unat (p ! 1) < 128 then of_nat (varint_val (take 2 p)) else (vacc p 2 :: u32))"
      using vacc_step [of 1 p, where ?'a = 32] True by (simp add: numeral_2_eq_2)
    moreover have "unat (p ! 1) < 128 \<longleftrightarrow> vlead p = 1" using vlead_ge [of 1 p] v True by auto
    ultimately show ?thesis using True vacc_1 [OF p v, where ?'a = 32]
      by (simp add: vvalue_def numeral_2_eq_2)
  qed (simp add: rd_out)
qed

lemma ReadTag_eq: "ReadTag p = varint_spec 5 p"
proof (cases "p = [] \<or> vlead p = 0")
  case True
  then show ?thesis
    by (auto simp: ReadTag_def varint_spec_def rd_out vlead_0 vvalue_0 Let_def)
next
  case False
  then have p: "p \<noteq> []" and v: "vlead p \<noteq> 0" by simp_all
  have "ReadTag p = (if length p \<le> 1 then OOB else if vlead p = 1 then Ok (of_nat (vvalue p), 2)
      else ReadTagFallback p (vacc p 2))"
    using two_bytes_32 [OF p v, of "\<lambda>res. Ok (res, 2)" "ReadTagFallback p"] p v vlead_0 [OF p]
    by (simp add: ReadTag_def Let_def)
  then show ?thesis
    using v vlead_le [of p]
    by (auto simp: ReadTagFallback_def varint_spec_def varint_loop_spec)
qed

lemma VarintParse_eq:
  assumes "p \<noteq> []" "vlead p \<noteq> 0"
  shows "VarintParse slow p = (if length p \<le> 1 then OOB
     else if vlead p = 1 then Ok (ucast (of_nat (vvalue p) :: u32), 2) else slow p (vacc p 2))"
  using two_bytes_32 [OF assms, of "\<lambda>res. Ok (ucast res, 2)" "slow p"] assms vlead_0 [OF assms(1)]
  by (simp add: VarintParse_def Let_def and_128_zero)

lemma VarintParse_short:
  "p = [] \<or> vlead p = 0 \<Longrightarrow> 0 < m \<Longrightarrow> VarintParse slow p = varint_spec m p"
  by (auto simp: VarintParse_def varint_spec_def rd_out vlead_0 vvalue_0 Let_def and_128_zero)

lemma VarintParse32_eq: "VarintParse32 p = varint_spec 10 p"
proof (cases "p = [] \<or> vlead p = 0")
  case True
  then show ?thesis by (simp add: VarintParse32_def VarintParse_short)
next
  case False
  have "(2 :: u32) ^ 35 = 0" by simp
  then have "5 \<le> vlead p \<Longrightarrow> (vacc p 5 :: u32) = of_nat (vvalue p)"
    using vacc_overflow [of 5 p, where ?'a = 32] by simp
  then show ?thesis
    using False vlead_le [of p]
    by (auto simp: VarintParse32_def VarintParse_eq VarintParseSlow32_def varint_spec_def
        varint_loop_spec varint_skip_loop_spec)
qed

lemma varint_val_less: "varint_val bs < 2 ^ (7 * length bs)"
proof (induction bs)
  case (Cons b bs)
  have "unat b mod 128 < 128" by simp
  with Cons show ?case by (simp add: power_add)
qed simp

lemma ucast_of_nat_32_64: "n < 4294967296 \<Longrightarrow> ucast (of_nat n :: u32) = (of_nat n :: u64)"
  by (simp add: word_unat_eq_iff unsigned_ucast_eq unsigned_of_nat take_bit_nat_def)

lemma VarintParse64_eq: "VarintParse64 p = varint_spec 10 p"
proof (cases "p = [] \<or> vlead p = 0")
  case True
  then show ?thesis by (simp add: VarintParse64_def VarintParse_short)
next
  case False
  have l: "varint_val (take 2 p) < 16384"
    using varint_val_less [of "take 2 p"] power_increasing [of "7 * length (take 2 p)" 14 "2::nat"]
    by simp
  have v2: "ucast (vacc p 2 :: u32) = (vacc p 2 :: u64)"
    using ucast_of_nat_32_64 [of "varint_val (take 2 p) + 16384"] l by (simp add: vacc_def)
  have v1: "vlead p = 1 \<Longrightarrow> ucast (of_nat (vvalue p) :: u32) = (of_nat (vvalue p) :: u64)"
    using ucast_of_nat_32_64 [of "vvalue p"] l by (simp add: vvalue_def numeral_2_eq_2)
  show ?thesis
    using False vlead_le [of p]
    by (auto simp: VarintParse64_def VarintParse_eq VarintParseSlow64_def varint_spec_def
        varint_loop_spec v1 v2)
qed

definition size_spec :: "byte list \<Rightarrow> (u32 \<times> nat) pres" where
  "size_spec p =
     (if 5 \<le> vlead p then Null else if length p \<le> vlead p then OOB
      else if INT_MAX - kSlopBytes < vvalue p then Null
      else Ok (of_nat (vvalue p), Suc (vlead p)))"

lemma vvalue_less: "vlead p < m \<Longrightarrow> vvalue p < 2 ^ (7 * m)"
  unfolding vvalue_def
  by (rule less_le_trans [OF varint_val_less power_increasing]) simp_all

lemma ReadSize_eq: "ReadSize p = size_spec p"
proof (cases "p = [] \<or> vlead p = 0")
  case True
  then have "p \<noteq> [] \<Longrightarrow> vvalue p < 128" using vvalue_less [of p 1] by simp
  with True show ?thesis
    by (auto simp: ReadSize_def size_spec_def rd_out vlead_0 vvalue_0 Let_def INT_MAX_def kSlopBytes_def)
next
  case False
  then have p: "p \<noteq> []" and v: "vlead p \<noteq> 0" by simp_all
  let ?k = "\<lambda>res. pbind (rd p 4) (\<lambda>b. let byte = (ucast b :: u32) in
         if 8 \<le> unat byte then Null
         else let res = res + push_bit 28 (byte - 1) in
           if INT_MAX - kSlopBytes < unat res then Null else Ok (res, 5))"
  have s4: "1 + 3 = (4 :: nat)" by simp
  have e: "ReadSize p = (if 4 \<le> vlead p then ?k (vacc p 4) else if length p \<le> vlead p then OOB
      else Ok (of_nat (vvalue p), Suc (vlead p)))"
    using p v vlead_0 [OF p] varint_loop_spec [of 1 p 3 ?k, unfolded s4]
      vacc_1 [OF p v, where ?'a = 32]
    by (simp add: ReadSize_def ReadSizeFallback_def Let_def)
  show ?thesis
  proof (cases "4 \<le> vlead p \<and> 4 < length p")
    case False
    with e vlead_le [of p] vvalue_less [of p 4] show ?thesis
      by (auto simp: size_spec_def rd_out INT_MAX_def kSlopBytes_def)
  next
    case True
    then have b4: "unat (p ! 4) < 128 \<longleftrightarrow> vlead p = 4" using vlead_ge [of 4 p] by auto
    show ?thesis
    proof (cases "vlead p = 4")
      case False
      with e True b4 show ?thesis by (auto simp: size_spec_def)
    next
      case v4: True
      have lo: "varint_val (take 4 p) < 268435456"
        using varint_val_less [of "take 4 p"] True by simp
      have val: "vvalue p = varint_val (take 4 p) + 268435456 * unat (p ! 4)"
        using varint_val_take_Suc [of 4 p] True v4 b4 by (simp add: vvalue_def)
      have res: "vacc p 4 + push_bit 28 (ucast (p ! 4) - 1) = (of_nat (vvalue p) :: u32)"
        using vacc_step [of 4 p, where ?'a = 32] True v4 b4 by (simp add: vvalue_def)
      have u: "unat (p ! 4) < 8 \<Longrightarrow> unat (of_nat (vvalue p) :: u32) = vvalue p"
        using val lo by (intro unat_of_nat_u32) simp
      have big: "\<not> unat (p ! 4) < 8 \<Longrightarrow> INT_MAX - kSlopBytes < vvalue p"
        using val by (simp add: INT_MAX_def kSlopBytes_def)
      show ?thesis
        using e True v4 big u by (auto simp: size_spec_def Let_def res not_less not_le)
    qed
  qed
qed

section \<open>The contract of a reader\<close>

text \<open>
  A reader looks at no more than \<open>m\<close> bytes, decides on the bytes it consumes alone, and
  fails outside the accessible bytes only when fewer than \<open>m\<close> are there.
\<close>

locale wire_reader =
  fixes rdr :: "byte list \<Rightarrow> ('v \<times> nat) pres" and m :: nat
  assumes ok_bounds: "rdr p = Ok (v, n) \<Longrightarrow> 0 < n \<and> n \<le> length p \<and> n \<le> m"
    and ok_prefix: "rdr p = Ok (v, n) \<Longrightarrow> rdr (take n p @ q) = Ok (v, n)"
    and null_append: "rdr p = Null \<Longrightarrow> rdr (p @ q) = Null"
    and enough: "m \<le> length p \<Longrightarrow> rdr p \<noteq> OOB"
    and clean: "rdr p \<noteq> Fatal" "rdr p \<noteq> NoFuel"
begin

lemma cases_read:
  obtains (ok) v n where "rdr p = Ok (v, n)" "0 < n" "n \<le> length p" "n \<le> m"
    | (null) "rdr p = Null" | (oob) "rdr p = OOB" "length p < m"
proof (cases "rdr p")
  case (Ok x)
  then show thesis using ok [of "fst x" "snd x"] ok_bounds [of p "fst x" "snd x"] by simp
next
  case OOB
  then show thesis using oob enough [of p] not_le by blast
qed (use null clean [of p] in auto)

lemma ok_append: "rdr p = Ok (v, n) \<Longrightarrow> rdr (p @ q) = Ok (v, n)"
  using ok_prefix [of p v n "drop n p @ q"]
  by (simp only: append_assoc [symmetric] append_take_drop_id)

lemma ok_cut: "rdr (p @ q) = Ok (v, n) \<Longrightarrow> n \<le> length p \<Longrightarrow> rdr p = Ok (v, n)"
  using ok_prefix [of "p @ q" v n "drop n p"] by simp

text \<open>Padding the input turns a truncated read into an error or into an overrun.\<close>

lemma padded:
  assumes "rdr p = OOB"
  shows "rdr (p @ q) = Null \<or> rdr (p @ q) = OOB \<or> (\<exists>v n. rdr (p @ q) = Ok (v, n) \<and> length p < n)"
proof (cases rule: cases_read [of "p @ q"])
  case (ok v n)
  then show ?thesis using ok_cut [of p q v n] assms by (cases "n \<le> length p") auto
qed simp_all

end

lemma vlead_Cons: "vlead (b # bs) = (if 128 \<le> unat b then Suc (vlead bs) else 0)"
  by (simp add: vlead_def)

lemma vlead_prefix: "vlead p < n \<Longrightarrow> n \<le> length p \<Longrightarrow> vlead (take n p @ q) = vlead p"
proof (induction p arbitrary: n)
  case (Cons b p)
  then show ?case by (cases n) (auto simp: vlead_Cons split: if_splits)
qed simp

lemma vvalue_prefix: "vlead p < n \<Longrightarrow> n \<le> length p \<Longrightarrow> vvalue (take n p @ q) = vvalue p"
  by (simp add: vvalue_def vlead_prefix)

lemma vlead_append_ge: "vlead p \<le> vlead (p @ q)"
  by (induction p) (simp_all add: vlead_Cons)

text \<open>The laws hold of the two references.\<close>

lemma varint_spec_reader:
  assumes "0 < m" shows "wire_reader (varint_spec m) m"
proof
  fix p q :: "byte list" and v :: "'a word" and n
  assume ok: "varint_spec m p = Ok (v, n)"
  then show "0 < n \<and> n \<le> length p \<and> n \<le> m"
    by (auto simp: varint_spec_def split: if_splits)
  from ok show "varint_spec m (take n p @ q) = Ok (v, n)"
    using vlead_prefix [of p n q] vvalue_prefix [of p n q]
    by (auto simp: varint_spec_def split: if_splits)
next
  fix p q :: "byte list"
  assume "(varint_spec m p :: ('a word \<times> nat) pres) = Null"
  then show "(varint_spec m (p @ q) :: ('a word \<times> nat) pres) = Null"
    using vlead_append_ge [of p q] by (auto simp: varint_spec_def split: if_splits)
next
  fix p :: "byte list"
  assume "m \<le> length p"
  then show "(varint_spec m p :: ('a word \<times> nat) pres) \<noteq> OOB"
    by (auto simp: varint_spec_def)
next
  fix p :: "byte list"
  show "(varint_spec m p :: ('a word \<times> nat) pres) \<noteq> Fatal" "(varint_spec m p :: ('a word \<times> nat) pres) \<noteq> NoFuel"
    by (simp_all add: varint_spec_def)
qed

lemma size_spec_reader: "wire_reader size_spec 5"
proof
  fix p q :: "byte list" and v and n
  assume ok: "size_spec p = Ok (v, n)"
  then show "0 < n \<and> n \<le> length p \<and> n \<le> 5"
    by (auto simp: size_spec_def split: if_splits)
  from ok show "size_spec (take n p @ q) = Ok (v, n)"
    using vlead_prefix [of p n q] vvalue_prefix [of p n q]
    by (auto simp: size_spec_def split: if_splits)
next
  fix p q :: "byte list"
  assume "size_spec p = Null"
  then show "size_spec (p @ q) = Null"
    using vlead_append_ge [of p q] vlead_prefix [of p "length p" q] vvalue_prefix [of p "length p" q]
    by (auto simp: size_spec_def split: if_splits)
next
  fix p :: "byte list"
  assume "5 \<le> length p"
  then show "size_spec p \<noteq> OOB"
    by (auto simp: size_spec_def)
next
  fix p :: "byte list"
  show "size_spec p \<noteq> Fatal" "size_spec p \<noteq> NoFuel"
    by (simp_all add: size_spec_def)
qed

interpretation tag_rd: wire_reader ReadTag 5
  using varint_spec_reader [of 5, where ?'a = 32] by (simp add: ReadTag_eq [abs_def])

interpretation size_rd: wire_reader ReadSize 5
  using size_spec_reader by (simp add: ReadSize_eq [abs_def])

interpretation v32_rd: wire_reader VarintParse32 10
  using varint_spec_reader [of 10, where ?'a = 32] by (simp add: VarintParse32_eq [abs_def])

interpretation v64_rd: wire_reader VarintParse64 10
  using varint_spec_reader [of 10, where ?'a = 64] by (simp add: VarintParse64_eq [abs_def])

section \<open>Reading back what a writer wrote\<close>

lemma vlead_enc: "Suc (vlead (varint_enc n @ q)) = length (varint_enc n)"
proof (induction n rule: varint_enc.induct)
  case (1 n)
  show ?case
  proof (cases "n < 128")
    case True
    then have "unat (of_nat n :: byte) = n" by (simp add: unsigned_of_nat take_bit_nat_eq_self)
    with True show ?thesis by (simp add: varint_enc_small vlead_Cons)
  next
    case False
    have "unat (of_nat (n mod 128 + 128) :: byte) = n mod 128 + 128"
      by (simp only: unsigned_of_nat) (simp add: take_bit_nat_eq_self)
    with False 1 show ?thesis by (simp add: varint_enc_large vlead_Cons del: of_nat_add)
  qed
qed

lemma varint_val_enc: "varint_val (varint_enc n) = n"
proof (induction n rule: varint_enc.induct)
  case (1 n)
  show ?case
  proof (cases "n < 128")
    case True
    then show ?thesis by (simp add: varint_enc_small unsigned_of_nat take_bit_nat_eq_self)
  next
    case False
    have "unat (of_nat (n mod 128 + 128) :: byte) = n mod 128 + 128"
      by (simp only: unsigned_of_nat) (simp add: take_bit_nat_eq_self)
    with False 1 show ?thesis by (simp add: varint_enc_large del: of_nat_add)
  qed
qed

lemma vvalue_enc: "vvalue (varint_enc n @ q) = n"
  by (simp add: vvalue_def vlead_enc varint_val_enc)

lemma varint_spec_enc:
  "length (varint_enc n) \<le> m \<Longrightarrow> varint_spec m (varint_enc n @ q) = Ok (of_nat n, length (varint_enc n))"
  using vlead_enc [of n q] by (auto simp: varint_spec_def vvalue_enc)

lemma length_varint_enc_u32: "length (varint_enc (unat (v :: u32))) \<le> 5"
  using length_varint_enc_le [of "unat v" 4] unsigned_less [of v, where ?'a = nat] by simp

lemma length_varint_enc_u64: "length (varint_enc (unat (v :: u64))) \<le> 10"
  using length_varint_enc_le [of "unat v" 9] unsigned_less [of v, where ?'a = nat] by simp

lemma ReadTag_enc:
  "ReadTag (varint_enc (unat (v :: u32)) @ q) = Ok (v, length (varint_enc (unat v)))"
  using length_varint_enc_u32 [of v] by (simp add: ReadTag_eq varint_spec_enc)

lemma VarintParse64_enc:
  "VarintParse64 (varint_enc (unat (v :: u64)) @ q) = Ok (v, length (varint_enc (unat v)))"
  using length_varint_enc_u64 [of v] by (simp add: VarintParse64_eq varint_spec_enc)

lemma VarintParse32_enc:
  "VarintParse32 (varint_enc (unat (v :: u32)) @ q) = Ok (v, length (varint_enc (unat v)))"
  using length_varint_enc_u32 [of v] by (simp add: VarintParse32_eq varint_spec_enc)

lemma ReadSize_enc:
  assumes "n \<le> INT_MAX - kSlopBytes"
  shows "ReadSize (varint_enc n @ q) = Ok (of_nat n, length (varint_enc n))"
proof -
  have "length (varint_enc n) \<le> 5"
    using length_varint_enc_le [of n 4] assms by (simp add: INT_MAX_def kSlopBytes_def)
  then show ?thesis
    using vlead_enc [of n q] assms by (auto simp: ReadSize_eq size_spec_def vvalue_enc)
qed

section \<open>Fixed-width integers\<close>

text \<open>The object representation of an integer of \<open>k\<close> bytes on a little-endian machine.\<close>

fun le_bytes :: "nat \<Rightarrow> nat \<Rightarrow> byte list" where
  "le_bytes 0 n = []"
| "le_bytes (Suc k) n = of_nat n # le_bytes k (n div 256)"

fun le_val :: "byte list \<Rightarrow> nat" where
  "le_val [] = 0"
| "le_val (b # bs) = unat b + 256 * le_val bs"

definition WriteLittleEndian32ToArray :: "u32 \<Rightarrow> byte list" where
  "WriteLittleEndian32ToArray value = le_bytes 4 (unat value)"

definition WriteLittleEndian64ToArray :: "u64 \<Rightarrow> byte list" where
  "WriteLittleEndian64ToArray value = le_bytes 8 (unat value)"

definition UnalignedLoad32 :: "byte list \<Rightarrow> u32 pres" where
  "UnalignedLoad32 p = (if length p < 4 then OOB else Ok (of_nat (le_val (take 4 p))))"

definition UnalignedLoad64 :: "byte list \<Rightarrow> u64 pres" where
  "UnalignedLoad64 p = (if length p < 8 then OOB else Ok (of_nat (le_val (take 8 p))))"

lemma length_le_bytes [simp]: "length (le_bytes k n) = k"
  by (induction k arbitrary: n) simp_all

lemma le_val_bytes: "n < 256 ^ k \<Longrightarrow> le_val (le_bytes k n) = n"
proof (induction k arbitrary: n)
  case (Suc k)
  have "unat (of_nat n :: byte) = n mod 256" by (simp add: unsigned_of_nat take_bit_nat_def)
  moreover have "n div 256 < 256 ^ k"
    using Suc.prems by (simp add: div_less_iff_less_mult mult.commute)
  ultimately show ?case using Suc.IH by simp
qed simp

lemma UnalignedLoad32_write: "UnalignedLoad32 (WriteLittleEndian32ToArray v @ q) = Ok v"
  using unsigned_less [of v, where ?'a = nat]
  by (simp add: UnalignedLoad32_def WriteLittleEndian32ToArray_def le_val_bytes)

lemma UnalignedLoad64_write: "UnalignedLoad64 (WriteLittleEndian64ToArray v @ q) = Ok v"
  using unsigned_less [of v, where ?'a = nat]
  by (simp add: UnalignedLoad64_def WriteLittleEndian64ToArray_def le_val_bytes)

text \<open>As readers that advance by their width.\<close>

definition ReadFixed32 :: "byte list \<Rightarrow> (u32 \<times> nat) pres" where
  "ReadFixed32 p = pbind (UnalignedLoad32 p) (\<lambda>v. Ok (v, 4))"

definition ReadFixed64 :: "byte list \<Rightarrow> (u64 \<times> nat) pres" where
  "ReadFixed64 p = pbind (UnalignedLoad64 p) (\<lambda>v. Ok (v, 8))"

interpretation f32_rd: wire_reader ReadFixed32 4
  by standard (auto simp: ReadFixed32_def UnalignedLoad32_def split: if_splits)

interpretation f64_rd: wire_reader ReadFixed64 8
  by standard (auto simp: ReadFixed64_def UnalignedLoad64_def split: if_splits)

section \<open>Properties\<close>

text \<open>
  Reading back a varint that a writer wrote, whatever follows it, gives the value and the
  number of bytes written, through the fast paths and the slow ones.
\<close>

theorem varint_roundtrip:
  "VarintParse64 (WriteVarint64ToArray w @ q) = Ok (w, length (WriteVarint64ToArray w))
   \<and> VarintParse32 (WriteVarint32ToArray v @ q) = Ok (v, length (WriteVarint32ToArray v))
   \<and> ReadTag (WriteVarint32ToArray v @ q) = Ok (v, length (WriteVarint32ToArray v))
   \<and> ReadFixed32 (WriteLittleEndian32ToArray v @ q) = Ok (v, 4)
   \<and> ReadFixed64 (WriteLittleEndian64ToArray w @ q) = Ok (w, 8)"
  by (simp add: varint_writers VarintParse64_enc VarintParse32_enc ReadTag_enc ReadFixed32_def ReadFixed64_def
      UnalignedLoad32_write UnalignedLoad64_write)

text \<open>
  C23: the unrolled readers compute what the plain one computes: at most 5 (tags) or 10 (values)
  bytes, the value reduced to the width, null for an unterminated varint; and a size that is
  negative or too close to \<^verbatim>\<open>INT_MAX\<close> is rejected.
\<close>

theorem varint_readers_spec:
  "ReadTag p = varint_spec 5 p \<and> VarintParse32 p = varint_spec 10 p \<and> VarintParse64 p = varint_spec 10 p
   \<and> ReadSize p = size_spec p"
  by (simp add: ReadTag_eq VarintParse32_eq VarintParse64_eq ReadSize_eq)

end
