(* ===== verification/Utf8Table.thy ===== *)
theory Utf8Table
  imports Prelude
begin

text \<open>
  The state table of the UTF-8 scanner and the table of its fast path, transcribed from
  \<^verbatim>\<open>protobuf/stubs/structurally_valid.cc\<close>, and the automaton they hold.
\<close>

section \<open>The tables\<close>

text \<open>Exit codes; \<open>XIL\<close> and \<open>RJC\<close> are \<^verbatim>\<open>X__\<close> and \<^verbatim>\<open>RJ_\<close>.\<close>

abbreviation XIL :: nat where "XIL \<equiv> 240"
abbreviation RJC :: nat where "RJC \<equiv> 242"

definition kExitIllegalStructure :: nat where "kExitIllegalStructure = 240"
definition kExitOK :: nat where "kExitOK = 241"
definition kExitDoAgain :: nat where "kExitDoAgain = 253"

text \<open>\<^verbatim>\<open>state[0] 0x000000 Byte 1\<close>\<close>

definition utf8_state0 :: "nat list" where
  "utf8_state0 =
    [0, 0, 0, 0, 0, 0, 0, 0, 0, 0, 0, 0, 0, 0, 0, 0,
     0, 0, 0, 0, 0, 0, 0, 0, 0, 0, 0, 0, 0, 0, 0, 0,
     0, 0, 0, 0, 0, 0, 0, 0, 0, 0, 0, 0, 0, 0, 0, 0,
     0, 0, 0, 0, 0, 0, 0, 0, 0, 0, 0, 0, 0, 0, 0, 0,
     0, 0, 0, 0, 0, 0, 0, 0, 0, 0, 0, 0, 0, 0, 0, 0,
     0, 0, 0, 0, 0, 0, 0, 0, 0, 0, 0, 0, 0, 0, 0, 0,
     0, 0, 0, 0, 0, 0, 0, 0, 0, 0, 0, 0, 0, 0, 0, 0,
     0, 0, 0, 0, 0, 0, 0, 0, 0, 0, 0, 0, 0, 0, 0, 0,
     XIL, XIL, XIL, XIL, XIL, XIL, XIL, XIL, XIL, XIL, XIL, XIL, XIL, XIL, XIL, XIL,
     XIL, XIL, XIL, XIL, XIL, XIL, XIL, XIL, XIL, XIL, XIL, XIL, XIL, XIL, XIL, XIL,
     XIL, XIL, XIL, XIL, XIL, XIL, XIL, XIL, XIL, XIL, XIL, XIL, XIL, XIL, XIL, XIL,
     XIL, XIL, XIL, XIL, XIL, XIL, XIL, XIL, XIL, XIL, XIL, XIL, XIL, XIL, XIL, XIL,
     XIL, XIL, 1, 1, 1, 1, 1, 1, 1, 1, 1, 1, 1, 1, 1, 1,
     1, 1, 1, 1, 1, 1, 1, 1, 1, 1, 1, 1, 1, 1, 1, 1,
     2, 3, 3, 3, 3, 3, 3, 3, 3, 3, 3, 3, 3, 7, 3, 3,
     4, 5, 5, 5, 6, XIL, XIL, XIL, XIL, XIL, XIL, XIL, XIL, XIL, XIL, XIL]"

text \<open>\<^verbatim>\<open>state[1] 0x000080 Byte 2 of 2\<close>\<close>

definition utf8_state1 :: "nat list" where
  "utf8_state1 =
    [XIL, XIL, XIL, XIL, XIL, XIL, XIL, XIL, XIL, XIL, XIL, XIL, XIL, XIL, XIL, XIL,
     XIL, XIL, XIL, XIL, XIL, XIL, XIL, XIL, XIL, XIL, XIL, XIL, XIL, XIL, XIL, XIL,
     XIL, XIL, XIL, XIL, XIL, XIL, XIL, XIL, XIL, XIL, XIL, XIL, XIL, XIL, XIL, XIL,
     XIL, XIL, XIL, XIL, XIL, XIL, XIL, XIL, XIL, XIL, XIL, XIL, XIL, XIL, XIL, XIL,
     XIL, XIL, XIL, XIL, XIL, XIL, XIL, XIL, XIL, XIL, XIL, XIL, XIL, XIL, XIL, XIL,
     XIL, XIL, XIL, XIL, XIL, XIL, XIL, XIL, XIL, XIL, XIL, XIL, XIL, XIL, XIL, XIL,
     XIL, XIL, XIL, XIL, XIL, XIL, XIL, XIL, XIL, XIL, XIL, XIL, XIL, XIL, XIL, XIL,
     XIL, XIL, XIL, XIL, XIL, XIL, XIL, XIL, XIL, XIL, XIL, XIL, XIL, XIL, XIL, XIL,
     0, 0, 0, 0, 0, 0, 0, 0, 0, 0, 0, 0, 0, 0, 0, 0,
     0, 0, 0, 0, 0, 0, 0, 0, 0, 0, 0, 0, 0, 0, 0, 0,
     0, 0, 0, 0, 0, 0, 0, 0, 0, 0, 0, 0, 0, 0, 0, 0,
     0, 0, 0, 0, 0, 0, 0, 0, 0, 0, 0, 0, 0, 0, 0, 0,
     XIL, XIL, XIL, XIL, XIL, XIL, XIL, XIL, XIL, XIL, XIL, XIL, XIL, XIL, XIL, XIL,
     XIL, XIL, XIL, XIL, XIL, XIL, XIL, XIL, XIL, XIL, XIL, XIL, XIL, XIL, XIL, XIL,
     XIL, XIL, XIL, XIL, XIL, XIL, XIL, XIL, XIL, XIL, XIL, XIL, XIL, XIL, XIL, XIL,
     XIL, XIL, XIL, XIL, XIL, XIL, XIL, XIL, XIL, XIL, XIL, XIL, XIL, XIL, XIL, XIL]"

text \<open>\<^verbatim>\<open>state[2] 0x000000 Byte 2 of 3\<close>\<close>

definition utf8_state2 :: "nat list" where
  "utf8_state2 =
    [XIL, XIL, XIL, XIL, XIL, XIL, XIL, XIL, XIL, XIL, XIL, XIL, XIL, XIL, XIL, XIL,
     XIL, XIL, XIL, XIL, XIL, XIL, XIL, XIL, XIL, XIL, XIL, XIL, XIL, XIL, XIL, XIL,
     XIL, XIL, XIL, XIL, XIL, XIL, XIL, XIL, XIL, XIL, XIL, XIL, XIL, XIL, XIL, XIL,
     XIL, XIL, XIL, XIL, XIL, XIL, XIL, XIL, XIL, XIL, XIL, XIL, XIL, XIL, XIL, XIL,
     XIL, XIL, XIL, XIL, XIL, XIL, XIL, XIL, XIL, XIL, XIL, XIL, XIL, XIL, XIL, XIL,
     XIL, XIL, XIL, XIL, XIL, XIL, XIL, XIL, XIL, XIL, XIL, XIL, XIL, XIL, XIL, XIL,
     XIL, XIL, XIL, XIL, XIL, XIL, XIL, XIL, XIL, XIL, XIL, XIL, XIL, XIL, XIL, XIL,
     XIL, XIL, XIL, XIL, XIL, XIL, XIL, XIL, XIL, XIL, XIL, XIL, XIL, XIL, XIL, XIL,
     XIL, XIL, XIL, XIL, XIL, XIL, XIL, XIL, XIL, XIL, XIL, XIL, XIL, XIL, XIL, XIL,
     XIL, XIL, XIL, XIL, XIL, XIL, XIL, XIL, XIL, XIL, XIL, XIL, XIL, XIL, XIL, XIL,
     1, 1, 1, 1, 1, 1, 1, 1, 1, 1, 1, 1, 1, 1, 1, 1,
     1, 1, 1, 1, 1, 1, 1, 1, 1, 1, 1, 1, 1, 1, 1, 1,
     XIL, XIL, XIL, XIL, XIL, XIL, XIL, XIL, XIL, XIL, XIL, XIL, XIL, XIL, XIL, XIL,
     XIL, XIL, XIL, XIL, XIL, XIL, XIL, XIL, XIL, XIL, XIL, XIL, XIL, XIL, XIL, XIL,
     XIL, XIL, XIL, XIL, XIL, XIL, XIL, XIL, XIL, XIL, XIL, XIL, XIL, XIL, XIL, XIL,
     XIL, XIL, XIL, XIL, XIL, XIL, XIL, XIL, XIL, XIL, XIL, XIL, XIL, XIL, XIL, XIL]"

text \<open>\<^verbatim>\<open>state[3] 0x001000 Byte 2 of 3\<close>\<close>

definition utf8_state3 :: "nat list" where
  "utf8_state3 =
    [XIL, XIL, XIL, XIL, XIL, XIL, XIL, XIL, XIL, XIL, XIL, XIL, XIL, XIL, XIL, XIL,
     XIL, XIL, XIL, XIL, XIL, XIL, XIL, XIL, XIL, XIL, XIL, XIL, XIL, XIL, XIL, XIL,
     XIL, XIL, XIL, XIL, XIL, XIL, XIL, XIL, XIL, XIL, XIL, XIL, XIL, XIL, XIL, XIL,
     XIL, XIL, XIL, XIL, XIL, XIL, XIL, XIL, XIL, XIL, XIL, XIL, XIL, XIL, XIL, XIL,
     XIL, XIL, XIL, XIL, XIL, XIL, XIL, XIL, XIL, XIL, XIL, XIL, XIL, XIL, XIL, XIL,
     XIL, XIL, XIL, XIL, XIL, XIL, XIL, XIL, XIL, XIL, XIL, XIL, XIL, XIL, XIL, XIL,
     XIL, XIL, XIL, XIL, XIL, XIL, XIL, XIL, XIL, XIL, XIL, XIL, XIL, XIL, XIL, XIL,
     XIL, XIL, XIL, XIL, XIL, XIL, XIL, XIL, XIL, XIL, XIL, XIL, XIL, XIL, XIL, XIL,
     1, 1, 1, 1, 1, 1, 1, 1, 1, 1, 1, 1, 1, 1, 1, 1,
     1, 1, 1, 1, 1, 1, 1, 1, 1, 1, 1, 1, 1, 1, 1, 1,
     1, 1, 1, 1, 1, 1, 1, 1, 1, 1, 1, 1, 1, 1, 1, 1,
     1, 1, 1, 1, 1, 1, 1, 1, 1, 1, 1, 1, 1, 1, 1, 1,
     XIL, XIL, XIL, XIL, XIL, XIL, XIL, XIL, XIL, XIL, XIL, XIL, XIL, XIL, XIL, XIL,
     XIL, XIL, XIL, XIL, XIL, XIL, XIL, XIL, XIL, XIL, XIL, XIL, XIL, XIL, XIL, XIL,
     XIL, XIL, XIL, XIL, XIL, XIL, XIL, XIL, XIL, XIL, XIL, XIL, XIL, XIL, XIL, XIL,
     XIL, XIL, XIL, XIL, XIL, XIL, XIL, XIL, XIL, XIL, XIL, XIL, XIL, XIL, XIL, XIL]"

text \<open>\<^verbatim>\<open>state[4] 0x000000 Byte 2 of 4\<close>\<close>

definition utf8_state4 :: "nat list" where
  "utf8_state4 =
    [XIL, XIL, XIL, XIL, XIL, XIL, XIL, XIL, XIL, XIL, XIL, XIL, XIL, XIL, XIL, XIL,
     XIL, XIL, XIL, XIL, XIL, XIL, XIL, XIL, XIL, XIL, XIL, XIL, XIL, XIL, XIL, XIL,
     XIL, XIL, XIL, XIL, XIL, XIL, XIL, XIL, XIL, XIL, XIL, XIL, XIL, XIL, XIL, XIL,
     XIL, XIL, XIL, XIL, XIL, XIL, XIL, XIL, XIL, XIL, XIL, XIL, XIL, XIL, XIL, XIL,
     XIL, XIL, XIL, XIL, XIL, XIL, XIL, XIL, XIL, XIL, XIL, XIL, XIL, XIL, XIL, XIL,
     XIL, XIL, XIL, XIL, XIL, XIL, XIL, XIL, XIL, XIL, XIL, XIL, XIL, XIL, XIL, XIL,
     XIL, XIL, XIL, XIL, XIL, XIL, XIL, XIL, XIL, XIL, XIL, XIL, XIL, XIL, XIL, XIL,
     XIL, XIL, XIL, XIL, XIL, XIL, XIL, XIL, XIL, XIL, XIL, XIL, XIL, XIL, XIL, XIL,
     XIL, XIL, XIL, XIL, XIL, XIL, XIL, XIL, XIL, XIL, XIL, XIL, XIL, XIL, XIL, XIL,
     3, 3, 3, 3, 3, 3, 3, 3, 3, 3, 3, 3, 3, 3, 3, 3,
     3, 3, 3, 3, 3, 3, 3, 3, 3, 3, 3, 3, 3, 3, 3, 3,
     3, 3, 3, 3, 3, 3, 3, 3, 3, 3, 3, 3, 3, 3, 3, 3,
     XIL, XIL, XIL, XIL, XIL, XIL, XIL, XIL, XIL, XIL, XIL, XIL, XIL, XIL, XIL, XIL,
     XIL, XIL, XIL, XIL, XIL, XIL, XIL, XIL, XIL, XIL, XIL, XIL, XIL, XIL, XIL, XIL,
     XIL, XIL, XIL, XIL, XIL, XIL, XIL, XIL, XIL, XIL, XIL, XIL, XIL, XIL, XIL, XIL,
     XIL, XIL, XIL, XIL, XIL, XIL, XIL, XIL, XIL, XIL, XIL, XIL, XIL, XIL, XIL, XIL]"

text \<open>\<^verbatim>\<open>state[5] 0x040000 Byte 2 of 4\<close>\<close>

definition utf8_state5 :: "nat list" where
  "utf8_state5 =
    [XIL, XIL, XIL, XIL, XIL, XIL, XIL, XIL, XIL, XIL, XIL, XIL, XIL, XIL, XIL, XIL,
     XIL, XIL, XIL, XIL, XIL, XIL, XIL, XIL, XIL, XIL, XIL, XIL, XIL, XIL, XIL, XIL,
     XIL, XIL, XIL, XIL, XIL, XIL, XIL, XIL, XIL, XIL, XIL, XIL, XIL, XIL, XIL, XIL,
     XIL, XIL, XIL, XIL, XIL, XIL, XIL, XIL, XIL, XIL, XIL, XIL, XIL, XIL, XIL, XIL,
     XIL, XIL, XIL, XIL, XIL, XIL, XIL, XIL, XIL, XIL, XIL, XIL, XIL, XIL, XIL, XIL,
     XIL, XIL, XIL, XIL, XIL, XIL, XIL, XIL, XIL, XIL, XIL, XIL, XIL, XIL, XIL, XIL,
     XIL, XIL, XIL, XIL, XIL, XIL, XIL, XIL, XIL, XIL, XIL, XIL, XIL, XIL, XIL, XIL,
     XIL, XIL, XIL, XIL, XIL, XIL, XIL, XIL, XIL, XIL, XIL, XIL, XIL, XIL, XIL, XIL,
     3, 3, 3, 3, 3, 3, 3, 3, 3, 3, 3, 3, 3, 3, 3, 3,
     3, 3, 3, 3, 3, 3, 3, 3, 3, 3, 3, 3, 3, 3, 3, 3,
     3, 3, 3, 3, 3, 3, 3, 3, 3, 3, 3, 3, 3, 3, 3, 3,
     3, 3, 3, 3, 3, 3, 3, 3, 3, 3, 3, 3, 3, 3, 3, 3,
     XIL, XIL, XIL, XIL, XIL, XIL, XIL, XIL, XIL, XIL, XIL, XIL, XIL, XIL, XIL, XIL,
     XIL, XIL, XIL, XIL, XIL, XIL, XIL, XIL, XIL, XIL, XIL, XIL, XIL, XIL, XIL, XIL,
     XIL, XIL, XIL, XIL, XIL, XIL, XIL, XIL, XIL, XIL, XIL, XIL, XIL, XIL, XIL, XIL,
     XIL, XIL, XIL, XIL, XIL, XIL, XIL, XIL, XIL, XIL, XIL, XIL, XIL, XIL, XIL, XIL]"

text \<open>\<^verbatim>\<open>state[6] 0x100000 Byte 2 of 4\<close>\<close>

definition utf8_state6 :: "nat list" where
  "utf8_state6 =
    [XIL, XIL, XIL, XIL, XIL, XIL, XIL, XIL, XIL, XIL, XIL, XIL, XIL, XIL, XIL, XIL,
     XIL, XIL, XIL, XIL, XIL, XIL, XIL, XIL, XIL, XIL, XIL, XIL, XIL, XIL, XIL, XIL,
     XIL, XIL, XIL, XIL, XIL, XIL, XIL, XIL, XIL, XIL, XIL, XIL, XIL, XIL, XIL, XIL,
     XIL, XIL, XIL, XIL, XIL, XIL, XIL, XIL, XIL, XIL, XIL, XIL, XIL, XIL, XIL, XIL,
     XIL, XIL, XIL, XIL, XIL, XIL, XIL, XIL, XIL, XIL, XIL, XIL, XIL, XIL, XIL, XIL,
     XIL, XIL, XIL, XIL, XIL, XIL, XIL, XIL, XIL, XIL, XIL, XIL, XIL, XIL, XIL, XIL,
     XIL, XIL, XIL, XIL, XIL, XIL, XIL, XIL, XIL, XIL, XIL, XIL, XIL, XIL, XIL, XIL,
     XIL, XIL, XIL, XIL, XIL, XIL, XIL, XIL, XIL, XIL, XIL, XIL, XIL, XIL, XIL, XIL,
     3, 3, 3, 3, 3, 3, 3, 3, 3, 3, 3, 3, 3, 3, 3, 3,
     XIL, XIL, XIL, XIL, XIL, XIL, XIL, XIL, XIL, XIL, XIL, XIL, XIL, XIL, XIL, XIL,
     XIL, XIL, XIL, XIL, XIL, XIL, XIL, XIL, XIL, XIL, XIL, XIL, XIL, XIL, XIL, XIL,
     XIL, XIL, XIL, XIL, XIL, XIL, XIL, XIL, XIL, XIL, XIL, XIL, XIL, XIL, XIL, XIL,
     XIL, XIL, XIL, XIL, XIL, XIL, XIL, XIL, XIL, XIL, XIL, XIL, XIL, XIL, XIL, XIL,
     XIL, XIL, XIL, XIL, XIL, XIL, XIL, XIL, XIL, XIL, XIL, XIL, XIL, XIL, XIL, XIL,
     XIL, XIL, XIL, XIL, XIL, XIL, XIL, XIL, XIL, XIL, XIL, XIL, XIL, XIL, XIL, XIL,
     XIL, XIL, XIL, XIL, XIL, XIL, XIL, XIL, XIL, XIL, XIL, XIL, XIL, XIL, XIL, XIL]"

text \<open>\<^verbatim>\<open>state[7] 0x00d000 Byte 2 of 3\<close>\<close>

definition utf8_state7 :: "nat list" where
  "utf8_state7 =
    [XIL, XIL, XIL, XIL, XIL, XIL, XIL, XIL, XIL, XIL, XIL, XIL, XIL, XIL, XIL, XIL,
     XIL, XIL, XIL, XIL, XIL, XIL, XIL, XIL, XIL, XIL, XIL, XIL, XIL, XIL, XIL, XIL,
     XIL, XIL, XIL, XIL, XIL, XIL, XIL, XIL, XIL, XIL, XIL, XIL, XIL, XIL, XIL, XIL,
     XIL, XIL, XIL, XIL, XIL, XIL, XIL, XIL, XIL, XIL, XIL, XIL, XIL, XIL, XIL, XIL,
     XIL, XIL, XIL, XIL, XIL, XIL, XIL, XIL, XIL, XIL, XIL, XIL, XIL, XIL, XIL, XIL,
     XIL, XIL, XIL, XIL, XIL, XIL, XIL, XIL, XIL, XIL, XIL, XIL, XIL, XIL, XIL, XIL,
     XIL, XIL, XIL, XIL, XIL, XIL, XIL, XIL, XIL, XIL, XIL, XIL, XIL, XIL, XIL, XIL,
     XIL, XIL, XIL, XIL, XIL, XIL, XIL, XIL, XIL, XIL, XIL, XIL, XIL, XIL, XIL, XIL,
     1, 1, 1, 1, 1, 1, 1, 1, 1, 1, 1, 1, 1, 1, 1, 1,
     1, 1, 1, 1, 1, 1, 1, 1, 1, 1, 1, 1, 1, 1, 1, 1,
     8, 8, 8, 8, 8, 8, 8, 8, 8, 8, 8, 8, 8, 8, 8, 8,
     8, 8, 8, 8, 8, 8, 8, 8, 8, 8, 8, 8, 8, 8, 8, 8,
     XIL, XIL, XIL, XIL, XIL, XIL, XIL, XIL, XIL, XIL, XIL, XIL, XIL, XIL, XIL, XIL,
     XIL, XIL, XIL, XIL, XIL, XIL, XIL, XIL, XIL, XIL, XIL, XIL, XIL, XIL, XIL, XIL,
     XIL, XIL, XIL, XIL, XIL, XIL, XIL, XIL, XIL, XIL, XIL, XIL, XIL, XIL, XIL, XIL,
     XIL, XIL, XIL, XIL, XIL, XIL, XIL, XIL, XIL, XIL, XIL, XIL, XIL, XIL, XIL, XIL]"

text \<open>\<^verbatim>\<open>state[8] 0x00d800 Byte 3 of 3\<close>\<close>

definition utf8_state8 :: "nat list" where
  "utf8_state8 =
    [XIL, XIL, XIL, XIL, XIL, XIL, XIL, XIL, XIL, XIL, XIL, XIL, XIL, XIL, XIL, XIL,
     XIL, XIL, XIL, XIL, XIL, XIL, XIL, XIL, XIL, XIL, XIL, XIL, XIL, XIL, XIL, XIL,
     XIL, XIL, XIL, XIL, XIL, XIL, XIL, XIL, XIL, XIL, XIL, XIL, XIL, XIL, XIL, XIL,
     XIL, XIL, XIL, XIL, XIL, XIL, XIL, XIL, XIL, XIL, XIL, XIL, XIL, XIL, XIL, XIL,
     XIL, XIL, XIL, XIL, XIL, XIL, XIL, XIL, XIL, XIL, XIL, XIL, XIL, XIL, XIL, XIL,
     XIL, XIL, XIL, XIL, XIL, XIL, XIL, XIL, XIL, XIL, XIL, XIL, XIL, XIL, XIL, XIL,
     XIL, XIL, XIL, XIL, XIL, XIL, XIL, XIL, XIL, XIL, XIL, XIL, XIL, XIL, XIL, XIL,
     XIL, XIL, XIL, XIL, XIL, XIL, XIL, XIL, XIL, XIL, XIL, XIL, XIL, XIL, XIL, XIL,
     RJC, RJC, RJC, RJC, RJC, RJC, RJC, RJC, RJC, RJC, RJC, RJC, RJC, RJC, RJC, RJC,
     RJC, RJC, RJC, RJC, RJC, RJC, RJC, RJC, RJC, RJC, RJC, RJC, RJC, RJC, RJC, RJC,
     RJC, RJC, RJC, RJC, RJC, RJC, RJC, RJC, RJC, RJC, RJC, RJC, RJC, RJC, RJC, RJC,
     RJC, RJC, RJC, RJC, RJC, RJC, RJC, RJC, RJC, RJC, RJC, RJC, RJC, RJC, RJC, RJC,
     XIL, XIL, XIL, XIL, XIL, XIL, XIL, XIL, XIL, XIL, XIL, XIL, XIL, XIL, XIL, XIL,
     XIL, XIL, XIL, XIL, XIL, XIL, XIL, XIL, XIL, XIL, XIL, XIL, XIL, XIL, XIL, XIL,
     XIL, XIL, XIL, XIL, XIL, XIL, XIL, XIL, XIL, XIL, XIL, XIL, XIL, XIL, XIL, XIL,
     XIL, XIL, XIL, XIL, XIL, XIL, XIL, XIL, XIL, XIL, XIL, XIL, XIL, XIL, XIL, XIL]"

text \<open>The blocks stand one after another; \<^verbatim>\<open>entry_shift\<close> is 8.\<close>

definition utf8acceptnonsurrogates :: "nat list list" where
  "utf8acceptnonsurrogates = [utf8_state0, utf8_state1, utf8_state2, utf8_state3, utf8_state4,
     utf8_state5, utf8_state6, utf8_state7, utf8_state8]"

definition utf8_entry :: "nat \<Rightarrow> byte \<Rightarrow> nat" where
  "utf8_entry Tbl c = utf8acceptnonsurrogates ! Tbl ! unat c"

definition utf8acceptnonsurrogates_fast :: "nat list" where
  "utf8acceptnonsurrogates_fast =
    [0, 0, 0, 0, 0, 0, 0, 0, 0, 0, 0, 0, 0, 0, 0, 0,
     0, 0, 0, 0, 0, 0, 0, 0, 0, 0, 0, 0, 0, 0, 0, 0,
     0, 0, 0, 0, 0, 0, 0, 0, 0, 0, 0, 0, 0, 0, 0, 0,
     0, 0, 0, 0, 0, 0, 0, 0, 0, 0, 0, 0, 0, 0, 0, 0,
     0, 0, 0, 0, 0, 0, 0, 0, 0, 0, 0, 0, 0, 0, 0, 0,
     0, 0, 0, 0, 0, 0, 0, 0, 0, 0, 0, 0, 0, 0, 0, 0,
     0, 0, 0, 0, 0, 0, 0, 0, 0, 0, 0, 0, 0, 0, 0, 0,
     0, 0, 0, 0, 0, 0, 0, 0, 0, 0, 0, 0, 0, 0, 0, 0,
     1, 1, 1, 1, 1, 1, 1, 1, 1, 1, 1, 1, 1, 1, 1, 1,
     1, 1, 1, 1, 1, 1, 1, 1, 1, 1, 1, 1, 1, 1, 1, 1,
     1, 1, 1, 1, 1, 1, 1, 1, 1, 1, 1, 1, 1, 1, 1, 1,
     1, 1, 1, 1, 1, 1, 1, 1, 1, 1, 1, 1, 1, 1, 1, 1,
     1, 1, 1, 1, 1, 1, 1, 1, 1, 1, 1, 1, 1, 1, 1, 1,
     1, 1, 1, 1, 1, 1, 1, 1, 1, 1, 1, 1, 1, 1, 1, 1,
     1, 1, 1, 1, 1, 1, 1, 1, 1, 1, 1, 1, 1, 1, 1, 1,
     1, 1, 1, 1, 1, 1, 1, 1, 1, 1, 1, 1, 1, 1, 1, 1]"

section \<open>The automaton in the table\<close>

definition cont :: "nat \<Rightarrow> bool" where
  "cont c \<longleftrightarrow> 128 \<le> c \<and> c < 192"

definition utf8_trans :: "nat \<Rightarrow> nat \<Rightarrow> nat" where
  "utf8_trans k c =
     (if k = 0 then
        (if c < 128 then 0 else if c < 0xC2 then 240 else if c < 0xE0 then 1 else if c = 0xE0 then 2
         else if c = 0xED then 7 else if c < 0xF0 then 3 else if c = 0xF0 then 4
         else if c < 0xF4 then 5 else if c = 0xF4 then 6 else 240)
      else if \<not> cont c then 240
      else if k = 1 then 0
      else if k = 2 then (if 0xA0 \<le> c then 1 else 240)
      else if k = 3 then 1
      else if k = 4 then (if 0x90 \<le> c then 3 else 240)
      else if k = 5 then 3
      else if k = 6 then (if c < 0x90 then 3 else 240)
      else if k = 7 then (if c < 0xA0 then 1 else 8)
      else 242)"

lemma utf8_states:
  "utf8_state0 = map (utf8_trans 0) [0..<256]" "utf8_state1 = map (utf8_trans 1) [0..<256]"
  "utf8_state2 = map (utf8_trans 2) [0..<256]" "utf8_state3 = map (utf8_trans 3) [0..<256]"
  "utf8_state4 = map (utf8_trans 4) [0..<256]" "utf8_state5 = map (utf8_trans 5) [0..<256]"
  "utf8_state6 = map (utf8_trans 6) [0..<256]" "utf8_state7 = map (utf8_trans 7) [0..<256]"
  "utf8_state8 = map (utf8_trans 8) [0..<256]"
  by code_simp+

lemma utf8_entry_eq:
  assumes "k < 9" shows "utf8_entry k c = utf8_trans k (unat c)"
proof -
  have c: "unat c < 256" by (rule unat_byte_less)
  from assms have "k = 0 \<or> k = 1 \<or> k = 2 \<or> k = 3 \<or> k = 4 \<or> k = 5 \<or> k = 6 \<or> k = 7 \<or> k = 8" by linarith
  with c show ?thesis
    by (elim disjE) (simp_all add: utf8_entry_def utf8acceptnonsurrogates_def utf8_states del: upt.simps)
qed

lemma utf8_trans_range: "utf8_trans k c < 9 \<or> utf8_trans k c = 240 \<or> utf8_trans k c = 242"
  by (simp add: utf8_trans_def)

lemma utf8_no_do_again: "k < 9 \<Longrightarrow> utf8_entry k c \<noteq> kExitDoAgain"
  using utf8_trans_range [of k "unat c"] by (auto simp: utf8_entry_eq kExitDoAgain_def)

lemma utf8_fast_eq: "utf8acceptnonsurrogates_fast = map (\<lambda>c. if c < 128 then 0 else 1) [0..<256]"
  by code_simp

lemma and_c0: "(c :: byte) AND 0xC0 = 0x80 \<longleftrightarrow> cont (unat c)"
proof -
  have all: "\<forall>n \<in> set [0..<256]. ((of_nat n :: byte) AND 0xC0 = 0x80) = cont n" by code_simp
  have "unat c \<in> set [0..<256]" using unat_byte_less [of c] by simp
  from bspec [OF all this] show ?thesis by simp
qed

end
