(* ===== verification/Utf8.thy ===== *)
theory Utf8
  imports Readers Utf8Table
begin

text \<open>
  The UTF-8 check that the parser and the serializer of a proto3 string run:
  \<^verbatim>\<open>protobuf/stubs/structurally_valid.cc\<close>. The two scanners and their callers are
  transcribed; the specification is RFC 3629: a valid string is the concatenation of the
  encodings of Unicode scalar values.

  An address matters to the scanners only modulo 8 (\<open>addr\<close>: they read whole words from
  aligned addresses). A position \<^verbatim>\<open>src\<close> is its offset from \<^verbatim>\<open>isrc\<close>; \<open>Tbl\<close> is the number of
  the state block it points to.
\<close>

section \<open>The scanners\<close>

definition InStateZero :: "nat \<Rightarrow> bool" where
  "InStateZero Tbl \<longleftrightarrow> Tbl * 256 < 256"

text \<open>Four bytes at \<open>src\<close> as a little-endian \<^verbatim>\<open>uint32_t\<close>.\<close>

definition load32 :: "byte list \<Rightarrow> nat \<Rightarrow> u32" where
  "load32 str src = of_nat (le_val (take 4 (drop src str)))"

definition Tbl2 :: "byte list \<Rightarrow> nat \<Rightarrow> nat" where
  "Tbl2 str src = utf8acceptnonsurrogates_fast ! unat (str ! src)"

definition srclimit8 :: "byte list \<Rightarrow> nat" where
  "srclimit8 str = (if length str < 7 then 0 else length str - 7)"

text \<open>The loops of \<^verbatim>\<open>UTF8GenericScan\<close>; \<open>losub\<close> is \<^verbatim>\<open>0x20202020\<close> and \<open>hiadd\<close> is 0.\<close>

function GenericScan_align :: "nat \<Rightarrow> byte list \<Rightarrow> nat \<Rightarrow> nat" where
  "GenericScan_align addr str src =
     (if (addr + src) mod 8 \<noteq> 0 \<and> src < length str \<and> Tbl2 str src = 0
      then GenericScan_align addr str (src + 1) else src)"
  by pat_completeness auto
termination by (relation "measure (\<lambda>(addr, str, src). length str - src)") auto

function GenericScan_fast8 :: "byte list \<Rightarrow> nat \<Rightarrow> nat" where
  "GenericScan_fast8 str src0 =
     (if src0 < srclimit8 str then
        let s0123 = load32 str src0; s4567 = load32 str (src0 + 4); src = src0 + 8;
            temp = (s0123 - 0x20202020) OR (s0123 + 0) OR (s4567 - 0x20202020) OR (s4567 + 0)
        in (if temp AND 0x80808080 \<noteq> 0 then
              if (Tbl2 str (src - 8) OR Tbl2 str (src - 7)) OR (Tbl2 str (src - 6) OR Tbl2 str (src - 5)) \<noteq> 0
              then src - 8
              else if (Tbl2 str (src - 4) OR Tbl2 str (src - 3)) OR (Tbl2 str (src - 2) OR Tbl2 str (src - 1)) \<noteq> 0
              then src - 4
              else GenericScan_fast8 str src
            else GenericScan_fast8 str src)
      else src0)"
  by pat_completeness auto
termination by (relation "measure (\<lambda>(str, src). length str - src)") (auto simp: srclimit8_def split: if_splits)

function GenericScan_bytes :: "byte list \<Rightarrow> nat \<Rightarrow> nat \<Rightarrow> nat \<Rightarrow> nat \<times> nat \<times> nat" where
  "GenericScan_bytes str src Tbl e =
     (if src < length str then
        let c = str ! src; e = utf8_entry Tbl c; src = src + 1
        in (if kExitIllegalStructure \<le> e then (src, Tbl, e) else GenericScan_bytes str src e e)
      else (src, Tbl, e))"
  by pat_completeness auto
termination by (relation "measure (\<lambda>(str, src, _, _). length str - src)") auto

text \<open>\<^verbatim>\<open>do src--; while ((src > isrc) && ((src[0] & 0xc0) == 0x80))\<close>\<close>

function GenericScan_backup :: "byte list \<Rightarrow> nat \<Rightarrow> nat" where
  "GenericScan_backup str src0 =
     (let src = src0 - 1
      in (if 0 < src \<and> str ! src AND 0xC0 = 0x80 then GenericScan_backup str src else src))"
  by pat_completeness auto
termination by (relation "measure snd") auto

declare GenericScan_align.simps [simp del] GenericScan_fast8.simps [simp del]
  GenericScan_bytes.simps [simp del] GenericScan_backup.simps [simp del]

text \<open>
  The exit code and \<^verbatim>\<open>*bytes_consumed\<close>. No entry of the table is \<^verbatim>\<open>kExitDoAgain\<close>
  (lemma \<open>utf8_no_do_again\<close>), so the \<^verbatim>\<open>goto DoAgain\<close> has no counterpart here.
\<close>

definition GenericScan_exit :: "byte list \<Rightarrow> nat \<times> nat \<times> nat \<Rightarrow> nat \<times> nat" where
  "GenericScan_exit str = (\<lambda>(src, Tbl, e).
     if kExitIllegalStructure \<le> e then
       let src = src - 1
       in (e, if \<not> InStateZero Tbl then GenericScan_backup str src else src)
     else if \<not> InStateZero Tbl then (kExitIllegalStructure, GenericScan_backup str src)
     else (kExitOK, src))"

definition UTF8GenericScan :: "nat \<Rightarrow> byte list \<Rightarrow> nat \<times> nat" where
  "UTF8GenericScan addr str =
     (if length str = 0 then (kExitOK, 0)
      else let src = GenericScan_align addr str 0;
               src = (if (addr + src) mod 8 = 0 then GenericScan_fast8 str src else src)
           in GenericScan_exit str (GenericScan_bytes str src 0 0))"

text \<open>The loops of \<^verbatim>\<open>UTF8GenericScanFastAscii\<close>.\<close>

function FastAscii_align :: "nat \<Rightarrow> byte list \<Rightarrow> nat \<Rightarrow> nat" where
  "FastAscii_align addr str src =
     (if (addr + src) mod 8 \<noteq> 0 \<and> src < length str \<and> unat (str ! src) < 0x80
      then FastAscii_align addr str (src + 1) else src)"
  by pat_completeness auto
termination by (relation "measure (\<lambda>(addr, str, src). length str - src)") auto

function FastAscii_fast8 :: "byte list \<Rightarrow> nat \<Rightarrow> nat" where
  "FastAscii_fast8 str src =
     (if src < srclimit8 str \<and> (load32 str src OR load32 str (src + 4)) AND 0x80808080 = 0
      then FastAscii_fast8 str (src + 8) else src)"
  by pat_completeness auto
termination by (relation "measure (\<lambda>(str, src). length str - src)") (auto simp: srclimit8_def split: if_splits)

function FastAscii_bytes :: "byte list \<Rightarrow> nat \<Rightarrow> nat" where
  "FastAscii_bytes str src =
     (if src < length str \<and> unat (str ! src) < 0x80 then FastAscii_bytes str (src + 1) else src)"
  by pat_completeness auto
termination by (relation "measure (\<lambda>(str, src). length str - src)") auto

declare FastAscii_align.simps [simp del] FastAscii_fast8.simps [simp del] FastAscii_bytes.simps [simp del]

definition UTF8GenericScanFastAscii :: "nat \<Rightarrow> byte list \<Rightarrow> nat \<times> nat" where
  "UTF8GenericScanFastAscii addr str =
     (if length str = 0 then (kExitOK, 0)
      else let src = FastAscii_align addr str 0;
               src = (if (addr + src) mod 8 = 0 then FastAscii_fast8 str src else src);
               n = FastAscii_bytes str src;
               (exit_reason, rest_consumed) = UTF8GenericScan (addr + n) (drop n str)
           in (exit_reason, n + rest_consumed))"

text \<open>\<^verbatim>\<open>module_initialized_\<close> is set by a static initialiser.\<close>

definition IsStructurallyValidUTF8 :: "bool \<Rightarrow> nat \<Rightarrow> byte list \<Rightarrow> bool" where
  "IsStructurallyValidUTF8 module_initialized addr buf =
     (if \<not> module_initialized then True
      else snd (UTF8GenericScanFastAscii addr buf) = length buf)"

definition UTF8SpnStructurallyValid :: "bool \<Rightarrow> nat \<Rightarrow> byte list \<Rightarrow> nat" where
  "UTF8SpnStructurallyValid module_initialized addr str =
     (if \<not> module_initialized then length str else snd (UTF8GenericScanFastAscii addr str))"

text \<open>\<^verbatim>\<open>UTF8CoerceToStructurallyValid\<close>: the bytes at the returned pointer.\<close>

function Coerce_loop :: "bool \<Rightarrow> nat \<Rightarrow> byte \<Rightarrow> byte list \<Rightarrow> byte list" where
  "Coerce_loop mi addr replace_char src =
     (if src = [] then []
      else let str2 = drop 1 src; n = UTF8SpnStructurallyValid mi (addr + 1) str2
           in replace_char # take n str2 @ Coerce_loop mi (addr + 1 + n) replace_char (drop n str2))"
  by pat_completeness auto
termination by (relation "measure (\<lambda>(mi, addr, r, src). length src)") auto

declare Coerce_loop.simps [simp del]

definition UTF8CoerceToStructurallyValid :: "bool \<Rightarrow> nat \<Rightarrow> byte list \<Rightarrow> byte \<Rightarrow> byte list" where
  "UTF8CoerceToStructurallyValid mi addr src_str replace_char =
     (let n = UTF8SpnStructurallyValid mi addr src_str
      in (if n = length src_str then src_str
          else take n src_str @ Coerce_loop mi (addr + n) replace_char (drop n src_str)))"

lemma Tbl2_eq: "Tbl2 str src = 0 \<longleftrightarrow> unat (str ! src) < 128"
  using unat_byte_less [of "str ! src"] by (simp add: Tbl2_def utf8_fast_eq del: upt.simps)

text \<open>
  \<open>utf8_tail k bs\<close>: the number of bytes that lead the automaton from state \<open>k\<close> back to
  state 0; \<open>utf8_first\<close>: the length of the character at the front, 0 when there is none.
\<close>

fun utf8_tail :: "nat \<Rightarrow> byte list \<Rightarrow> nat option" where
  "utf8_tail k [] = (if k = 0 then Some 0 else None)"
| "utf8_tail k (c # cs) =
     (if k = 0 then Some 0
      else let e = utf8_trans k (unat c)
           in (if 240 \<le> e then None else map_option Suc (utf8_tail e cs)))"

definition utf8_first :: "byte list \<Rightarrow> nat" where
  "utf8_first bs = (case bs of [] \<Rightarrow> 0 | c # cs \<Rightarrow>
     (let e = utf8_trans 0 (unat c)
      in (if 240 \<le> e then 0 else case utf8_tail e cs of None \<Rightarrow> 0 | Some n \<Rightarrow> Suc n)))"

function utf8_span :: "byte list \<Rightarrow> nat" where
  "utf8_span bs = (let n = utf8_first bs in if n = 0 then 0 else n + utf8_span (drop n bs))"
  by pat_completeness auto
termination
proof (relation "measure length")
  fix bs n assume "n = utf8_first bs" "n \<noteq> 0"
  then have "bs \<noteq> []" by (auto simp: utf8_first_def)
  with \<open>n \<noteq> 0\<close> show "(drop n bs, bs) \<in> measure length" by simp
qed simp

declare utf8_span.simps [simp del]

lemma utf8_tail_le: "utf8_tail k bs = Some n \<Longrightarrow> n \<le> length bs"
  by (induction k bs arbitrary: n rule: utf8_tail.induct) (auto simp: Let_def split: if_splits)

lemma utf8_first_le: "utf8_first bs \<le> length bs"
  using utf8_tail_le by (auto simp: utf8_first_def Let_def split: list.splits option.splits)

lemma utf8_span_le: "utf8_span bs \<le> length bs"
proof (induction bs rule: utf8_span.induct)
  case (1 bs)
  then show ?case using utf8_first_le [of bs] by (subst utf8_span.simps) (auto simp: Let_def)
qed

lemma backup_spec:
  "j < src \<Longrightarrow> (\<forall>i. j < i \<and> i < src \<longrightarrow> cont (unat (str ! i))) \<Longrightarrow> j = 0 \<or> \<not> cont (unat (str ! j))
     \<Longrightarrow> GenericScan_backup str src = j"
proof (induction str src rule: GenericScan_backup.induct)
  case (1 str src)
  show ?case
  proof (cases "src - 1 = j")
    case True
    then show ?thesis using 1 by (subst GenericScan_backup.simps) (auto simp: Let_def and_c0)
  next
    case False
    then have c: "j < src - 1" "cont (unat (str ! (src - 1)))" using 1 by auto
    have "\<forall>i. j < i \<and> i < src - 1 \<longrightarrow> cont (unat (str ! i))"
    proof (intro allI impI)
      fix i assume "j < i \<and> i < src - 1"
      then have "j < i \<and> i < src" by (auto intro: less_imp_diff_less)
      with "1.prems"(2) show "cont (unat (str ! i))" by blast
    qed
    then have "GenericScan_backup str (src - 1) = j"
      using c 1 by (auto simp: and_c0)
    moreover have "0 < src - 1" using c(1) by linarith
    ultimately show ?thesis using c by (subst GenericScan_backup.simps) (simp add: Let_def and_c0)
  qed
qed

lemma trans_cont: "k \<noteq> 0 \<Longrightarrow> utf8_trans k c < 240 \<Longrightarrow> cont c"
  by (auto simp: utf8_trans_def split: if_splits)

lemma trans_lead: "utf8_trans 0 c \<noteq> 0 \<Longrightarrow> utf8_trans 0 c < 240 \<Longrightarrow> \<not> cont c"
  by (auto simp: utf8_trans_def cont_def split: if_splits)

lemma trans_lt: "utf8_trans k c < 240 \<Longrightarrow> utf8_trans k c < 9"
  using utf8_trans_range [of k c] by auto

text \<open>In the middle of the character at \<open>j\<close> the scanner finishes it or backs up to \<open>j\<close>.\<close>

lemma scan_inside:
  "k < 9 \<Longrightarrow> e < 240 \<Longrightarrow> j < src \<Longrightarrow> src \<le> length str \<Longrightarrow> \<not> cont (unat (str ! j)) \<Longrightarrow>
   (\<forall>i. j < i \<and> i < src \<longrightarrow> cont (unat (str ! i))) \<Longrightarrow> k \<noteq> 0 \<Longrightarrow>
   snd (GenericScan_exit str (GenericScan_bytes str src k e)) =
     (case utf8_tail k (drop src str) of None \<Rightarrow> j
      | Some n \<Rightarrow> snd (GenericScan_exit str (GenericScan_bytes str (src + n) 0 0)))"
proof (induction "length str - src" arbitrary: src k e)
  case 0
  then have "src = length str" by simp
  with 0 backup_spec [of j src str] show ?case
    by (subst GenericScan_bytes.simps)
      (simp add: GenericScan_exit_def kExitIllegalStructure_def InStateZero_def)
next
  case (Suc m)
  then have lt: "src < length str" by simp
  let ?c = "str ! src"
  let ?e = "utf8_trans k (unat ?c)"
  have dr: "drop src str = ?c # drop (Suc src) str" using lt by (simp add: Cons_nth_drop_Suc)
  have ent: "utf8_entry k ?c = ?e" using Suc.prems by (simp add: utf8_entry_eq)
  show ?case
  proof (cases "240 \<le> ?e")
    case True
    then have "GenericScan_bytes str src k e = (Suc src, k, ?e)"
      using lt ent by (subst GenericScan_bytes.simps) (simp add: Let_def kExitIllegalStructure_def)
    then show ?thesis
      using True Suc.prems dr backup_spec [of j src str]
      by (simp add: GenericScan_exit_def kExitIllegalStructure_def InStateZero_def)
  next
    case False
    then have e9: "?e < 9" and c: "cont (unat ?c)"
      using trans_lt [of k] trans_cont [OF \<open>k \<noteq> 0\<close>] by simp_all
    have st: "GenericScan_bytes str src k e = GenericScan_bytes str (Suc src) ?e ?e"
      using lt ent False by (subst GenericScan_bytes.simps) (simp add: Let_def kExitIllegalStructure_def)
    have all: "\<forall>i. j < i \<and> i < Suc src \<longrightarrow> cont (unat (str ! i))"
      using Suc.prems c by (auto simp: less_Suc_eq)
    show ?thesis
    proof (cases "?e = 0")
      case True
      have "GenericScan_bytes str (Suc src) 0 0 = GenericScan_bytes str (Suc src) 0 0" ..
      with True st dr Suc.prems show ?thesis by (cases "drop (Suc src) str") simp_all
    next
      case e0: False
      have "snd (GenericScan_exit str (GenericScan_bytes str (Suc src) ?e ?e)) =
        (case utf8_tail ?e (drop (Suc src) str) of None \<Rightarrow> j
         | Some n \<Rightarrow> snd (GenericScan_exit str (GenericScan_bytes str (Suc src + n) 0 0)))"
        using Suc.prems Suc.hyps lt e9 e0 all by (intro Suc.hyps(1)) auto
      then show ?thesis using st dr False Suc.prems by (simp add: Let_def split: option.split)
    qed
  qed
qed

lemma scan_span:
  "src \<le> length str \<Longrightarrow>
     snd (GenericScan_exit str (GenericScan_bytes str src 0 0)) = src + utf8_span (drop src str)"
proof (induction "length str - src" arbitrary: src rule: less_induct)
  case less
  show ?case
  proof (cases "src < length str")
    case False
    then have "drop src str = []" "src = length str" using less.prems by simp_all
    then show ?thesis
      by (subst GenericScan_bytes.simps, subst utf8_span.simps)
        (simp add: GenericScan_exit_def kExitIllegalStructure_def InStateZero_def utf8_first_def)
  next
    case lt: True
    let ?c = "str ! src"
    let ?e = "utf8_trans 0 (unat ?c)"
    have dr: "drop src str = ?c # drop (Suc src) str" using lt by (simp add: Cons_nth_drop_Suc)
    have ent: "utf8_entry 0 ?c = ?e" by (simp add: utf8_entry_eq)
    show ?thesis
    proof (cases "240 \<le> ?e")
      case True
      then have "GenericScan_bytes str src 0 0 = (Suc src, 0, ?e)"
        using lt ent by (subst GenericScan_bytes.simps) (simp add: Let_def kExitIllegalStructure_def)
      moreover have "utf8_first (drop src str) = 0" using True dr by (simp add: utf8_first_def)
      ultimately show ?thesis
        using True by (subst utf8_span.simps)
          (simp add: GenericScan_exit_def kExitIllegalStructure_def InStateZero_def)
    next
      case False
      then have e9: "?e < 9" using trans_lt [of 0] by simp
      have st: "GenericScan_bytes str src 0 0 = GenericScan_bytes str (Suc src) ?e ?e"
        using lt ent False by (subst GenericScan_bytes.simps) (simp add: Let_def kExitIllegalStructure_def)
      have go: "snd (GenericScan_exit str (GenericScan_bytes str (Suc src) ?e ?e)) =
        (case utf8_tail ?e (drop (Suc src) str) of None \<Rightarrow> src
         | Some n \<Rightarrow> snd (GenericScan_exit str (GenericScan_bytes str (Suc src + n) 0 0)))"
      proof (cases "?e = 0")
        case True
        then show ?thesis by (cases "drop (Suc src) str") simp_all
      next
        case e0: False
        have none: "\<forall>i. src < i \<and> i < Suc src \<longrightarrow> cont (unat (str ! i))"
          by auto
        show ?thesis
          using False lt trans_lead [of "unat ?c"] e0
          by (intro scan_inside [OF e9 _ _ _ _ none]) simp_all
      qed
      show ?thesis
      proof (cases "utf8_tail ?e (drop (Suc src) str)")
        case None
        then have "utf8_first (drop src str) = 0" using dr False by (simp add: utf8_first_def Let_def)
        with None go st show ?thesis by (subst utf8_span.simps) simp
      next
        case (Some n)
        then have f: "utf8_first (drop src str) = Suc n"
          using dr False by (simp add: utf8_first_def Let_def)
        have le: "Suc src + n \<le> length str" using utf8_tail_le [OF Some] lt by simp
        have "snd (GenericScan_exit str (GenericScan_bytes str (Suc src + n) 0 0))
            = (Suc src + n) + utf8_span (drop (Suc src + n) str)"
          by (rule less.hyps [OF _ le]) (use lt in simp)
        moreover have "utf8_span (drop src str) = Suc n + utf8_span (drop (Suc src + n) str)"
          using f by (subst utf8_span.simps) (simp add: Let_def add.commute)
        ultimately show ?thesis using Some go st by simp
      qed
    qed
  qed
qed

section \<open>The fast paths only skip ASCII\<close>

definition ascii_between :: "byte list \<Rightarrow> nat \<Rightarrow> nat \<Rightarrow> bool" where
  "ascii_between str i j \<longleftrightarrow> i \<le> j \<and> j \<le> length str \<and> (\<forall>k. i \<le> k \<and> k < j \<longrightarrow> unat (str ! k) < 128)"

lemma ascii_refl: "i \<le> length str \<Longrightarrow> ascii_between str i i"
  by (simp add: ascii_between_def)

lemma ascii_trans: "ascii_between str i j \<Longrightarrow> ascii_between str j k \<Longrightarrow> ascii_between str i k"
  unfolding ascii_between_def by (metis le_trans not_le_imp_less)

lemma ascii_step: "i < length str \<Longrightarrow> unat (str ! i) < 128 \<Longrightarrow> ascii_between str i (Suc i)"
  by (auto simp: ascii_between_def less_Suc_eq_le)

lemma ascii_four:
  assumes "i + 4 \<le> length str" "unat (str ! i) < 128" "unat (str ! (i + 1)) < 128"
    "unat (str ! (i + 2)) < 128" "unat (str ! (i + 3)) < 128"
  shows "ascii_between str i (i + 4)"
  unfolding ascii_between_def
proof (intro conjI allI impI)
  fix k assume "i \<le> k \<and> k < i + 4"
  then have "k = i \<or> k = i + 1 \<or> k = i + 2 \<or> k = i + 3" by linarith
  then show "unat (str ! k) < 128" using assms by blast
qed (use assms in simp_all)

lemma ascii_span:
  "ascii_between str i j \<Longrightarrow> utf8_span (drop i str) = (j - i) + utf8_span (drop j str)"
proof (induction "j - i" arbitrary: i)
  case 0
  then show ?case by (simp add: ascii_between_def)
next
  case (Suc m)
  then have i: "i < length str" "unat (str ! i) < 128" "ascii_between str (Suc i) j"
    by (auto simp: ascii_between_def)
  have "drop i str = str ! i # drop (Suc i) str" using i by (simp add: Cons_nth_drop_Suc)
  then have "utf8_first (drop i str) = 1"
    using i by (cases "drop (Suc i) str") (simp_all add: utf8_first_def utf8_trans_def)
  then have "utf8_span (drop i str) = Suc (utf8_span (drop (Suc i) str))"
    by (subst utf8_span.simps) (simp add: Let_def)
  also have "utf8_span (drop (Suc i) str) = (j - Suc i) + utf8_span (drop j str)"
    using Suc i by (intro Suc.hyps(1)) auto
  finally show ?case using Suc.hyps(2) by simp
qed

text \<open>The word test: no byte of the two words has its high bit set.\<close>

lemma bit_mask80: "n < 32 \<Longrightarrow> bit (0x80808080 :: u32) n \<longleftrightarrow> n \<in> {7, 15, 23, 31}"
proof -
  have "\<forall>n \<in> set [0..<32]. bit (0x80808080 :: u32) n = (n \<in> {7, 15, 23, 31})" by code_simp
  then show "n < 32 \<Longrightarrow> ?thesis" by auto
qed

lemma even_high_bit: "x < 256 \<Longrightarrow> even ((x + 256 * y) div 128) \<longleftrightarrow> x < (128 :: nat)"
proof -
  assume x: "x < 256"
  have "(x + 256 * y) div 128 = x div 128 + 2 * y" by (simp add: div_mult_self1 [of 128 x "2 * y", simplified])
  then have "even ((x + 256 * y) div 128) \<longleftrightarrow> even (x div 128)" by simp
  moreover have "x div 128 < 2" using x by simp
  moreover have "x div 128 = 0 \<longleftrightarrow> x < 128" by (simp add: div_eq_0_iff)
  ultimately show ?thesis by (metis One_nat_def dvd_0_right less_2_cases odd_one)
qed

lemma load32_test:
  assumes "i + 4 \<le> length str" and "load32 str i AND 0x80808080 = 0"
  shows "ascii_between str i (i + 4)"
proof -
  define a b c d where "a = unat (str ! i)" and "b = unat (str ! (i + 1))"
    and "c = unat (str ! (i + 2))" and "d = unat (str ! (i + 3))"
  have "take 4 (drop i str) = [str ! i, str ! (i + 1), str ! (i + 2), str ! (i + 3)]"
    using assms(1) by (intro nth_equalityI) (auto simp: nth_Cons less_Suc_eq numeral_eq_Suc split: nat.splits)
  then have l: "le_val (take 4 (drop i str)) = a + 256 * (b + 256 * (c + 256 * d))"
    by (simp add: a_def b_def c_def d_def)
  have lt: "a < 256" "b < 256" "c < 256" "d < 256"
    by (simp_all add: a_def b_def c_def d_def unat_byte_less)
  define w2 w1 w where "w2 = c + 256 * d" and "w1 = b + 256 * w2" and "w = a + 256 * w1"
  have nb: "\<not> bit (load32 str i) n" if "n \<in> {7, 15, 23, 31}" for n
  proof
    assume "bit (load32 str i) n"
    moreover have "n < 32" using that by auto
    ultimately have "bit (load32 str i AND 0x80808080) n"
      using that by (simp only: bit_and_iff bit_mask80)
    then show False by (simp only: assms(2) bit_0_eq bot_apply bot_bool_def)
  qed
  have w: "bit (load32 str i) n \<longleftrightarrow> odd (w div 2 ^ n)" if "n < 32" for n
    using that bit_iff_odd [of w n]
    by (simp only: load32_def l w_def [symmetric] w1_def [symmetric] w2_def [symmetric] bit_of_nat_iff possible_bit_word) simp
  have "even (w div 128)" "even (w div 32768)" "even (w div 8388608)" "even (w div 2147483648)"
    using nb [of 7] nb [of 15] nb [of 23] nb [of 31] w [of 7] w [of 15] w [of 23] w [of 31] by simp_all
  moreover have "w div 32768 = w1 div 128" "w div 8388608 = w2 div 128" "w div 2147483648 = d div 128"
  proof -
    have d: "w div 256 = w1" "w1 div 256 = w2" "w2 div 256 = d"
      using lt by (simp_all add: w_def w1_def w2_def)
    have "w div 32768 = w div 256 div 128" "w div 8388608 = w div 256 div 256 div 128"
      "w div 2147483648 = w div 256 div 256 div 256 div 128"
      by (simp_all only: div_mult2_eq [symmetric]) simp_all
    then show "w div 32768 = w1 div 128" "w div 8388608 = w2 div 128" "w div 2147483648 = d div 128"
      by (simp_all only: d)
  qed
  ultimately have "a < 128" "b < 128" "c < 128" "d < 128"
    using even_high_bit [OF lt(1), of w1] even_high_bit [OF lt(2), of w2]
      even_high_bit [OF lt(3), of d] even_high_bit [OF lt(4), of 0]
    by (simp_all add: w_def [symmetric] w1_def [symmetric] w2_def [symmetric])
  then show ?thesis using assms(1) by (intro ascii_four) (simp_all add: a_def b_def c_def d_def)
qed

lemma align_ascii: "src \<le> length str \<Longrightarrow> ascii_between str src (GenericScan_align addr str src)"
proof (induction addr str src rule: GenericScan_align.induct)
  case (1 addr str src)
  show ?case
  proof (cases "(addr + src) mod 8 \<noteq> 0 \<and> src < length str \<and> Tbl2 str src = 0")
    case True
    then have "ascii_between str src (Suc src)" by (intro ascii_step) (simp_all add: Tbl2_eq)
    with 1 True show ?thesis by (subst GenericScan_align.simps) (auto intro: ascii_trans)
  next
    case False
    then have "GenericScan_align addr str src = src" by (subst GenericScan_align.simps) auto
    then show ?thesis using 1(2) by (simp add: ascii_refl)
  qed
qed

lemma or_and_zero: "(a OR b) AND m = 0 \<Longrightarrow> (a :: 'a::len word) AND m = 0 \<and> b AND m = 0"
  by (metis bit.conj_disj_distrib2 or_eq_0_iff)

lemma fast8_ascii: "src \<le> length str \<Longrightarrow> ascii_between str src (GenericScan_fast8 str src)"
proof (induction str src rule: GenericScan_fast8.induct)
  case (1 str src)
  show ?case
  proof (cases "src < srclimit8 str")
    case False
    then show ?thesis using 1(3) by (subst GenericScan_fast8.simps) (simp add: ascii_refl)
  next
    case True
    then have len: "src + 8 \<le> length str" by (simp add: srclimit8_def split: if_splits)
    let ?temp = "(load32 str src - 0x20202020) OR (load32 str src + 0)
      OR (load32 str (src + 4) - 0x20202020) OR (load32 str (src + 4) + 0)"
    have four: "(a OR b) OR (c OR d) = (0 :: nat) \<longleftrightarrow> a = 0 \<and> b = 0 \<and> c = 0 \<and> d = 0" for a b c d
      by (simp add: or_eq_0_iff)
    have t0: "ascii_between str src (src + 8)" if "?temp AND 0x80808080 = 0"
    proof -
      have "load32 str src AND 0x80808080 = 0" "load32 str (src + 4) AND 0x80808080 = 0"
        using that by (auto dest!: or_and_zero)
      then have "ascii_between str src (src + 4)" "ascii_between str (src + 4) (src + 4 + 4)"
        using len by - (rule load32_test, simp, assumption)+
      from ascii_trans [OF this] show ?thesis by (simp add: add.assoc)
    qed
    have lo: "ascii_between str src (src + 4)"
      if "(Tbl2 str src OR Tbl2 str (src + 1)) OR (Tbl2 str (src + 2) OR Tbl2 str (src + 3)) = 0"
      using that len by (auto simp: four Tbl2_eq intro!: ascii_four)
    have hi: "ascii_between str (src + 4) (src + 8)"
      if "(Tbl2 str (src + 4) OR Tbl2 str (src + 5)) OR (Tbl2 str (src + 6) OR Tbl2 str (src + 7)) = 0"
    proof -
      have e: "src + 4 + 1 = src + 5" "src + 4 + 2 = src + 6" "src + 4 + 3 = src + 7"
        "src + 4 + 4 = src + 8" by simp_all
      show ?thesis
        using that len ascii_four [of "src + 4" str] unfolding e by (simp add: four Tbl2_eq)
    qed
    have go: "ascii_between str src (GenericScan_fast8 str (src + 8))" if "ascii_between str src (src + 8)"
      and "ascii_between str (src + 8) (GenericScan_fast8 str (src + 8))"
      using that by (rule ascii_trans)
    have e: "src + 8 - 8 = src" "src + 8 - 7 = src + 1" "src + 8 - 6 = src + 2" "src + 8 - 5 = src + 3"
      "src + 8 - 4 = src + 4" "src + 8 - 3 = src + 5" "src + 8 - 2 = src + 6" "src + 8 - 1 = src + 7"
      by simp_all
    show ?thesis
    proof (cases "?temp AND 0x80808080 = 0")
      case t: True
      then have "GenericScan_fast8 str src = GenericScan_fast8 str (src + 8)"
        using True by (subst GenericScan_fast8.simps) (simp only: Let_def if_True simp_thms not_not, simp)
      then show ?thesis using 1(2) [OF True refl refl refl refl] t len go t0 by simp
    next
      case t: False
      let ?A = "(Tbl2 str src OR Tbl2 str (src + 1)) OR (Tbl2 str (src + 2) OR Tbl2 str (src + 3))"
      let ?B = "(Tbl2 str (src + 4) OR Tbl2 str (src + 5)) OR (Tbl2 str (src + 6) OR Tbl2 str (src + 7))"
      have "GenericScan_fast8 str src =
          (if ?A \<noteq> 0 then src else if ?B \<noteq> 0 then src + 4 else GenericScan_fast8 str (src + 8))"
        using True t by (subst GenericScan_fast8.simps) (simp only: Let_def e if_True simp_thms not_False_eq_True)
      moreover have "?A = 0 \<Longrightarrow> ?B = 0 \<Longrightarrow> ascii_between str (src + 8) (GenericScan_fast8 str (src + 8))"
        using 1(1) [OF True refl refl refl refl] t len by (simp only: e) simp
      moreover have "?A = 0 \<Longrightarrow> ?B = 0 \<Longrightarrow> ascii_between str src (src + 8)"
        using lo hi ascii_trans by blast
      ultimately show ?thesis using lo go len ascii_refl [of src str] by auto
    qed
  qed
qed

lemma FastAscii_align_ascii: "src \<le> length str \<Longrightarrow> ascii_between str src (FastAscii_align addr str src)"
proof (induction addr str src rule: FastAscii_align.induct)
  case (1 addr str src)
  show ?case
  proof (cases "(addr + src) mod 8 \<noteq> 0 \<and> src < length str \<and> unat (str ! src) < 0x80")
    case True
    then have "ascii_between str src (Suc src)" by (intro ascii_step) simp_all
    with 1 True show ?thesis by (subst FastAscii_align.simps) (auto intro: ascii_trans)
  next
    case False
    then have "FastAscii_align addr str src = src" by (subst FastAscii_align.simps) auto
    then show ?thesis using 1(2) by (simp add: ascii_refl)
  qed
qed

lemma FastAscii_fast8_ascii: "src \<le> length str \<Longrightarrow> ascii_between str src (FastAscii_fast8 str src)"
proof (induction str src rule: FastAscii_fast8.induct)
  case (1 str src)
  show ?case
  proof (cases "src < srclimit8 str \<and> (load32 str src OR load32 str (src + 4)) AND 0x80808080 = 0")
    case True
    then have len: "src + 8 \<le> length str" by (auto simp: srclimit8_def split: if_splits)
    have "load32 str src AND 0x80808080 = 0" "load32 str (src + 4) AND 0x80808080 = 0"
      using True by (auto dest!: or_and_zero)
    then have "ascii_between str src (src + 4)" "ascii_between str (src + 4) (src + 4 + 4)"
      using len by - (rule load32_test, simp, assumption)+
    from ascii_trans [OF this] have a: "ascii_between str src (src + 8)" by (simp add: add.assoc)
    have "FastAscii_fast8 str src = FastAscii_fast8 str (src + 8)"
      using True by (subst FastAscii_fast8.simps) simp
    with a 1(1) [OF True] len show ?thesis by (auto intro: ascii_trans)
  next
    case False
    then have "FastAscii_fast8 str src = src" by (subst FastAscii_fast8.simps) auto
    then show ?thesis using 1(2) by (simp add: ascii_refl)
  qed
qed

lemma FastAscii_bytes_ascii: "src \<le> length str \<Longrightarrow> ascii_between str src (FastAscii_bytes str src)"
proof (induction str src rule: FastAscii_bytes.induct)
  case (1 str src)
  show ?case
  proof (cases "src < length str \<and> unat (str ! src) < 0x80")
    case True
    then have "ascii_between str src (Suc src)" by (intro ascii_step) simp_all
    with 1 True show ?thesis by (subst FastAscii_bytes.simps) (auto intro: ascii_trans)
  next
    case False
    then have "FastAscii_bytes str src = src" by (subst FastAscii_bytes.simps) auto
    then show ?thesis using 1(2) by (simp add: ascii_refl)
  qed
qed

section \<open>The scanners compute the longest valid prefix\<close>

lemma utf8_span_Nil [simp]: "utf8_span [] = 0"
  by (subst utf8_span.simps) (simp add: utf8_first_def)

lemma UTF8GenericScan_span: "snd (UTF8GenericScan addr str) = utf8_span str"
proof (cases "str = []")
  case False
  define i where "i = GenericScan_align addr str 0"
  define j where "j = (if (addr + i) mod 8 = 0 then GenericScan_fast8 str i else i)"
  have i: "ascii_between str 0 i" unfolding i_def by (rule align_ascii) simp
  then have "i \<le> length str" by (simp add: ascii_between_def)
  then have "ascii_between str i j" unfolding j_def by (simp add: fast8_ascii ascii_refl)
  with i have a: "ascii_between str 0 j" by (rule ascii_trans)
  have "snd (UTF8GenericScan addr str) = j + utf8_span (drop j str)"
    using False a by (simp add: UTF8GenericScan_def i_def [symmetric] Let_def j_def [symmetric]
        scan_span ascii_between_def)
  then show ?thesis using ascii_span [OF a] by simp
qed (simp add: UTF8GenericScan_def)

lemma FastAscii_span: "snd (UTF8GenericScanFastAscii addr str) = utf8_span str"
proof (cases "str = []")
  case False
  define i where "i = FastAscii_align addr str 0"
  define j where "j = (if (addr + i) mod 8 = 0 then FastAscii_fast8 str i else i)"
  define n where "n = FastAscii_bytes str j"
  have i: "ascii_between str 0 i" unfolding i_def by (rule FastAscii_align_ascii) simp
  then have "i \<le> length str" by (simp add: ascii_between_def)
  then have "ascii_between str i j" unfolding j_def by (simp add: FastAscii_fast8_ascii ascii_refl)
  with i have a: "ascii_between str 0 j" by (rule ascii_trans)
  then have "ascii_between str j n"
    unfolding n_def by (intro FastAscii_bytes_ascii) (simp add: ascii_between_def)
  with a have b: "ascii_between str 0 n" by (rule ascii_trans)
  have "snd (UTF8GenericScanFastAscii addr str) = n + utf8_span (drop n str)"
    using False by (simp add: UTF8GenericScanFastAscii_def i_def [symmetric] Let_def j_def [symmetric]
        n_def [symmetric] UTF8GenericScan_span split: prod.split)
      (metis UTF8GenericScan_span snd_conv)
  then show ?thesis using ascii_span [OF b] by simp
qed (simp add: UTF8GenericScanFastAscii_def)

section \<open>RFC 3629\<close>

definition scalar_value :: "nat \<Rightarrow> bool" where
  "scalar_value cp \<longleftrightarrow> cp < 0x110000 \<and> \<not> (0xD800 \<le> cp \<and> cp \<le> 0xDFFF)"

definition utf8_encode :: "nat \<Rightarrow> byte list" where
  "utf8_encode cp = List.map of_nat
     (if cp < 0x80 then [cp]
      else if cp < 0x800 then [0xC0 + cp div 64, 0x80 + cp mod 64]
      else if cp < 0x10000 then [0xE0 + cp div 4096, 0x80 + cp div 64 mod 64, 0x80 + cp mod 64]
      else [0xF0 + cp div 262144, 0x80 + cp div 4096 mod 64, 0x80 + cp div 64 mod 64, 0x80 + cp mod 64])"

definition valid_utf8 :: "byte list \<Rightarrow> bool" where
  "valid_utf8 bs \<longleftrightarrow> (\<exists>cps. list_all scalar_value cps \<and> bs = concat (map utf8_encode cps))"

lemma unat_small_byte: "n < 256 \<Longrightarrow> unat (of_nat n :: byte) = n"
  by (simp add: unsigned_of_nat take_bit_nat_eq_self)

lemma cp_split:
  "(cp :: nat) = 64 * (cp div 64) + cp mod 64"
  "cp div 64 = 64 * (cp div 4096) + cp div 64 mod 64"
  "cp div 4096 = 64 * (cp div 262144) + cp div 4096 mod 64"
proof -
  have "cp div 4096 = cp div 64 div 64" "cp div 262144 = cp div 4096 div 64"
    by (simp_all only: div_mult2_eq [symmetric]) simp_all
  then show "cp = 64 * (cp div 64) + cp mod 64" "cp div 64 = 64 * (cp div 4096) + cp div 64 mod 64"
    "cp div 4096 = 64 * (cp div 262144) + cp div 4096 mod 64"
    by (metis mult_div_mod_eq)+
qed

lemma tail_step:
  "k \<noteq> 0 \<Longrightarrow> n < 256 \<Longrightarrow> utf8_trans k n < 240 \<Longrightarrow>
     utf8_tail k (of_nat n # cs) = map_option Suc (utf8_tail (utf8_trans k n) cs)"
  by (simp add: Let_def unat_small_byte)

lemma first_step:
  "n < 256 \<Longrightarrow> utf8_trans 0 n < 240 \<Longrightarrow> utf8_tail (utf8_trans 0 n) cs = Some m \<Longrightarrow>
     utf8_first (of_nat n # cs) = Suc m"
  by (simp add: utf8_first_def Let_def unat_small_byte)

lemma tail_0: "utf8_tail 0 bs = Some 0"
  by (cases bs) simp_all

lemma tail_1: "x < 64 \<Longrightarrow> utf8_tail 1 (of_nat (128 + x) # cs) = Some 1"
  by (subst tail_step) (simp_all add: utf8_trans_def cont_def tail_0 del: of_nat_add)

lemma tail_3: "x < 64 \<Longrightarrow> y < 64 \<Longrightarrow> utf8_tail 3 (of_nat (128 + x) # of_nat (128 + y) # cs) = Some 2"
  using tail_1 [of y cs]
  by (subst tail_step) (simp_all add: utf8_trans_def cont_def del: of_nat_add)

lemma utf8_first_encode:
  assumes "scalar_value cp"
  shows "utf8_first (utf8_encode cp @ rest) = length (utf8_encode cp)"
proof -
  define x y z where "x = cp mod 64" and "y = cp div 64 mod 64" and "z = cp div 4096 mod 64"
  have lt: "x < 64" "y < 64" "z < 64" by (simp_all add: x_def y_def z_def)
  note split = cp_split [of cp, folded x_def y_def z_def]
  consider "cp < 0x80" | "0x80 \<le> cp" "cp < 0x800" | "0x800 \<le> cp" "cp < 0x10000" | "0x10000 \<le> cp" "cp < 0x110000"
    using assms by (fastforce simp: scalar_value_def)
  then show ?thesis
  proof cases
    case 1
    then show ?thesis by (cases rest)
      (simp_all add: utf8_encode_def utf8_first_def utf8_trans_def unat_small_byte)
  next
    case 2
    define q where "q = cp div 64"
    have q: "2 \<le> q" "q < 32" using 2 lt split by (simp_all add: q_def)
    have e: "utf8_encode cp = [of_nat (0xC0 + q), of_nat (128 + x)]"
      using 2 by (simp add: utf8_encode_def x_def q_def del: of_nat_add)
    have "utf8_trans 0 (0xC0 + q) = 1" using q by (simp add: utf8_trans_def)
    then show ?thesis
      unfolding e using q tail_1 [OF lt(1), of rest] by (simp add: first_step del: of_nat_add)
  next
    case 3
    define q where "q = cp div 4096"
    have q: "q < 16" "q = 0 \<Longrightarrow> 32 \<le> y" "q = 13 \<Longrightarrow> y < 32"
      using 3 lt split(1,2) assms by (auto simp: q_def scalar_value_def)
    have e: "utf8_encode cp = [of_nat (0xE0 + q), of_nat (128 + y), of_nat (128 + x)]"
      using 3 by (simp add: utf8_encode_def x_def y_def q_def del: of_nat_add)
    define k where "k = utf8_trans 0 (0xE0 + q)"
    have k: "k < 240" "k \<noteq> 0" "utf8_trans k (128 + y) = 1"
      using q lt by (auto simp: k_def utf8_trans_def cont_def)
    then have "utf8_tail k (of_nat (128 + y) # of_nat (128 + x) # rest) = Some 2"
      using tail_1 [OF lt(1), of rest] lt by (subst tail_step) (simp_all del: of_nat_add)
    then show ?thesis
      unfolding e using q k(1) by (simp add: first_step k_def del: of_nat_add)
  next
    case 4
    define q where "q = cp div 262144"
    have q: "q < 5" "q = 0 \<Longrightarrow> 16 \<le> z" "q = 4 \<Longrightarrow> z < 16"
      using 4 lt split by (auto simp: q_def)
    have e: "utf8_encode cp = [of_nat (0xF0 + q), of_nat (128 + z), of_nat (128 + y), of_nat (128 + x)]"
      using 4 by (simp add: utf8_encode_def x_def y_def z_def q_def del: of_nat_add)
    define k where "k = utf8_trans 0 (0xF0 + q)"
    have k: "k < 240" "k \<noteq> 0" "utf8_trans k (128 + z) = 3"
      using q lt by (auto simp: k_def utf8_trans_def cont_def)
    then have "utf8_tail k (of_nat (128 + z) # of_nat (128 + y) # of_nat (128 + x) # rest) = Some 3"
      using tail_3 [OF lt(2) lt(1), of rest] lt by (subst tail_step) (simp_all del: of_nat_add)
    then show ?thesis
      unfolding e using q k(1) by (simp add: first_step k_def del: of_nat_add)
  qed
qed

lemma tail_inv:
  assumes "utf8_tail k bs = Some n" "k \<noteq> 0"
  obtains x cs m where "bs = of_nat (128 + x) # cs" "x < 64" "n = Suc m"
    "utf8_trans k (128 + x) < 240" "utf8_tail (utf8_trans k (128 + x)) cs = Some m"
proof (cases bs)
  case Nil
  with assms show thesis by simp
next
  case (Cons c cs)
  then have t: "utf8_trans k (unat c) < 240" "n = Suc (n - 1)"
    "utf8_tail (utf8_trans k (unat c)) cs = Some (n - 1)"
    using assms by (auto simp: Let_def split: if_splits)
  then have "cont (unat c)" using trans_cont [OF assms(2)] by simp
  then have "unat c = 128 + (unat c - 128)" "unat c - 128 < 64" unfolding cont_def by linarith+
  moreover have "of_nat (unat c) = c" by simp
  ultimately have "c = of_nat (128 + (unat c - 128))" "unat c - 128 < 64" "unat c = 128 + (unat c - 128)"
    by metis+
  then show thesis using that [of "unat c - 128" cs "n - 1"] t Cons by metis
qed

lemma tail_1_inv:
  assumes "utf8_tail 1 bs = Some n"
  obtains x cs where "bs = of_nat (128 + x) # cs" "x < 64" "n = 1"
  using assms by (rule tail_inv) (auto simp: utf8_trans_def tail_0 split: if_splits)

lemma tail_3_inv:
  assumes "utf8_tail 3 bs = Some n"
  obtains x y cs where "bs = of_nat (128 + y) # of_nat (128 + x) # cs" "x < 64" "y < 64" "n = 2"
proof -
  from assms obtain y cs m where 1: "bs = of_nat (128 + y) # cs" "y < 64" "n = Suc m"
    "utf8_trans 3 (128 + y) < 240" "utf8_tail (utf8_trans 3 (128 + y)) cs = Some m"
    by (rule tail_inv) simp
  then have "utf8_tail 1 cs = Some m" by (simp add: utf8_trans_def cont_def)
  then obtain x cs' where "cs = of_nat (128 + x) # cs'" "x < 64" "m = 1" by (rule tail_1_inv)
  with 1 that show thesis by simp
qed

lemma tail_8: "utf8_tail 8 bs = None"
  by (cases bs) (auto simp: utf8_trans_def Let_def)

lemma digit:
  "x < 64 \<Longrightarrow> (64 * n + x) mod 64 = (x :: nat)" "x < 64 \<Longrightarrow> (64 * n + x) div 64 = n"
  by simp_all

lemma encode_3:
  assumes "q < 16" "x < 64" "y < 64" "q = 0 \<Longrightarrow> 32 \<le> y" "q = 13 \<Longrightarrow> y < 32"
  shows "\<exists>cp. scalar_value cp \<and> utf8_encode cp = [of_nat (0xE0 + q), of_nat (128 + y), of_nat (128 + x)]"
proof -
  let ?cp = "64 * (64 * q + y) + x"
  have d: "?cp mod 64 = x" "?cp div 64 = 64 * q + y" using assms by (simp_all only: digit)
  have d3: "?cp div 64 mod 64 = y" "?cp div 64 div 64 = q" using assms by (simp_all only: digit)
  then have d4: "?cp div 4096 = q" by (simp only: div_mult2_eq [symmetric]) simp
  have lo: "0x800 \<le> ?cp" "?cp < 0x10000" using assms by (cases "q = 0"; simp)+
  moreover have "scalar_value ?cp"
    using assms lo by (cases "q < 13"; cases "q = 13") (auto simp: scalar_value_def)
  ultimately show ?thesis using d d3 d4
    by (intro exI [of _ ?cp]) (simp add: utf8_encode_def del: of_nat_add)
qed

lemma encode_4:
  assumes "q < 5" "x < 64" "y < 64" "z < 64" "q = 0 \<Longrightarrow> 16 \<le> z" "q = 4 \<Longrightarrow> z < 16"
  shows "\<exists>cp. scalar_value cp \<and>
    utf8_encode cp = [of_nat (0xF0 + q), of_nat (128 + z), of_nat (128 + y), of_nat (128 + x)]"
proof -
  let ?cp = "64 * (64 * (64 * q + z) + y) + x"
  have d: "?cp mod 64 = x" "?cp div 64 = 64 * (64 * q + z) + y" "?cp div 64 mod 64 = y"
    "?cp div 64 div 64 = 64 * q + z" "?cp div 64 div 64 mod 64 = z" "?cp div 64 div 64 div 64 = q"
    using assms by (simp_all only: digit)
  have "n div 4096 = n div 64 div 64" "n div 262144 = n div 64 div 64 div 64" for n :: nat
    by (simp_all only: div_mult2_eq [symmetric]) simp_all
  then have d3: "?cp div 4096 = 64 * q + z" "?cp div 262144 = q" by (simp_all only: digit assms)
  then have "?cp div 4096 mod 64 = z" using assms by (simp only: digit)
  note d4 = d3 this
  have "0x10000 \<le> ?cp" using assms by (cases "q = 0"; simp)
  moreover have "?cp < 0x110000" using assms by (cases "q = 4"; simp)
  ultimately show ?thesis using d d4
    by (intro exI [of _ ?cp]) (simp add: utf8_encode_def scalar_value_def del: of_nat_add)
qed

lemma utf8_first_decode:
  assumes "utf8_first bs = n" "n \<noteq> 0"
  shows "\<exists>cp. scalar_value cp \<and> take n bs = utf8_encode cp"
proof -
  obtain c cs where bs: "bs = c # cs" using assms by (cases bs) (auto simp: utf8_first_def)
  define l where "l = unat c"
  have c: "c = of_nat l" and l: "l < 256" by (simp_all add: l_def unat_byte_less)
  define k where "k = utf8_trans 0 l"
  from assms bs obtain m where t: "k < 240" "utf8_tail k cs = Some m" "n = Suc m"
    by (auto simp: utf8_first_def Let_def k_def l_def split: if_splits option.splits)
  have lead: "k = 0 \<and> l < 128 \<or> k = 1 \<and> 0xC2 \<le> l \<and> l < 0xE0 \<or> k = 2 \<and> l = 0xE0 \<or> k = 7 \<and> l = 0xED
    \<or> k = 3 \<and> 0xE1 \<le> l \<and> l < 0xF0 \<and> l \<noteq> 0xED \<or> k = 4 \<and> l = 0xF0 \<or> k = 5 \<and> 0xF1 \<le> l \<and> l < 0xF4
    \<or> k = 6 \<and> l = 0xF4"
    using t(1) by (auto simp: k_def utf8_trans_def split: if_splits)
  then consider "k = 0" "l < 128" | "k = 1" "0xC2 \<le> l" "l < 0xE0"
    | "k = 2 \<or> k = 7 \<or> k = 3" "0xE0 \<le> l" "l < 0xF0" "k = 2 \<longleftrightarrow> l = 0xE0" "k = 7 \<longleftrightarrow> l = 0xED"
    | "k = 4 \<or> k = 5 \<or> k = 6" "0xF0 \<le> l" "l \<le> 0xF4" "k = 4 \<longleftrightarrow> l = 0xF0" "k = 6 \<longleftrightarrow> l = 0xF4"
    by (elim disjE conjE) simp_all
  then show ?thesis
  proof cases
    case 1
    then have "take n bs = [of_nat l]" using t bs c by (simp add: tail_0)
    with 1 show ?thesis by (intro exI [of _ l]) (simp add: scalar_value_def utf8_encode_def)
  next
    case 2
    then obtain x cs' where x: "cs = of_nat (128 + x) # cs'" "x < 64" "m = 1"
      using t(2) tail_1_inv by metis
    let ?cp = "64 * (l - 0xC0) + x"
    have "?cp mod 64 = x" "?cp div 64 = l - 0xC0" "0x80 \<le> ?cp" "?cp < 0x800" using 2 x by simp_all
    moreover have "take n bs = [of_nat l, of_nat (128 + x)]"
      using t bs c x by (simp del: of_nat_add)
    ultimately show ?thesis using 2
      by (intro exI [of _ ?cp]) (simp add: scalar_value_def utf8_encode_def del: of_nat_add)
  next
    case 3
    from 3(1) have "k \<noteq> 0" by auto
    from tail_inv [OF t(2) this] obtain y cs' m' where y: "cs = of_nat (128 + y) # cs'" "y < 64"
      "m = Suc m'" "utf8_trans k (128 + y) < 240" "utf8_tail (utf8_trans k (128 + y)) cs' = Some m'" .
    have k1: "utf8_trans k (128 + y) = 1" "k = 2 \<Longrightarrow> 32 \<le> y" "k = 7 \<Longrightarrow> y < 32"
      using 3(1) y tail_8 [of cs'] by (auto simp: utf8_trans_def cont_def split: if_splits)
    then obtain x cs2 where x: "cs' = of_nat (128 + x) # cs2" "x < 64" "m' = 1"
      using y(5) tail_1_inv by metis
    have "take n bs = [of_nat (0xE0 + (l - 0xE0)), of_nat (128 + y), of_nat (128 + x)]"
      using t bs c x y 3 by (simp del: of_nat_add)
    moreover have "l - 0xE0 < 16" "l - 0xE0 = 0 \<Longrightarrow> 32 \<le> y" "l - 0xE0 = 13 \<Longrightarrow> y < 32"
      using 3 k1 by auto
    ultimately show ?thesis using encode_3 [of "l - 0xE0" x y] x(2) y(2) by metis
  next
    case 4
    from 4(1) have "k \<noteq> 0" by auto
    from tail_inv [OF t(2) this] obtain z cs' m' where z: "cs = of_nat (128 + z) # cs'" "z < 64"
      "m = Suc m'" "utf8_trans k (128 + z) < 240" "utf8_tail (utf8_trans k (128 + z)) cs' = Some m'" .
    have k1: "utf8_trans k (128 + z) = 3" "k = 4 \<Longrightarrow> 16 \<le> z" "k = 6 \<Longrightarrow> z < 16"
      using 4(1) z by (auto simp: utf8_trans_def cont_def split: if_splits)
    then obtain x y cs2 where x: "cs' = of_nat (128 + y) # of_nat (128 + x) # cs2" "x < 64" "y < 64" "m' = 2"
      using z(5) tail_3_inv by metis
    have "take n bs = [of_nat (0xF0 + (l - 0xF0)), of_nat (128 + z), of_nat (128 + y), of_nat (128 + x)]"
      using t bs c x z 4 by (simp del: of_nat_add)
    moreover have "l - 0xF0 < 5" "l - 0xF0 = 0 \<Longrightarrow> 16 \<le> z" "l - 0xF0 = 4 \<Longrightarrow> z < 16"
      using 4 k1 by auto
    ultimately show ?thesis using encode_4 [of "l - 0xF0" x y z] x(2,3) z(2) by metis
  qed
qed

lemma encode_nonempty: "utf8_encode cp \<noteq> []"
  by (simp add: utf8_encode_def)

lemma utf8_span_encode:
  "scalar_value cp \<Longrightarrow> utf8_span (utf8_encode cp @ rest) = length (utf8_encode cp) + utf8_span rest"
  using encode_nonempty [of cp] by (subst utf8_span.simps) (simp add: Let_def utf8_first_encode)

lemma utf8_span_concat:
  "list_all scalar_value cps \<Longrightarrow>
     utf8_span (concat (map utf8_encode cps) @ rest) = length (concat (map utf8_encode cps)) + utf8_span rest"
  by (induction cps) (simp_all add: utf8_span_encode)

lemma valid_utf8_Nil: "valid_utf8 []"
  by (auto simp: valid_utf8_def intro: exI [of _ "[]"])

lemma valid_utf8_encode: "scalar_value cp \<Longrightarrow> valid_utf8 bs \<Longrightarrow> valid_utf8 (utf8_encode cp @ bs)"
proof -
  assume cp: "scalar_value cp" and "valid_utf8 bs"
  then obtain cps where "list_all scalar_value cps" "bs = concat (map utf8_encode cps)"
    unfolding valid_utf8_def by blast
  with cp show ?thesis
    unfolding valid_utf8_def by (intro exI [of _ "cp # cps"]) simp
qed

lemma valid_utf8_append: "valid_utf8 a \<Longrightarrow> valid_utf8 b \<Longrightarrow> valid_utf8 (a @ b)"
proof -
  assume "valid_utf8 a" "valid_utf8 b"
  then obtain cps cps' where "list_all scalar_value cps" "a = concat (map utf8_encode cps)"
    "list_all scalar_value cps'" "b = concat (map utf8_encode cps')"
    unfolding valid_utf8_def by blast
  then show ?thesis unfolding valid_utf8_def by (intro exI [of _ "cps @ cps'"]) simp
qed

lemma utf8_span_valid: "valid_utf8 (take (utf8_span bs) bs)"
proof (induction bs rule: utf8_span.induct)
  case (1 bs)
  show ?case
  proof (cases "utf8_first bs = 0")
    case True
    then show ?thesis by (subst utf8_span.simps) (simp add: valid_utf8_Nil)
  next
    case False
    then obtain cp where cp: "scalar_value cp" "take (utf8_first bs) bs = utf8_encode cp"
      using utf8_first_decode [OF refl] by blast
    have s: "utf8_span bs = utf8_first bs + utf8_span (drop (utf8_first bs) bs)"
      using False by (subst utf8_span.simps) (simp add: Let_def)
    have "take (utf8_span bs) bs
        = utf8_encode cp @ take (utf8_span (drop (utf8_first bs) bs)) (drop (utf8_first bs) bs)"
      by (simp only: s take_add cp(2))
    then show ?thesis using 1 False cp(1) by (simp add: valid_utf8_encode)
  qed
qed

lemma utf8_span_longest: "valid_utf8 (take n bs) \<Longrightarrow> n \<le> length bs \<Longrightarrow> n \<le> utf8_span bs"
proof -
  assume "valid_utf8 (take n bs)" and n: "n \<le> length bs"
  then obtain cps where c: "list_all scalar_value cps" "take n bs = concat (map utf8_encode cps)"
    unfolding valid_utf8_def by blast
  then have "utf8_span (take n bs @ drop n bs) = length (take n bs) + utf8_span (drop n bs)"
    using utf8_span_concat by metis
  then show ?thesis using n by simp
qed

lemma valid_utf8_span: "valid_utf8 bs \<longleftrightarrow> utf8_span bs = length bs"
  using utf8_span_valid [of bs] utf8_span_longest [of "length bs" bs] utf8_span_le [of bs] by auto

lemma IsStructurallyValidUTF8_valid: "IsStructurallyValidUTF8 True addr buf \<longleftrightarrow> valid_utf8 buf"
  by (simp add: IsStructurallyValidUTF8_def FastAscii_span valid_utf8_span)

lemma valid_utf8_code [code]: "valid_utf8 buf \<longleftrightarrow> IsStructurallyValidUTF8 True 0 buf"
  by (simp add: IsStructurallyValidUTF8_valid)

lemma UTF8SpnStructurallyValid_span: "UTF8SpnStructurallyValid True addr str = utf8_span str"
  by (simp add: UTF8SpnStructurallyValid_def FastAscii_span)

lemma valid_utf8_ascii: "unat c < 128 \<Longrightarrow> valid_utf8 [c]"
  unfolding valid_utf8_def
  by (intro exI [of _ "[unat c]"]) (simp add: scalar_value_def utf8_encode_def)

lemma Coerce_loop_valid:
  "unat r < 128 \<Longrightarrow> valid_utf8 (Coerce_loop True addr r src) \<and> length (Coerce_loop True addr r src) = length src"
proof (induction "length src" arbitrary: src addr rule: less_induct)
  case less
  show ?case
  proof (cases src)
    case Nil
    then show ?thesis by (subst (1 2) Coerce_loop.simps) (simp add: valid_utf8_Nil)
  next
    case (Cons c cs)
    let ?n = "utf8_span cs"
    have e: "Coerce_loop True addr r src
        = [r] @ take ?n cs @ Coerce_loop True (addr + 1 + ?n) r (drop ?n cs)"
      using Cons by (subst Coerce_loop.simps) (simp add: Let_def UTF8SpnStructurallyValid_span)
    have "length (drop ?n cs) < length src" using Cons by simp
    from less.hyps [OF this less.prems] show ?thesis
      unfolding e using Cons utf8_span_le [of cs] valid_utf8_ascii [OF less.prems]
      by (simp add: valid_utf8_append utf8_span_valid del: append.simps)
  qed
qed

section \<open>Properties\<close>

text \<open>
  C14: the UTF-8 check of the parser accepts exactly the strings of RFC 3629, wherever the
  string lies in memory.
\<close>

theorem utf8_check_is_rfc3629: "IsStructurallyValidUTF8 True addr buf \<longleftrightarrow> valid_utf8 buf"
  by (rule IsStructurallyValidUTF8_valid)

text \<open>
  \<^verbatim>\<open>UTF8SpnStructurallyValid\<close> returns the length of the longest valid prefix.
\<close>

theorem utf8_spn_longest_prefix:
  "UTF8SpnStructurallyValid True addr str = n \<longleftrightarrow>
     n = Max {m. m \<le> length str \<and> valid_utf8 (take m str)}"
proof -
  have "Max {m. m \<le> length str \<and> valid_utf8 (take m str)} = utf8_span str"
    using utf8_span_longest utf8_span_le utf8_span_valid by (intro Max_eqI) auto
  then show ?thesis by (auto simp: UTF8SpnStructurallyValid_span)
qed

text \<open>
  C22: coercion with an ASCII replacement byte returns a valid string of the same length,
  keeps the valid prefix, and leaves a valid string alone.
\<close>

theorem utf8_coerce_valid:
  assumes "unat r < 128" and "out = UTF8CoerceToStructurallyValid True addr src r"
  shows "valid_utf8 out \<and> length out = length src
     \<and> take (utf8_span src) out = take (utf8_span src) src \<and> (valid_utf8 src \<longleftrightarrow> out = src)"
proof (cases "utf8_span src = length src")
  case True
  then have "out = src"
    by (simp add: assms(2) UTF8CoerceToStructurallyValid_def UTF8SpnStructurallyValid_span Let_def)
  with True show ?thesis by (simp add: valid_utf8_span)
next
  case False
  then have o: "out = take (utf8_span src) src
      @ Coerce_loop True (addr + utf8_span src) r (drop (utf8_span src) src)"
    by (simp add: assms(2) UTF8CoerceToStructurallyValid_def UTF8SpnStructurallyValid_span Let_def)
  then have "valid_utf8 out \<and> length out = length src \<and> take (utf8_span src) out = take (utf8_span src) src"
    using Coerce_loop_valid [OF assms(1)] utf8_span_valid [of src] utf8_span_le [of src]
    by (simp add: valid_utf8_append)
  with False show ?thesis by (metis valid_utf8_span)
qed

theorem utf8_coerce_valid_witness:
  "UTF8CoerceToStructurallyValid True 5 [0x61, 0xFF, 0x62] 0x20 = [0x61, 0x20, 0x62]
   \<and> valid_utf8 (UTF8CoerceToStructurallyValid True 5 [0x61, 0xFF, 0x62] 0x20)"
proof -
  have "UTF8CoerceToStructurallyValid True 5 [0x61, 0xFF, 0x62] 0x20 = [0x61, 0x20, 0x62]"
    by code_simp
  then show ?thesis
    using utf8_coerce_valid [OF _ refl, where r = "0x20" and addr = "5" and src = "[0x61, 0xFF, 0x62]"]
    by simp
qed

end
