(* ===== verification/OutStream.thy ===== *)
theory OutStream
  imports Readers
begin

text \<open>
  \<^verbatim>\<open>io::EpsCopyOutputStream\<close> (\<^verbatim>\<open>io/coded_stream.h\<close>, \<^verbatim>\<open>coded_stream.cc\<close>) as
  \<^verbatim>\<open>SerializeToArrayImpl\<close> sets it up: a caller's array, no underlying stream, so that running
  out of space is \<^verbatim>\<open>Error()\<close>, which sends the rest of the output to the patch buffer.
  A pointer is an offset in the region the stream is writing to; a write past that region
  is \<open>OOB\<close>, so that a value is a proof that the code stays within its buffers.
\<close>

record eps_out =
  array :: "byte list"      \<comment> \<open>the caller's \<^verbatim>\<open>data\<close>\<close>
  patch_out :: "byte list"  \<comment> \<open>\<^verbatim>\<open>buffer_\<close>\<close>
  in_patch :: bool          \<comment> \<open>\<^verbatim>\<open>ptr\<close> and \<^verbatim>\<open>end_\<close> point into \<^verbatim>\<open>buffer_\<close>\<close>
  end_pos :: int            \<comment> \<open>\<^verbatim>\<open>end_\<close>\<close>
  had_error :: bool

text \<open>The constructor for arrays.\<close>

definition EpsCopyOutputStream :: "byte list \<Rightarrow> int \<Rightarrow> eps_out" where
  "EpsCopyOutputStream data sz =
     \<lparr>array = data, patch_out = replicate 32 0, in_patch = False, end_pos = sz, had_error = False\<rparr>"

definition Error :: "eps_out \<Rightarrow> nat \<times> eps_out" where
  "Error s = (0, s\<lparr>had_error := True, in_patch := True, end_pos := 16\<rparr>)"

text \<open>\<^verbatim>\<open>Next\<close> with \<^verbatim>\<open>stream_ == nullptr\<close>.\<close>

definition Next_out :: "eps_out \<Rightarrow> nat \<times> eps_out" where
  "Next_out s = Error s"

function EnsureSpaceFallback :: "nat \<Rightarrow> eps_out \<Rightarrow> nat \<times> eps_out" where
  "EnsureSpaceFallback ptr s =
     (if had_error s then (0, s)
      else let overrun = int ptr - end_pos s; (p, s') = Next_out s; ptr' = nat (int p + overrun)
           in (if end_pos s' \<le> int ptr' then EnsureSpaceFallback ptr' s' else (ptr', s')))"
  by pat_completeness auto
termination
  by (relation "measure (\<lambda>(ptr, s). if had_error s then 0 else 1)") (auto simp: Next_out_def Error_def)

declare EnsureSpaceFallback.simps [simp del]

definition EnsureSpace :: "nat \<Rightarrow> eps_out \<Rightarrow> nat \<times> eps_out" where
  "EnsureSpace ptr s = (if end_pos s \<le> int ptr then EnsureSpaceFallback ptr s else (ptr, s))"

text \<open>A store of consecutive bytes at \<open>ptr\<close>.\<close>

definition store_at :: "nat \<Rightarrow> byte list \<Rightarrow> byte list \<Rightarrow> byte list" where
  "store_at ptr bs mem = take ptr mem @ bs @ drop (ptr + length bs) mem"

definition put_bytes :: "byte list \<Rightarrow> nat \<Rightarrow> eps_out \<Rightarrow> (nat \<times> eps_out) pres" where
  "put_bytes bs ptr s =
     (if in_patch s then
        (if length (patch_out s) < ptr + length bs then OOB
         else Ok (ptr + length bs, s\<lparr>patch_out := store_at ptr bs (patch_out s)\<rparr>))
      else
        (if length (array s) < ptr + length bs then OOB
         else Ok (ptr + length bs, s\<lparr>array := store_at ptr bs (array s)\<rparr>)))"

definition GetSize_out :: "nat \<Rightarrow> eps_out \<Rightarrow> int" where
  "GetSize_out ptr s = end_pos s + 16 - int ptr"

text \<open>
  \<^verbatim>\<open>WriteRawFallback\<close>. With no stream the second \<^verbatim>\<open>EnsureSpaceFallback\<close> leaves 32 bytes of
  space in the patch buffer, so each round takes at least a byte off \<open>data\<close>; the fuel is
  the length of the data.
\<close>

fun WriteRawFallback :: "nat \<Rightarrow> byte list \<Rightarrow> nat \<Rightarrow> eps_out \<Rightarrow> (nat \<times> eps_out) pres" where
  "WriteRawFallback fuel data ptr s =
     (let n = GetSize_out ptr s
      in (if n < int (length data) then
            (case fuel of 0 \<Rightarrow> NoFuel
             | Suc fuel \<Rightarrow>
                 pbind (put_bytes (take (nat n) data) ptr s) (\<lambda>(ptr', s').
                   let (ptr'', s'') = EnsureSpaceFallback ptr' s'
                   in WriteRawFallback fuel (drop (nat n) data) ptr'' s''))
          else put_bytes data ptr s))"

declare WriteRawFallback.simps [simp del]

definition WriteRaw :: "byte list \<Rightarrow> nat \<Rightarrow> eps_out \<Rightarrow> (nat \<times> eps_out) pres" where
  "WriteRaw data ptr s =
     (if end_pos s - int ptr < int (length data) then WriteRawFallback (length data) data ptr s
      else put_bytes data ptr s)"

text \<open>\<^verbatim>\<open>WireFormatLite::MakeTag\<close> and its inverses; a wire type is its number.\<close>

definition MakeTag :: "u32 \<Rightarrow> u32 \<Rightarrow> u32" where
  "MakeTag field_number type = push_bit 3 field_number OR type"

definition GetTagWireType :: "u32 \<Rightarrow> u32" where
  "GetTagWireType tag = tag AND 7"

definition GetTagFieldNumber :: "u32 \<Rightarrow> u32" where
  "GetTagFieldNumber tag = drop_bit 3 tag"

definition WriteTag :: "u32 \<Rightarrow> u32 \<Rightarrow> nat \<Rightarrow> eps_out \<Rightarrow> (nat \<times> eps_out) pres" where
  "WriteTag num wt ptr s = put_bytes (UnsafeVarint (push_bit 3 num OR wt)) ptr s"

definition WriteLengthDelim :: "u32 \<Rightarrow> u32 \<Rightarrow> nat \<Rightarrow> eps_out \<Rightarrow> (nat \<times> eps_out) pres" where
  "WriteLengthDelim num sz ptr s =
     pbind (WriteTag num 2 ptr s) (\<lambda>(ptr, s). put_bytes (UnsafeWriteSize sz) ptr s)"

definition WriteStringOutline :: "u32 \<Rightarrow> byte list \<Rightarrow> nat \<Rightarrow> eps_out \<Rightarrow> (nat \<times> eps_out) pres" where
  "WriteStringOutline num str ptr s =
     (let (ptr, s) = EnsureSpace ptr s; sz = (of_nat (length str) :: u32)
      in pbind (WriteLengthDelim num sz ptr s) (\<lambda>(ptr, s). WriteRaw str ptr s))"

text \<open>Aliasing is off for arrays, so \<^verbatim>\<open>WriteRawMaybeAliased\<close> is \<^verbatim>\<open>WriteRaw\<close>.\<close>

definition WriteStringMaybeAliasedOutline :: "u32 \<Rightarrow> byte list \<Rightarrow> nat \<Rightarrow> eps_out \<Rightarrow> (nat \<times> eps_out) pres" where
  "WriteStringMaybeAliasedOutline num str ptr s =
     (let (ptr, s) = EnsureSpace ptr s; sz = (of_nat (length str) :: u32)
      in pbind (WriteLengthDelim num sz ptr s) (\<lambda>(ptr, s). WriteRaw str ptr s))"

definition WriteString :: "u32 \<Rightarrow> byte list \<Rightarrow> nat \<Rightarrow> eps_out \<Rightarrow> (nat \<times> eps_out) pres" where
  "WriteString num str ptr s =
     (let sz = int (length str)
      in (if 128 \<le> sz \<or> end_pos s - int ptr + 16 - int (TagSize (push_bit 3 num)) - 1 < sz
          then WriteStringOutline num str ptr s
          else pbind (put_bytes (UnsafeVarint (push_bit 3 num OR 2)) ptr s) (\<lambda>(ptr, s).
               pbind (put_bytes [of_nat (length str)] ptr s) (\<lambda>(ptr, s).
               put_bytes str ptr s))))"

definition WriteStringMaybeAliased :: "u32 \<Rightarrow> byte list \<Rightarrow> nat \<Rightarrow> eps_out \<Rightarrow> (nat \<times> eps_out) pres" where
  "WriteStringMaybeAliased num str ptr s =
     (let sz = int (length str)
      in (if 128 \<le> sz \<or> end_pos s - int ptr + 16 - int (TagSize (push_bit 3 num)) - 1 < sz
          then WriteStringMaybeAliasedOutline num str ptr s
          else pbind (put_bytes (UnsafeVarint (push_bit 3 num OR 2)) ptr s) (\<lambda>(ptr, s).
               pbind (put_bytes [of_nat (length str)] ptr s) (\<lambda>(ptr, s).
               put_bytes str ptr s))))"

section \<open>Writing where there is room\<close>

text \<open>
  \<open>out_at s ptr\<close>: no error so far, \<open>ptr\<close> in the array. \<open>emits bs w\<close>: from such a state
  with room for \<open>bs\<close> the operation \<open>w\<close> writes \<open>bs\<close> at the pointer and advances it.
\<close>

definition out_at :: "eps_out \<Rightarrow> nat \<Rightarrow> bool" where
  "out_at s ptr \<longleftrightarrow> \<not> in_patch s \<and> \<not> had_error s \<and> end_pos s \<le> int (length (array s)) \<and> int ptr \<le> end_pos s"

definition emits :: "byte list \<Rightarrow> (nat \<Rightarrow> eps_out \<Rightarrow> (nat \<times> eps_out) pres) \<Rightarrow> bool" where
  "emits bs w \<longleftrightarrow> (\<forall>ptr s. out_at s ptr \<and> int (ptr + length bs) \<le> end_pos s \<longrightarrow>
     w ptr s = Ok (ptr + length bs, s\<lparr>array := store_at ptr bs (array s)\<rparr>))"

lemma length_store_at [simp]: "ptr + length bs \<le> length mem \<Longrightarrow> length (store_at ptr bs mem) = length mem"
  by (simp add: store_at_def)

lemma store_at_append:
  "ptr + length a + length b \<le> length mem \<Longrightarrow>
     store_at (ptr + length a) b (store_at ptr a mem) = store_at ptr (a @ b) mem"
  by (simp add: store_at_def ac_simps)

lemma store_at_Nil [simp]: "ptr \<le> length mem \<Longrightarrow> store_at ptr [] mem = mem"
  by (simp add: store_at_def)

lemma out_at_store:
  "out_at s ptr \<Longrightarrow> int (ptr + length bs) \<le> end_pos s \<Longrightarrow>
     out_at (s\<lparr>array := store_at ptr bs (array s)\<rparr>) (ptr + length bs)"
  by (simp add: out_at_def)

lemma emits_put [intro]: "emits bs (put_bytes bs)"
  by (auto simp: emits_def put_bytes_def out_at_def)

lemma emits_seq:
  assumes "emits a w" and "emits b v"
  shows "emits (a @ b) (\<lambda>ptr s. pbind (w ptr s) (\<lambda>(ptr, s). v ptr s))"
  unfolding emits_def
proof (intro allI impI)
  fix ptr s assume as: "out_at s ptr \<and> int (ptr + length (a @ b)) \<le> end_pos s"
  then have wa: "w ptr s = Ok (ptr + length a, s\<lparr>array := store_at ptr a (array s)\<rparr>)"
    using assms(1) unfolding emits_def by simp
  let ?s = "s\<lparr>array := store_at ptr a (array s)\<rparr>"
  have "v (ptr + length a) ?s
      = Ok (ptr + length a + length b, ?s\<lparr>array := store_at (ptr + length a) b (array ?s)\<rparr>)"
    using assms(2) as out_at_store [of s ptr a] unfolding emits_def by simp
  then show "pbind (w ptr s) (\<lambda>(ptr, s). v ptr s)
      = Ok (ptr + length (a @ b), s\<lparr>array := store_at ptr (a @ b) (array s)\<rparr>)"
    using wa as store_at_append [of ptr a b "array s"] by (simp add: out_at_def)
qed

lemma emits_ensure:
  assumes "emits bs w" and "bs \<noteq> []"
  shows "emits bs (\<lambda>ptr s. case EnsureSpace ptr s of (ptr, s) \<Rightarrow> w ptr s)"
  using assms by (cases bs) (auto simp: emits_def EnsureSpace_def out_at_def)

lemma emits_raw: "emits bs (WriteRaw bs)"
  by (auto simp: emits_def WriteRaw_def put_bytes_def out_at_def)

lemma emits_cong: "emits a w \<Longrightarrow> a = b \<Longrightarrow> emits b w"
  by simp

text \<open>A length-delimited field: tag, size, bytes.\<close>

definition string_field :: "u32 \<Rightarrow> byte list \<Rightarrow> byte list" where
  "string_field num str =
     varint_enc (unat (MakeTag num 2)) @ varint_enc (unat (of_nat (length str) :: u32)) @ str"

lemma emits_delim:
  "emits (varint_enc (unat (MakeTag num 2)) @ varint_enc (unat sz)) (WriteLengthDelim num sz)"
proof -
  have "emits (UnsafeVarint (push_bit 3 num OR 2) @ UnsafeWriteSize sz)
      (\<lambda>ptr s. pbind (put_bytes (UnsafeVarint (push_bit 3 num OR 2)) ptr s)
         (\<lambda>(ptr, s). put_bytes (UnsafeWriteSize sz) ptr s))"
    by (intro emits_seq emits_put)
  then show ?thesis
    by (simp add: WriteLengthDelim_def [abs_def] WriteTag_def MakeTag_def varint_writers)
qed

lemma emits_WriteStringOutline: "emits (string_field num str) (WriteStringOutline num str)"
proof -
  have "emits ((varint_enc (unat (MakeTag num 2)) @ varint_enc (unat (of_nat (length str) :: u32))) @ str)
      (\<lambda>ptr s. pbind (WriteLengthDelim num (of_nat (length str)) ptr s) (\<lambda>(ptr, s). WriteRaw str ptr s))"
    by (intro emits_seq emits_delim emits_raw)
  then have "emits (string_field num str)
      (\<lambda>ptr s. pbind (WriteLengthDelim num (of_nat (length str)) ptr s) (\<lambda>(ptr, s). WriteRaw str ptr s))"
    by (simp add: string_field_def)
  from emits_ensure [OF this] show ?thesis
    by (simp add: WriteStringOutline_def [abs_def] string_field_def varint_enc_nonempty Let_def)
qed

lemma WriteStringMaybeAliasedOutline_eq:
  "WriteStringMaybeAliasedOutline = WriteStringOutline"
  by (simp add: fun_eq_iff WriteStringMaybeAliasedOutline_def WriteStringOutline_def)

lemma WriteStringMaybeAliased_eq: "WriteStringMaybeAliased = WriteString"
  by (simp add: fun_eq_iff WriteStringMaybeAliased_def WriteString_def WriteStringMaybeAliasedOutline_eq)

lemma emits_WriteString: "emits (string_field num str) (WriteString num str)"
  unfolding emits_def
proof (intro allI impI)
  fix ptr s
  assume as: "out_at s ptr \<and> int (ptr + length (string_field num str)) \<le> end_pos s"
  show "WriteString num str ptr s
      = Ok (ptr + length (string_field num str), s\<lparr>array := store_at ptr (string_field num str) (array s)\<rparr>)"
  proof (cases "128 \<le> int (length str) \<or> end_pos s - int ptr + 16 - int (TagSize (push_bit 3 num)) - 1 < int (length str)")
    case True
    then have "WriteString num str ptr s = WriteStringOutline num str ptr s"
      by (simp add: WriteString_def Let_def)
    with as emits_WriteStringOutline [of num str] show ?thesis by (simp add: emits_def)
  next
    case False
    then have small: "length str < 128" by simp
    then have u: "unat (of_nat (length str) :: u32) = length str" by (intro unat_of_nat_u32) simp
    have "emits (UnsafeVarint (push_bit 3 num OR 2) @ [of_nat (length str)] @ str)
        (\<lambda>ptr s. pbind (put_bytes (UnsafeVarint (push_bit 3 num OR 2)) ptr s) (\<lambda>(ptr, s).
               pbind (put_bytes [of_nat (length str)] ptr s) (\<lambda>(ptr, s). put_bytes str ptr s)))"
      by (intro emits_seq emits_put)
    moreover have "UnsafeVarint (push_bit 3 num OR 2) @ [of_nat (length str)] @ str = string_field num str"
      using small by (simp only: string_field_def varint_writers MakeTag_def u varint_enc_small)
    ultimately have "emits (string_field num str)
        (\<lambda>ptr s. pbind (put_bytes (UnsafeVarint (push_bit 3 num OR 2)) ptr s) (\<lambda>(ptr, s).
               pbind (put_bytes [of_nat (length str)] ptr s) (\<lambda>(ptr, s). put_bytes str ptr s)))"
      by (rule emits_cong)
    then show ?thesis using False as by (simp add: WriteString_def Let_def emits_def)
  qed
qed

end
