(* ===== verification/UnknownFields.thy ===== *)
theory UnknownFields
  imports OutStream
begin

text \<open>
  \<^verbatim>\<open>UnknownFieldSet\<close> (\<^verbatim>\<open>unknown_field_set.h\<close>, \<^verbatim>\<open>unknown_field_set.cc\<close>) with its serialization
  and its size (\<^verbatim>\<open>wire_format.cc\<close>): the fields of a message that its type does not declare,
  in the order they were read.
\<close>

section \<open>The set\<close>

datatype unknown_field =
    TYPE_VARINT u32 u64
  | TYPE_FIXED32 u32 u32
  | TYPE_FIXED64 u32 u64
  | TYPE_LENGTH_DELIMITED u32 "byte list"
  | TYPE_GROUP u32 "unknown_field list"

type_synonym UnknownFieldSet = "unknown_field list"

fun number :: "unknown_field \<Rightarrow> u32" where
  "number (TYPE_VARINT n _) = n"
| "number (TYPE_FIXED32 n _) = n"
| "number (TYPE_FIXED64 n _) = n"
| "number (TYPE_LENGTH_DELIMITED n _) = n"
| "number (TYPE_GROUP n _) = n"

definition AddVarint :: "u32 \<Rightarrow> u64 \<Rightarrow> UnknownFieldSet \<Rightarrow> UnknownFieldSet" where
  "AddVarint num value fs = fs @ [TYPE_VARINT num value]"

definition AddFixed32 :: "u32 \<Rightarrow> u32 \<Rightarrow> UnknownFieldSet \<Rightarrow> UnknownFieldSet" where
  "AddFixed32 num value fs = fs @ [TYPE_FIXED32 num value]"

definition AddFixed64 :: "u32 \<Rightarrow> u64 \<Rightarrow> UnknownFieldSet \<Rightarrow> UnknownFieldSet" where
  "AddFixed64 num value fs = fs @ [TYPE_FIXED64 num value]"

text \<open>
  \<^verbatim>\<open>AddLengthDelimited(int)\<close> and \<^verbatim>\<open>AddGroup\<close> return a pointer into the new field, through
  which the caller fills it; here the caller's final value is the argument.
\<close>

definition AddLengthDelimited :: "u32 \<Rightarrow> byte list \<Rightarrow> UnknownFieldSet \<Rightarrow> UnknownFieldSet" where
  "AddLengthDelimited num value fs = fs @ [TYPE_LENGTH_DELIMITED num value]"

definition AddGroup :: "u32 \<Rightarrow> UnknownFieldSet \<Rightarrow> UnknownFieldSet \<Rightarrow> UnknownFieldSet" where
  "AddGroup num value fs = fs @ [TYPE_GROUP num value]"

text \<open>\<^verbatim>\<open>DeepCopy\<close> duplicates the string or the group that the field points to.\<close>

fun DeepCopy :: "unknown_field \<Rightarrow> unknown_field"
  and InternalMergeFrom :: "UnknownFieldSet \<Rightarrow> UnknownFieldSet \<Rightarrow> UnknownFieldSet"
where
  "DeepCopy (TYPE_LENGTH_DELIMITED n str) = TYPE_LENGTH_DELIMITED n str"
| "DeepCopy (TYPE_GROUP n grp) = TYPE_GROUP n (InternalMergeFrom [] grp)"
| "DeepCopy f = f"
| "InternalMergeFrom fs [] = fs"
| "InternalMergeFrom fs (f # other) = InternalMergeFrom (fs @ [DeepCopy f]) other"

definition MergeFrom_ufs :: "UnknownFieldSet \<Rightarrow> UnknownFieldSet \<Rightarrow> UnknownFieldSet" where
  "MergeFrom_ufs fs other = InternalMergeFrom fs other"

definition MergeFromAndDestroy :: "UnknownFieldSet \<Rightarrow> UnknownFieldSet \<Rightarrow> UnknownFieldSet \<times> UnknownFieldSet" where
  "MergeFromAndDestroy fs other = (if fs = [] then (other, []) else (fs @ other, []))"

definition AddField :: "unknown_field \<Rightarrow> UnknownFieldSet \<Rightarrow> UnknownFieldSet" where
  "AddField field fs = fs @ [DeepCopy field]"

text \<open>The loops of \<^verbatim>\<open>DeleteSubrange\<close> and \<^verbatim>\<open>DeleteByNumber\<close> move fields within the vector.\<close>

function DeleteSubrange_slide :: "nat \<Rightarrow> nat \<Rightarrow> UnknownFieldSet \<Rightarrow> UnknownFieldSet" where
  "DeleteSubrange_slide num i fs =
     (if i < length fs then DeleteSubrange_slide num (i + 1) (fs[i - num := fs ! i]) else fs)"
  by pat_completeness auto
termination by (relation "measure (\<lambda>(num, i, fs). length fs - i)") auto

definition DeleteSubrange :: "nat \<Rightarrow> nat \<Rightarrow> UnknownFieldSet \<Rightarrow> UnknownFieldSet" where
  "DeleteSubrange start num fs = (butlast ^^ num) (DeleteSubrange_slide num (start + num) fs)"

function DeleteByNumber_loop :: "u32 \<Rightarrow> nat \<Rightarrow> nat \<Rightarrow> UnknownFieldSet \<Rightarrow> nat \<times> UnknownFieldSet" where
  "DeleteByNumber_loop num i left fs =
     (if i < length fs then
        if number (fs ! i) = num then DeleteByNumber_loop num (i + 1) left fs
        else DeleteByNumber_loop num (i + 1) (left + 1)
               (if i \<noteq> left then fs[left := fs ! i] else fs)
      else (left, fs))"
  by pat_completeness auto
termination by (relation "measure (\<lambda>(num, i, left, fs). length fs - i)") auto

declare DeleteSubrange_slide.simps [simp del] DeleteByNumber_loop.simps [simp del]

definition DeleteByNumber :: "u32 \<Rightarrow> UnknownFieldSet \<Rightarrow> UnknownFieldSet" where
  "DeleteByNumber num fs =
     (let (left, fs) = DeleteByNumber_loop num 0 0 fs in take left fs)"

section \<open>Serialization\<close>

text \<open>\<^verbatim>\<open>CodedOutputStream::WriteTagToArray\<close> and the \<^verbatim>\<open>WireFormatLite\<close> writers that use it.\<close>

definition WriteTagToArray :: "u32 \<Rightarrow> u32 \<Rightarrow> byte list" where
  "WriteTagToArray field_number type = WriteVarint32ToArray (MakeTag field_number type)"

definition WriteUInt64ToArray :: "u32 \<Rightarrow> u64 \<Rightarrow> byte list" where
  "WriteUInt64ToArray field_number value = WriteTagToArray field_number 0 @ WriteVarint64ToArray value"

definition WriteUInt32ToArray :: "u32 \<Rightarrow> u32 \<Rightarrow> byte list" where
  "WriteUInt32ToArray field_number value = WriteTagToArray field_number 0 @ WriteVarint32ToArray value"

definition WriteFixed32ToArray :: "u32 \<Rightarrow> u32 \<Rightarrow> byte list" where
  "WriteFixed32ToArray field_number value = WriteTagToArray field_number 5 @ WriteLittleEndian32ToArray value"

definition WriteFixed64ToArray :: "u32 \<Rightarrow> u64 \<Rightarrow> byte list" where
  "WriteFixed64ToArray field_number value = WriteTagToArray field_number 1 @ WriteLittleEndian64ToArray value"

fun InternalSerializeUnknownField :: "unknown_field \<Rightarrow> nat \<Rightarrow> eps_out \<Rightarrow> (nat \<times> eps_out) pres"
  and InternalSerializeUnknownFieldsToArray :: "UnknownFieldSet \<Rightarrow> nat \<Rightarrow> eps_out \<Rightarrow> (nat \<times> eps_out) pres"
where
  "InternalSerializeUnknownField (TYPE_VARINT n v) target s =
     (case EnsureSpace target s of (target, s) \<Rightarrow> put_bytes (WriteUInt64ToArray n v) target s)"
| "InternalSerializeUnknownField (TYPE_FIXED32 n v) target s =
     (case EnsureSpace target s of (target, s) \<Rightarrow> put_bytes (WriteFixed32ToArray n v) target s)"
| "InternalSerializeUnknownField (TYPE_FIXED64 n v) target s =
     (case EnsureSpace target s of (target, s) \<Rightarrow> put_bytes (WriteFixed64ToArray n v) target s)"
| "InternalSerializeUnknownField (TYPE_LENGTH_DELIMITED n str) target s =
     (case EnsureSpace target s of (target, s) \<Rightarrow> WriteString n str target s)"
| "InternalSerializeUnknownField (TYPE_GROUP n grp) target s =
     (case EnsureSpace target s of (target, s) \<Rightarrow>
        pbind (put_bytes (WriteTagToArray n 3) target s) (\<lambda>(target, s).
        pbind (InternalSerializeUnknownFieldsToArray grp target s) (\<lambda>(target, s).
        case EnsureSpace target s of (target, s) \<Rightarrow> put_bytes (WriteTagToArray n 4) target s)))"
| "InternalSerializeUnknownFieldsToArray [] target s = Ok (target, s)"
| "InternalSerializeUnknownFieldsToArray (f # fs) target s =
     pbind (InternalSerializeUnknownField f target s)
       (\<lambda>(target, s). InternalSerializeUnknownFieldsToArray fs target s)"

fun ComputeUnknownFieldSize :: "unknown_field \<Rightarrow> u64"
  and ComputeUnknownFieldsSize :: "UnknownFieldSet \<Rightarrow> u64"
where
  "ComputeUnknownFieldSize (TYPE_VARINT n v) = VarintSize32 (MakeTag n 0) + VarintSize64 v"
| "ComputeUnknownFieldSize (TYPE_FIXED32 n v) = VarintSize32 (MakeTag n 5) + 4"
| "ComputeUnknownFieldSize (TYPE_FIXED64 n v) = VarintSize32 (MakeTag n 1) + 8"
| "ComputeUnknownFieldSize (TYPE_LENGTH_DELIMITED n str) =
     VarintSize32 (MakeTag n 2) + VarintSize32 (of_nat (length str)) + of_nat (length str)"
| "ComputeUnknownFieldSize (TYPE_GROUP n grp) =
     VarintSize32 (MakeTag n 3) + ComputeUnknownFieldsSize grp + VarintSize32 (MakeTag n 4)"
| "ComputeUnknownFieldsSize [] = 0"
| "ComputeUnknownFieldsSize (f # fs) = ComputeUnknownFieldSize f + ComputeUnknownFieldsSize fs"

section \<open>The wire format of a field\<close>

fun field_bytes :: "unknown_field \<Rightarrow> byte list"
  and fields_bytes :: "UnknownFieldSet \<Rightarrow> byte list"
where
  "field_bytes (TYPE_VARINT n v) = varint_enc (unat (MakeTag n 0)) @ varint_enc (unat v)"
| "field_bytes (TYPE_FIXED32 n v) = varint_enc (unat (MakeTag n 5)) @ le_bytes 4 (unat v)"
| "field_bytes (TYPE_FIXED64 n v) = varint_enc (unat (MakeTag n 1)) @ le_bytes 8 (unat v)"
| "field_bytes (TYPE_LENGTH_DELIMITED n str) = string_field n str"
| "field_bytes (TYPE_GROUP n grp) =
     varint_enc (unat (MakeTag n 3)) @ fields_bytes grp @ varint_enc (unat (MakeTag n 4))"
| "fields_bytes [] = []"
| "fields_bytes (f # fs) = field_bytes f @ fields_bytes fs"

lemma field_bytes_nonempty: "field_bytes f \<noteq> []"
  by (cases f) (simp_all add: varint_enc_nonempty string_field_def)

lemmas ufs_writers = WriteUInt64ToArray_def WriteUInt32ToArray_def WriteFixed32ToArray_def
  WriteFixed64ToArray_def WriteTagToArray_def varint_writers
  WriteLittleEndian32ToArray_def WriteLittleEndian64ToArray_def

lemma emits_unknown:
  "emits (field_bytes f) (InternalSerializeUnknownField f)"
  "emits (fields_bytes fs) (InternalSerializeUnknownFieldsToArray fs)"
proof (induction f and fs rule: field_bytes_fields_bytes.induct)
  case (1 n v)
  have "emits (field_bytes (TYPE_VARINT n v)) (put_bytes (WriteUInt64ToArray n v))"
    by (rule emits_cong [OF emits_put]) (simp add: ufs_writers)
  from emits_ensure [OF this field_bytes_nonempty] show ?case by simp
next
  case (2 n v)
  have "emits (field_bytes (TYPE_FIXED32 n v)) (put_bytes (WriteFixed32ToArray n v))"
    by (rule emits_cong [OF emits_put]) (simp add: ufs_writers)
  from emits_ensure [OF this field_bytes_nonempty] show ?case by simp
next
  case (3 n v)
  have "emits (field_bytes (TYPE_FIXED64 n v)) (put_bytes (WriteFixed64ToArray n v))"
    by (rule emits_cong [OF emits_put]) (simp add: ufs_writers)
  from emits_ensure [OF this field_bytes_nonempty] show ?case by simp
next
  case (4 n str)
  have "emits (field_bytes (TYPE_LENGTH_DELIMITED n str)) (WriteString n str)"
    by (simp add: emits_WriteString)
  from emits_ensure [OF this field_bytes_nonempty] show ?case by simp
next
  case (5 n grp)
  have tag: "emits (varint_enc (unat (MakeTag n w))) (put_bytes (WriteTagToArray n w))" for w
    by (rule emits_cong [OF emits_put]) (simp add: ufs_writers)
  have "emits (field_bytes (TYPE_GROUP n grp)) (\<lambda>target s.
      pbind (put_bytes (WriteTagToArray n 3) target s) (\<lambda>(target, s).
      pbind (InternalSerializeUnknownFieldsToArray grp target s) (\<lambda>(target, s).
      case EnsureSpace target s of (target, s) \<Rightarrow> put_bytes (WriteTagToArray n 4) target s)))"
    unfolding field_bytes.simps
    by (intro emits_seq tag 5 emits_ensure varint_enc_nonempty)
  from emits_ensure [OF this field_bytes_nonempty] show ?case by simp
next
  case 6
  show ?case by (simp add: emits_def out_at_def)
next
  case (7 f fs)
  then show ?case using emits_seq [OF 7(1) 7(2)] by simp
qed

lemma ComputeUnknownFieldsSize_eq:
  "ComputeUnknownFieldSize f = of_nat (length (field_bytes f))"
  "ComputeUnknownFieldsSize fs = of_nat (length (fields_bytes fs))"
  by (induction f and fs rule: field_bytes_fields_bytes.induct)
    (simp_all add: varint_sizes string_field_def)

section \<open>What the operations on the set do\<close>

lemma DeepCopy_id:
  "DeepCopy f = f" "InternalMergeFrom fs other = fs @ other"
  by (induction f and fs other rule: DeepCopy_InternalMergeFrom.induct) simp_all

lemma MergeFrom_ufs_eq: "MergeFrom_ufs fs other = fs @ other"
  by (simp add: MergeFrom_ufs_def DeepCopy_id)

lemma MergeFromAndDestroy_eq: "MergeFromAndDestroy fs other = (fs @ other, [])"
  by (simp add: MergeFromAndDestroy_def)

lemma butlasts: "(butlast ^^ n) xs = take (length xs - n) xs"
  by (induction n arbitrary: xs) (simp_all add: funpow_swap1 butlast_conv_take)

text \<open>One slide moves the tail; what it leaves behind is popped.\<close>

lemma DeleteSubrange_slide_take:
  "num \<le> i \<Longrightarrow> i \<le> length fs \<Longrightarrow>
     length (DeleteSubrange_slide num i fs) = length fs
     \<and> take (length fs - num) (DeleteSubrange_slide num i fs) = take (i - num) fs @ drop i fs"
proof (induction num i fs rule: DeleteSubrange_slide.induct)
  case (1 num i fs)
  show ?case
  proof (cases "i < length fs")
    case True
    let ?fs = "fs[i - num := fs ! i]"
    have "take (i + 1 - num) ?fs = take (i - num) fs @ [fs ! i]"
      using 1 True by (simp add: Suc_diff_le take_Suc_conv_app_nth)
    moreover have "drop (i + 1) ?fs = drop (Suc i) fs"
      using 1 by (simp add: drop_update_cancel)
    moreover have "drop i fs = fs ! i # drop (Suc i) fs" using True by (simp add: Cons_nth_drop_Suc)
    ultimately show ?thesis
      using 1 True by (subst (1 2) DeleteSubrange_slide.simps) simp
  next
    case False
    then show ?thesis using 1(3) by (subst (1 2) DeleteSubrange_slide.simps) simp
  qed
qed

lemma DeleteSubrange_eq:
  "start + num \<le> length fs \<Longrightarrow> DeleteSubrange start num fs = take start fs @ drop (start + num) fs"
  using DeleteSubrange_slide_take [of num "start + num" fs]
  by (simp add: DeleteSubrange_def butlasts)

lemma DeleteByNumber_loop_spec:
  "left \<le> i \<Longrightarrow> i \<le> length fs \<Longrightarrow> (left', fs') = DeleteByNumber_loop num i left fs \<Longrightarrow>
     take left' fs' = take left fs @ filter (\<lambda>f. number f \<noteq> num) (drop i fs)"
proof (induction num i left fs arbitrary: left' fs' rule: DeleteByNumber_loop.induct)
  case (1 num i left fs)
  show ?case
  proof (cases "i < length fs")
    case lt: True
    have dr: "drop i fs = fs ! i # drop (Suc i) fs" using lt by (simp add: Cons_nth_drop_Suc)
    show ?thesis
    proof (cases "number (fs ! i) = num")
      case True
      then have "(left', fs') = DeleteByNumber_loop num (i + 1) left fs"
        using 1(5) lt by (subst (asm) DeleteByNumber_loop.simps) simp
      from 1(1) [OF lt True _ _ this] show ?thesis using True lt 1(3) dr by simp
    next
      case False
      let ?fs = "if i \<noteq> left then fs[left := fs ! i] else fs"
      have "(left', fs') = DeleteByNumber_loop num (i + 1) (left + 1) ?fs"
        using 1(5) lt False by (subst (asm) DeleteByNumber_loop.simps) simp
      from 1(2) [OF lt False _ _ this]
      have "take left' fs' = take (left + 1) ?fs @ filter (\<lambda>f. number f \<noteq> num) (drop (i + 1) ?fs)"
        using 1(3) lt by simp
      moreover have "take (left + 1) ?fs = take left fs @ [fs ! i]"
        using 1(3) lt by (auto simp: take_Suc_conv_app_nth)
      moreover have "drop (i + 1) ?fs = drop (Suc i) fs"
        using 1(3) by (auto simp: drop_update_cancel)
      ultimately show ?thesis using False dr by simp
    qed
  next
    case False
    then show ?thesis using 1(4,5) by (subst (asm) DeleteByNumber_loop.simps) simp
  qed
qed

lemma DeleteByNumber_eq: "DeleteByNumber num fs = filter (\<lambda>f. number f \<noteq> num) fs"
  using DeleteByNumber_loop_spec [of 0 0 fs _ _ num]
  by (auto simp: DeleteByNumber_def split: prod.split)

section \<open>Properties\<close>

text \<open>
  The in-place deletions of \<^verbatim>\<open>UnknownFieldSet\<close> delete exactly the fields they should and
  keep the order of the others; merging appends.
\<close>

theorem unknown_set_operations:
  assumes "start + num \<le> length fs"
  shows "DeleteSubrange start num fs = take start fs @ drop (start + num) fs
    \<and> DeleteByNumber n fs = filter (\<lambda>f. number f \<noteq> n) fs
    \<and> MergeFrom_ufs fs gs = fs @ gs \<and> MergeFromAndDestroy fs gs = (fs @ gs, [])"
  by (simp add: DeleteSubrange_eq [OF assms] DeleteByNumber_eq MergeFrom_ufs_eq MergeFromAndDestroy_eq)

theorem unknown_set_operations_witness:
  "DeleteSubrange 1 1 [TYPE_VARINT 1 5, TYPE_VARINT 2 6, TYPE_FIXED32 1 7] = [TYPE_VARINT 1 5, TYPE_FIXED32 1 7]
   \<and> DeleteByNumber 1 [TYPE_VARINT 1 5, TYPE_VARINT 2 6, TYPE_FIXED32 1 7] = [TYPE_VARINT 2 6]"
  using unknown_set_operations [of 1 1 "[TYPE_VARINT 1 5, TYPE_VARINT 2 6, TYPE_FIXED32 1 7]" 1 "[]"] by simp

text \<open>
  Serializing unknown fields into an array writes exactly \<^verbatim>\<open>ComputeUnknownFieldsSize\<close>
  bytes, the wire format of the fields, and leaves the rest of the array alone.
\<close>

theorem unknown_fields_serialize:
  assumes "out_at s ptr" and "int (ptr + length (fields_bytes fs)) \<le> end_pos s"
  shows "InternalSerializeUnknownFieldsToArray fs ptr s
      = Ok (ptr + length (fields_bytes fs), s\<lparr>array := store_at ptr (fields_bytes fs) (array s)\<rparr>)
    \<and> ComputeUnknownFieldsSize fs = of_nat (length (fields_bytes fs))"
  using emits_unknown(2) [of fs] assms by (simp add: emits_def ComputeUnknownFieldsSize_eq)

theorem unknown_fields_serialize_witness:
  "InternalSerializeUnknownFieldsToArray [TYPE_VARINT 3 7] 0 (EpsCopyOutputStream [9, 9, 9] 3)
     = Ok (2, (EpsCopyOutputStream [9, 9, 9] 3)\<lparr>array := [24, 7, 9]\<rparr>)"
proof -
  define fs where "fs = [TYPE_VARINT 3 7]"
  have b: "fields_bytes fs = [24, 7]" unfolding fs_def by code_simp
  have "InternalSerializeUnknownFieldsToArray fs 0 (EpsCopyOutputStream [9, 9, 9] 3)
     = Ok (2, (EpsCopyOutputStream [9, 9, 9] 3)\<lparr>array := [24, 7, 9]\<rparr>)"
    using unknown_fields_serialize [of "EpsCopyOutputStream [9, 9, 9] 3" 0 fs]
    by (simp add: b EpsCopyOutputStream_def out_at_def store_at_def)
  then show ?thesis by (simp only: fs_def)
qed

end
