(* ===== verification/ParseCtx.thy ===== *)
theory ParseCtx
  imports UnknownFields
begin

text \<open>
  \<^verbatim>\<open>EpsCopyInputStream\<close> and \<^verbatim>\<open>ParseContext\<close> (\<^verbatim>\<open>parse_context.h\<close>, \<^verbatim>\<open>parse_context.cc\<close>) on a flat
  input, which is how \<^verbatim>\<open>MessageLite::ParseFromArray\<close> uses them, and the parser of unknown
  fields (\<^verbatim>\<open>FieldParser\<close>, \<^verbatim>\<open>WireFormatParser\<close>, \<^verbatim>\<open>UnknownFieldParserHelper\<close>).

  The parser reads without bounds checks as long as \<^verbatim>\<open>kSlopBytes\<close> bytes are accessible: the
  last 16 bytes of the input are moved to the patch buffer \<^verbatim>\<open>buffer_\<close>, whose other half is
  zero. A pointer is an offset in the region it points to, the caller's array or the patch
  buffer (\<open>on_patch\<close>). \<open>next_chunk\<close> is \<^verbatim>\<open>next_chunk_ != nullptr\<close>; on a flat input it never is
  anything but \<^verbatim>\<open>buffer_\<close>. \<^verbatim>\<open>overall_limit_\<close> is 0, so \<^verbatim>\<open>NextBuffer\<close> does not ask for more
  data, and aliasing is off.
\<close>

section \<open>The input stream\<close>

record parse_ctx =
  flat :: "byte list"
  patch :: "byte list"
  on_patch :: bool
  buffer_end :: int
  limit_end :: int
  next_chunk :: bool
  limit :: int
  last_tag_minus_1 :: u32
  depth :: int
  group_depth :: int

definition region :: "parse_ctx \<Rightarrow> byte list" where
  "region c = (if on_patch c then patch c else flat c)"

text \<open>The bytes accessible from \<open>ptr\<close> on.\<close>

definition from_ptr :: "parse_ctx \<Rightarrow> nat \<Rightarrow> byte list" where
  "from_ptr c ptr = drop ptr (region c)"

definition INT_MIN :: int where "INT_MIN = - 2147483648"

text \<open>
  \<^verbatim>\<open>ParseContext(depth, false, &ptr, input)\<close> with \<^verbatim>\<open>InitFrom(StringPiece)\<close>. The size of the
  piece is a \<^verbatim>\<open>size_t\<close>; \<open>len\<close> is that size as a signed number, because a negative \<^verbatim>\<open>int\<close>
  becomes a huge size that the pointer arithmetic turns into a negative offset again.
\<close>

definition InitFrom :: "int \<Rightarrow> byte list \<Rightarrow> int \<Rightarrow> nat \<times> parse_ctx" where
  "InitFrom d input len =
     (if len < 0 \<or> int kSlopBytes < len then
        (0, \<lparr>flat = input, patch = replicate 32 0, on_patch = False,
             buffer_end = len - int kSlopBytes, limit_end = len - int kSlopBytes,
             next_chunk = True, limit = int kSlopBytes, last_tag_minus_1 = 0,
             depth = d, group_depth = INT_MIN\<rparr>)
      else
        (0, \<lparr>flat = input, patch = take (nat len) input @ drop (nat len) (replicate 32 0), on_patch = True,
             buffer_end = len, limit_end = len,
             next_chunk = False, limit = 0, last_tag_minus_1 = 0,
             depth = d, group_depth = INT_MIN\<rparr>))"

definition NextBuffer :: "parse_ctx \<Rightarrow> (nat \<times> parse_ctx) option" where
  "NextBuffer c =
     (if \<not> next_chunk c then None
      else Some (0, c\<lparr>patch := take kSlopBytes (drop (nat (buffer_end c)) (region c)) @ drop kSlopBytes (patch c),
                      on_patch := True, next_chunk := False, buffer_end := int kSlopBytes\<rparr>))"

definition SetEndOfStream :: "parse_ctx \<Rightarrow> parse_ctx" where
  "SetEndOfStream c = c\<lparr>last_tag_minus_1 := 1\<rparr>"

definition EndedAtLimit :: "parse_ctx \<Rightarrow> bool" where
  "EndedAtLimit c \<longleftrightarrow> last_tag_minus_1 c = 0"

definition EndedAtEndOfStream :: "parse_ctx \<Rightarrow> bool" where
  "EndedAtEndOfStream c \<longleftrightarrow> last_tag_minus_1 c = 1"

definition LastTag :: "parse_ctx \<Rightarrow> u32" where
  "LastTag c = last_tag_minus_1 c + 1"

definition SetLastTag :: "u32 \<Rightarrow> parse_ctx \<Rightarrow> parse_ctx" where
  "SetLastTag tag c = c\<lparr>last_tag_minus_1 := tag - 1\<rparr>"

definition ConsumeEndGroup :: "u32 \<Rightarrow> parse_ctx \<Rightarrow> bool \<times> parse_ctx" where
  "ConsumeEndGroup start_tag c = (last_tag_minus_1 c = start_tag, c\<lparr>last_tag_minus_1 := 0\<rparr>)"

definition Next :: "parse_ctx \<Rightarrow> (nat option \<times> parse_ctx)" where
  "Next c =
     (case NextBuffer c of
        None \<Rightarrow> (None, SetEndOfStream (c\<lparr>limit_end := buffer_end c\<rparr>))
      | Some (p, c) \<Rightarrow>
          let l = limit c - (buffer_end c - int p)
          in (Some p, c\<lparr>limit := l, limit_end := buffer_end c + min 0 l\<rparr>))"

text \<open>The \<^verbatim>\<open>do ... while (overrun >= 0)\<close> of \<^verbatim>\<open>DoneFallback\<close>.\<close>

function DoneFallback_loop :: "int \<Rightarrow> parse_ctx \<Rightarrow> nat option \<times> bool \<times> parse_ctx" where
  "DoneFallback_loop overrun c =
     (case NextBuffer c of
        None \<Rightarrow>
          if overrun \<noteq> 0 then (None, True, c)
          else (Some (nat (buffer_end c)), True, SetEndOfStream (c\<lparr>limit_end := buffer_end c\<rparr>))
      | Some (p, c') \<Rightarrow>
          let c'' = c'\<lparr>limit := limit c' - (buffer_end c' - int p)\<rparr>;
              p' = int p + overrun;
              overrun' = p' - buffer_end c''
          in (if 0 \<le> overrun' then DoneFallback_loop overrun' c''
              else (Some (nat p'), False, c''\<lparr>limit_end := buffer_end c'' + min 0 (limit c'')\<rparr>)))"
  by pat_completeness auto
termination
  by (relation "measure (\<lambda>(overrun, c). if next_chunk c then 1 else 0)")
    (auto simp: NextBuffer_def split: if_splits)

declare DoneFallback_loop.simps [simp del]

definition DoneFallback :: "int \<Rightarrow> int \<Rightarrow> parse_ctx \<Rightarrow> nat option \<times> bool \<times> parse_ctx" where
  "DoneFallback overrun d c =
     (if limit c < overrun then (None, True, c) else DoneFallback_loop overrun c)"

definition DoneWithCheck :: "nat \<Rightarrow> int \<Rightarrow> parse_ctx \<Rightarrow> nat option \<times> bool \<times> parse_ctx" where
  "DoneWithCheck ptr d c =
     (if int ptr < limit_end c then (Some ptr, False, c)
      else let overrun = int ptr - buffer_end c
           in (if overrun = limit c then
                 (if 0 < overrun \<and> \<not> next_chunk c then (None, True, c) else (Some ptr, True, c))
               else DoneFallback overrun d c))"

definition Done :: "nat \<Rightarrow> parse_ctx \<Rightarrow> nat option \<times> bool \<times> parse_ctx" where
  "Done ptr c = DoneWithCheck ptr (group_depth c) c"

text \<open>Copying \<open>n\<close> bytes from \<open>ptr\<close>.\<close>

definition copy_from :: "parse_ctx \<Rightarrow> nat \<Rightarrow> nat \<Rightarrow> byte list pres" where
  "copy_from c ptr n = (if n \<le> length (from_ptr c ptr) then Ok (take n (from_ptr c ptr)) else OOB)"

text \<open>\<^verbatim>\<open>AppendSize\<close>; \<open>str\<close> is what has been appended so far.\<close>

function AppendSize :: "byte list \<Rightarrow> nat \<Rightarrow> int \<Rightarrow> parse_ctx \<Rightarrow> (nat \<times> byte list \<times> parse_ctx) pres" where
  "AppendSize str ptr sz c =
     (let chunk_size = buffer_end c + int kSlopBytes - int ptr
      in (if \<not> next_chunk c then Null
          else pbind (copy_from c ptr (nat chunk_size)) (\<lambda>chunk.
            let sz' = sz - chunk_size
            in (if limit c \<le> int kSlopBytes then Null
                else (case Next c of
                    (None, _) \<Rightarrow> Null
                  | (Some p, c') \<Rightarrow>
                      let ptr' = p + kSlopBytes; chunk_size' = buffer_end c' + int kSlopBytes - int ptr'
                      in (if chunk_size' < sz' then AppendSize (str @ chunk) ptr' sz' c'
                          else pbind (copy_from c' ptr' (nat sz')) (\<lambda>rest.
                            Ok (ptr' + nat sz', str @ chunk @ rest, c'))))))))"
  by pat_completeness auto
termination
  by (relation "measure (\<lambda>(str, ptr, sz, c). if next_chunk c then 1 else 0)")
    (auto simp: Next_def NextBuffer_def Let_def split: if_splits option.splits)

declare AppendSize.simps [simp del]

definition ReadStringFallback :: "nat \<Rightarrow> int \<Rightarrow> parse_ctx \<Rightarrow> (nat \<times> byte list \<times> parse_ctx) pres" where
  "ReadStringFallback ptr sz c = AppendSize [] ptr sz c"

definition AppendStringFallback :: "nat \<Rightarrow> int \<Rightarrow> byte list \<Rightarrow> parse_ctx \<Rightarrow> (nat \<times> byte list \<times> parse_ctx) pres" where
  "AppendStringFallback ptr sz str c = AppendSize str ptr sz c"

definition ReadString :: "nat \<Rightarrow> int \<Rightarrow> parse_ctx \<Rightarrow> (nat \<times> byte list \<times> parse_ctx) pres" where
  "ReadString ptr sz c =
     (if sz \<le> buffer_end c + int kSlopBytes - int ptr then
        pbind (copy_from c ptr (nat sz)) (\<lambda>s. Ok (ptr + nat sz, s, c))
      else ReadStringFallback ptr sz c)"

definition AppendString :: "nat \<Rightarrow> int \<Rightarrow> byte list \<Rightarrow> parse_ctx \<Rightarrow> (nat \<times> byte list \<times> parse_ctx) pres" where
  "AppendString ptr sz str c =
     (if sz \<le> buffer_end c + int kSlopBytes - int ptr then
        pbind (copy_from c ptr (nat sz)) (\<lambda>s. Ok (ptr + nat sz, str @ s, c))
      else AppendStringFallback ptr sz str c)"

definition Skip :: "nat \<Rightarrow> int \<Rightarrow> parse_ctx \<Rightarrow> (nat \<times> parse_ctx) pres" where
  "Skip ptr sz c =
     (if sz \<le> buffer_end c + int kSlopBytes - int ptr then Ok (ptr + nat sz, c)
      else pbind (AppendSize [] ptr sz c) (\<lambda>(ptr, _, c). Ok (ptr, c)))"

text \<open>A primitive reader at \<open>ptr\<close>.\<close>

definition read_at :: "(byte list \<Rightarrow> ('v \<times> nat) pres) \<Rightarrow> nat \<Rightarrow> parse_ctx \<Rightarrow> ('v \<times> nat) pres" where
  "read_at rdr ptr c = pbind (rdr (from_ptr c ptr)) (\<lambda>(v, n). Ok (v, ptr + n))"

definition InlineGreedyStringParser :: "nat \<Rightarrow> parse_ctx \<Rightarrow> (nat \<times> byte list \<times> parse_ctx) pres" where
  "InlineGreedyStringParser ptr c =
     pbind (read_at ReadSize ptr c) (\<lambda>(sz, ptr). ReadString ptr (sint sz) c)"

section \<open>Unknown fields\<close>

text \<open>
  \<^verbatim>\<open>UnknownFieldParserHelper::ParseLengthDelimited\<close>; \<^verbatim>\<open>WireFormatParser\<close> and \<^verbatim>\<open>FieldParser\<close>
  call each other through \<^verbatim>\<open>ParseGroup\<close>. Each turn of the loop reads at least the byte of a
  tag, so the number of bytes of the input is fuel enough (\<open>fuel_enough\<close>).
\<close>

definition ParseLengthDelimited :: "u32 \<Rightarrow> UnknownFieldSet \<Rightarrow> nat \<Rightarrow> parse_ctx
    \<Rightarrow> (nat \<times> UnknownFieldSet \<times> parse_ctx) pres" where
  "ParseLengthDelimited num unknown ptr c =
     pbind (read_at ReadSize ptr c) (\<lambda>(sz, ptr).
     pbind (ReadString ptr (sint sz) c) (\<lambda>(ptr, s, c).
     Ok (ptr, AddLengthDelimited num s unknown, c)))"

function WireFormatParser :: "nat \<Rightarrow> UnknownFieldSet \<Rightarrow> nat \<Rightarrow> parse_ctx \<Rightarrow> (nat \<times> UnknownFieldSet \<times> parse_ctx) pres"
  and FieldParser :: "nat \<Rightarrow> u32 \<Rightarrow> UnknownFieldSet \<Rightarrow> nat \<Rightarrow> parse_ctx \<Rightarrow> (nat \<times> UnknownFieldSet \<times> parse_ctx) pres"
  and ParseGroup :: "nat \<Rightarrow> u32 \<Rightarrow> UnknownFieldSet \<Rightarrow> nat \<Rightarrow> parse_ctx \<Rightarrow> (nat \<times> UnknownFieldSet \<times> parse_ctx) pres"
where
  "WireFormatParser fuel unknown ptr c =
     (case Done ptr c of
        (None, _, _) \<Rightarrow> Null
      | (Some ptr, True, c) \<Rightarrow> Ok (ptr, unknown, c)
      | (Some ptr, False, c) \<Rightarrow>
          (case fuel of 0 \<Rightarrow> NoFuel | Suc fuel \<Rightarrow>
             pbind (read_at ReadTag ptr c) (\<lambda>(tag, ptr).
               if tag = 0 \<or> tag AND 7 = 4 then Ok (ptr, unknown, SetLastTag tag c)
               else pbind (FieldParser fuel tag unknown ptr c) (\<lambda>(ptr, unknown, c).
                    WireFormatParser fuel unknown ptr c))))"
| "FieldParser fuel tag unknown ptr c =
     (let num = drop_bit 3 tag; wt = tag AND 7
      in (if num = 0 then Null
          else if wt = 0 then
            pbind (read_at VarintParse64 ptr c) (\<lambda>(value, ptr). Ok (ptr, AddVarint num value unknown, c))
          else if wt = 1 then
            pbind (read_at ReadFixed64 ptr c) (\<lambda>(value, ptr). Ok (ptr, AddFixed64 num value unknown, c))
          else if wt = 2 then ParseLengthDelimited num unknown ptr c
          else if wt = 3 then ParseGroup fuel num unknown ptr c
          else if wt = 4 then Fatal
          else if wt = 5 then
            pbind (read_at ReadFixed32 ptr c) (\<lambda>(value, ptr). Ok (ptr, AddFixed32 num value unknown, c))
          else Null))"
| "ParseGroup fuel num unknown ptr c =
     (let c1 = c\<lparr>depth := depth c - 1\<rparr>
      in (if depth c1 < 0 then Null
          else pbind (WireFormatParser fuel [] ptr (c1\<lparr>group_depth := group_depth c1 + 1\<rparr>))
            (\<lambda>(ptr, child, c2).
               let c3 = c2\<lparr>group_depth := group_depth c2 - 1, depth := depth c2 + 1\<rparr>;
                   (ok, c4) = ConsumeEndGroup (num * 8 + 3) c3
               in (if \<not> ok then Null else Ok (ptr, AddGroup num child unknown, c4)))))"

  by pat_completeness auto
termination
  by (relation "measure (\<lambda>x. case x of Inl (fuel, _) \<Rightarrow> 3 * fuel
       | Inr (Inl (fuel, _)) \<Rightarrow> 3 * fuel + 2 | Inr (Inr (fuel, _)) \<Rightarrow> 3 * fuel + 1)") auto

declare WireFormatParser.simps [simp del] FieldParser.simps [simp del] ParseGroup.simps [simp del]

definition UnknownFieldParse :: "nat \<Rightarrow> u32 \<Rightarrow> UnknownFieldSet \<Rightarrow> nat \<Rightarrow> parse_ctx
    \<Rightarrow> (nat \<times> UnknownFieldSet \<times> parse_ctx) pres" where
  "UnknownFieldParse fuel tag unknown ptr c = FieldParser fuel tag unknown ptr c"

end
