(* ===== verification/WireSpec.thy ===== *)
theory WireSpec
  imports ParseCtx
begin

text \<open>
  The wire format without buffers: what a parser of tags and values reads from a byte list,
  with a read past its end as \<open>OOB\<close> (truncated input). The slop region, the patch buffer
  and the limits of \<^verbatim>\<open>ParseContext\<close> are invisible here; this theory shows that they make
  no difference: \<^verbatim>\<open>WireFormatParser\<close> on a flat input succeeds exactly when this parser does,
  with the same fields, and on truncated input it either fails at once or stands behind the
  end, which the next \<^verbatim>\<open>Done\<close> rejects.
\<close>

section \<open>The reference parser\<close>

definition spec_read :: "(byte list \<Rightarrow> ('v \<times> nat) pres) \<Rightarrow> byte list \<Rightarrow> nat \<Rightarrow> ('v \<times> nat) pres" where
  "spec_read rdr bs p = pbind (rdr (drop p bs)) (\<lambda>(v, n). Ok (v, p + n))"

definition wp_string :: "byte list \<Rightarrow> nat \<Rightarrow> (nat \<times> byte list) pres" where
  "wp_string bs p =
     pbind (spec_read ReadSize bs p) (\<lambda>(sz, p).
       if p + unat sz \<le> length bs then Ok (p + unat sz, take (unat sz) (drop p bs)) else OOB)"

text \<open>\<open>wp_fields\<close> also returns the tag that ended the run of fields, if one did.\<close>

function wp_fields :: "nat \<Rightarrow> byte list \<Rightarrow> int \<Rightarrow> UnknownFieldSet \<Rightarrow> nat \<Rightarrow> (nat \<times> UnknownFieldSet \<times> u32 option) pres"
  and wp_field :: "nat \<Rightarrow> byte list \<Rightarrow> int \<Rightarrow> u32 \<Rightarrow> UnknownFieldSet \<Rightarrow> nat \<Rightarrow> (nat \<times> UnknownFieldSet) pres"
where
  "wp_fields fuel bs d ufs p =
     (if length bs \<le> p then Ok (p, ufs, None)
      else (case fuel of 0 \<Rightarrow> NoFuel | Suc fuel \<Rightarrow>
        pbind (spec_read ReadTag bs p) (\<lambda>(tag, p).
          if tag = 0 \<or> tag AND 7 = 4 then Ok (p, ufs, Some tag)
          else pbind (wp_field fuel bs d tag ufs p) (\<lambda>(p, ufs). wp_fields fuel bs d ufs p))))"
| "wp_field fuel bs d tag ufs p =
     (let num = drop_bit 3 tag; wt = tag AND 7
      in (if num = 0 then Null
          else if wt = 0 then
            pbind (spec_read VarintParse64 bs p) (\<lambda>(v, p). Ok (p, ufs @ [TYPE_VARINT num v]))
          else if wt = 1 then
            pbind (spec_read ReadFixed64 bs p) (\<lambda>(v, p). Ok (p, ufs @ [TYPE_FIXED64 num v]))
          else if wt = 2 then
            pbind (wp_string bs p) (\<lambda>(p, s). Ok (p, ufs @ [TYPE_LENGTH_DELIMITED num s]))
          else if wt = 3 then
            (if d - 1 < 0 then Null
             else pbind (wp_fields fuel bs (d - 1) [] p) (\<lambda>(p, grp, t).
                    if t = Some (num * 8 + 4) then Ok (p, ufs @ [TYPE_GROUP num grp]) else Null))
          else if wt = 4 then Fatal
          else if wt = 5 then
            pbind (spec_read ReadFixed32 bs p) (\<lambda>(v, p). Ok (p, ufs @ [TYPE_FIXED32 num v]))
          else Null))"
  by pat_completeness auto
termination
  by (relation "measure (\<lambda>x. case x of Inl (fuel, _) \<Rightarrow> 2 * fuel | Inr (fuel, _) \<Rightarrow> 2 * fuel + 1)") auto

declare wp_fields.simps [simp del] wp_field.simps [simp del]

section \<open>Where the parser stands\<close>

definition zeros :: "nat \<Rightarrow> byte list" where
  "zeros n = replicate n 0"

text \<open>In the caller's array, with 16 bytes held back; or in the patch buffer with the last \<open>m\<close> bytes.\<close>

definition stageA :: "byte list \<Rightarrow> parse_ctx \<Rightarrow> bool" where
  "stageA bs c \<longleftrightarrow> \<not> on_patch c \<and> flat c = bs \<and> 16 < length bs \<and> buffer_end c = int (length bs) - 16
     \<and> limit_end c = buffer_end c \<and> limit c = 16 \<and> next_chunk c
     \<and> length (patch c) = 32 \<and> drop 16 (patch c) = zeros 16"

definition stageB :: "byte list \<Rightarrow> nat \<Rightarrow> parse_ctx \<Rightarrow> bool" where
  "stageB bs m c \<longleftrightarrow> on_patch c \<and> m \<le> 16 \<and> m \<le> length bs
     \<and> patch c = drop (length bs - m) bs @ zeros (32 - m)
     \<and> buffer_end c = int m \<and> limit_end c = int m \<and> limit c = 0 \<and> \<not> next_chunk c"

definition sim :: "byte list \<Rightarrow> parse_ctx \<Rightarrow> nat \<Rightarrow> nat \<Rightarrow> bool" where
  "sim bs c ptr p \<longleftrightarrow> p \<le> length bs \<and>
     (stageA bs c \<and> ptr = p \<or> (\<exists>m. stageB bs m c \<and> ptr + length bs = p + m))"

text \<open>Behind the end, by at most \<open>k\<close> bytes.\<close>

definition over :: "byte list \<Rightarrow> nat \<Rightarrow> parse_ctx \<Rightarrow> nat \<Rightarrow> bool" where
  "over bs k c ptr \<longleftrightarrow> (\<exists>m. stageB bs m c \<and> m < ptr \<and> ptr \<le> m + k)"

lemma sim_SetLastTag: "sim bs (SetLastTag tag c) ptr p = sim bs c ptr p"
  by (simp add: sim_def stageA_def stageB_def SetLastTag_def)

lemma over_SetLastTag: "over bs k (SetLastTag tag c) ptr = over bs k c ptr"
  by (simp add: over_def stageB_def SetLastTag_def)

lemma over_mono: "over bs k c ptr \<Longrightarrow> k \<le> l \<Longrightarrow> over bs l c ptr"
  by (auto simp: over_def)

lemma sim_InitFrom:
  assumes "InitFrom d bs (int (length bs)) = (ptr, c)"
  shows "sim bs c ptr 0" "depth c = d" "last_tag_minus_1 c = 0"
proof -
  have z: "drop k (replicate 32 (0 :: byte)) = zeros (32 - k)" for k by (simp add: zeros_def)
  have "stageA bs c \<and> ptr = 0 \<or> stageB bs (length bs) c \<and> ptr = 0"
    using assms z [of 16] z [of "length bs"]
    by (auto simp: InitFrom_def stageA_def stageB_def kSlopBytes_def split: if_splits)
  then show "sim bs c ptr 0" by (auto simp: sim_def)
  show "depth c = d" "last_tag_minus_1 c = 0"
    using assms by (auto simp: InitFrom_def split: if_splits)
qed

text \<open>What can be read: the rest of the input, followed by zeros in the patch buffer.\<close>

lemma sim_from_ptr:
  assumes "sim bs c ptr p"
  obtains (A) "stageA bs c" "ptr = p" "from_ptr c ptr = drop p bs"
    | (B) m where "stageB bs m c" "ptr + length bs = p + m" "ptr \<le> m"
        "from_ptr c ptr = drop p bs @ zeros (32 - m)"
proof -
  from assms have p: "p \<le> length bs" by (simp add: sim_def)
  from assms consider "stageA bs c" "ptr = p" | m where "stageB bs m c" "ptr + length bs = p + m"
    by (auto simp: sim_def)
  then show thesis
  proof cases
    case 1
    then show thesis using A by (simp add: stageA_def from_ptr_def region_def)
  next
    case (2 m)
    then have "ptr \<le> m" "ptr + (length bs - m) = p" using p by (auto simp: stageB_def)
    then have "from_ptr c ptr = drop p bs @ zeros (32 - m)"
      using 2 by (simp add: stageB_def from_ptr_def region_def)
    with 2 \<open>ptr \<le> m\<close> B show thesis by blast
  qed
qed

lemma over_from_ptr: "over bs k c ptr \<Longrightarrow> k \<le> 16 \<Longrightarrow> 16 - k \<le> length (from_ptr c ptr)"
  by (auto simp: over_def stageB_def from_ptr_def region_def zeros_def)

section \<open>The end test\<close>

lemma Done_over: "over bs k c ptr \<Longrightarrow> Done ptr c = (None, True, c)"
  by (auto simp: over_def stageB_def Done_def DoneWithCheck_def DoneFallback_def)

lemma Done_end:
  "sim bs c ptr p \<Longrightarrow> p = length bs \<Longrightarrow> Done ptr c = (Some ptr, True, c)"
  by (auto simp: sim_def stageA_def stageB_def Done_def DoneWithCheck_def)

lemma flip:
  assumes "stageA bs c" and "length bs - 16 \<le> p" and "p < length bs"
  shows "\<exists>c'. Done p c = (Some (p + 16 - length bs), False, c') \<and> stageB bs 16 c'
     \<and> depth c' = depth c \<and> group_depth c' = group_depth c \<and> last_tag_minus_1 c' = last_tag_minus_1 c"
proof -
  let ?o = "int p - (int (length bs) - 16)"
  let ?c = "c\<lparr>patch := drop (length bs - 16) bs @ zeros 16, on_patch := True, next_chunk := False,
       buffer_end := 16\<rparr>"
  have len: "16 < length bs" using assms(1) by (simp add: stageA_def)
  have nb: "NextBuffer c = Some (0, ?c)"
    using assms(1) by (simp add: NextBuffer_def stageA_def region_def kSlopBytes_def nat_diff_distrib')
  have "Done p c = DoneFallback_loop ?o c"
    using assms by (auto simp: Done_def DoneWithCheck_def DoneFallback_def stageA_def Let_def)
  also have "\<dots> = (Some (nat ?o), False, ?c\<lparr>limit := 0, limit_end := 16\<rparr>)"
    using assms nb by (subst DoneFallback_loop.simps) (simp add: Let_def stageA_def)
  also have "nat ?o = p + 16 - length bs" using assms(2) len by simp
  finally show ?thesis
    using assms len by (intro exI [of _ "?c\<lparr>limit := 0, limit_end := 16\<rparr>"]) (simp add: stageB_def)
qed

lemma Done_more:
  assumes "sim bs c ptr p" and "p < length bs"
  obtains ptr' c' where "Done ptr c = (Some ptr', False, c')" "sim bs c' ptr' p"
    "16 < length (from_ptr c' ptr')" "depth c' = depth c" "group_depth c' = group_depth c"
    "last_tag_minus_1 c' = last_tag_minus_1 c"
  using assms(1)
proof (cases rule: sim_from_ptr)
  case A
  show thesis
  proof (cases "p < length bs - 16")
    case True
    then have "Done ptr c = (Some ptr, False, c)"
      using A by (auto simp: Done_def DoneWithCheck_def stageA_def)
    then show thesis using that [of ptr c] A True assms by simp
  next
    case False
    then obtain c' where c': "Done ptr c = (Some (p + 16 - length bs), False, c')" "stageB bs 16 c'"
      "depth c' = depth c" "group_depth c' = group_depth c" "last_tag_minus_1 c' = last_tag_minus_1 c"
      using flip [OF A(1) _ assms(2)] A(2) by auto
    have len: "16 < length bs" using A(1) by (simp add: stageA_def)
    then have s: "sim bs c' (p + 16 - length bs) p"
      using c'(2) assms(2) False by (auto simp: sim_def)
    have "16 < length (from_ptr c' (p + 16 - length bs))"
      using c'(2) assms(2) by (simp add: from_ptr_def region_def stageB_def zeros_def)
    with c' s that show thesis by blast
  qed
next
  case (B m)
  then have "Done ptr c = (Some ptr, False, c)"
    using assms(2) by (auto simp: Done_def DoneWithCheck_def stageB_def)
  moreover have "16 < length (from_ptr c ptr)"
    using B assms(2) by (auto simp: stageB_def zeros_def)
  ultimately show thesis using that [of ptr c] assms by simp
qed

section \<open>Primitive values\<close>

context wire_reader
begin

text \<open>With \<open>m\<close> bytes accessible a reader agrees with the reference or runs over the end.\<close>

lemma read_sim:
  assumes "sim bs c ptr p" and "m \<le> length (from_ptr c ptr)"
  shows "(\<exists>v n. spec_read rdr bs p = Ok (v, p + n) \<and> read_at rdr ptr c = Ok (v, ptr + n) \<and> n \<le> m
            \<and> 0 < n \<and> sim bs c (ptr + n) (p + n))
    \<or> spec_read rdr bs p = Null \<and> read_at rdr ptr c = Null
    \<or> spec_read rdr bs p = OOB \<and> read_at rdr ptr c = Null
    \<or> spec_read rdr bs p = OOB \<and> (\<exists>v n. read_at rdr ptr c = Ok (v, ptr + n) \<and> over bs m c (ptr + n))"
  using assms(1)
proof (cases rule: sim_from_ptr)
  case A
  then have "rdr (drop p bs) \<noteq> OOB" using assms(2) enough by simp
  then show ?thesis
    using A assms(1) by (cases rule: cases_read [of "drop p bs"])
      (auto simp: spec_read_def read_at_def sim_def)
next
  case (B k)
  show ?thesis
  proof (cases rule: cases_read [of "drop p bs"])
    case (ok v n)
    then have "sim bs c (ptr + n) (p + n)" using B assms(1) by (auto simp: sim_def)
    then show ?thesis using ok B ok_append [OF ok(1)] by (simp add: spec_read_def read_at_def)
  next
    case null
    then show ?thesis using B null_append [OF null] by (simp add: spec_read_def read_at_def)
  next
    case oob
    have "rdr (from_ptr c ptr) \<noteq> OOB" using enough assms(2) by blast
    then consider "rdr (from_ptr c ptr) = Null"
      | v n where "rdr (from_ptr c ptr) = Ok (v, n)" "length (drop p bs) < n"
      using padded [OF oob(1), of "zeros (32 - k)"] B by auto
    then show ?thesis
    proof cases
      case 1
      then show ?thesis using oob by (simp add: spec_read_def read_at_def)
    next
      case (2 v n)
      have "n \<le> m" using ok_bounds [OF 2(1)] by simp
      moreover have "length bs < p + n" using 2(2) assms(1) by (simp add: sim_def)
      ultimately have "over bs m c (ptr + n)"
        using B by (auto simp: over_def intro!: exI [of _ k])
      then show ?thesis using 2 oob by (simp add: spec_read_def read_at_def)
    qed
  qed
qed

lemma read_over:
  assumes "over bs k c ptr" and "k + m \<le> 16"
  shows "read_at rdr ptr c = Null \<or> (\<exists>v n. read_at rdr ptr c = Ok (v, ptr + n) \<and> over bs (k + m) c (ptr + n))"
proof -
  have "m \<le> length (from_ptr c ptr)" using over_from_ptr [OF assms(1)] assms(2) by simp
  then show ?thesis
    using assms(1) by (cases rule: cases_read [of "from_ptr c ptr"])
      (auto simp: read_at_def over_def)
qed

lemma read_over16:
  "over bs k c ptr \<Longrightarrow> k + m \<le> 16 \<Longrightarrow>
     read_at rdr ptr c = Null \<or> (\<exists>v n. read_at rdr ptr c = Ok (v, ptr + n) \<and> over bs 16 c (ptr + n))"
  using read_over [of bs k c ptr] over_mono by blast

end

section \<open>Strings\<close>

lemma ReadSize_bound:
  assumes "ReadSize p = Ok (v, n)"
  shows "unat v \<le> 2147483631" "sint v = int (unat v)"
proof -
  from assms have v: "v = of_nat (vvalue p)" "vvalue p \<le> 2147483631"
    by (auto simp: ReadSize_eq size_spec_def INT_MAX_def kSlopBytes_def split: if_splits)
  then have "unat v = vvalue p" by (simp only: v(1)) (rule unat_of_nat_u32, simp)
  with v show "unat v \<le> 2147483631" by simp
  show "sint v = int (unat v)"
    using v \<open>unat v = vvalue p\<close> sint_of_nat_i32 [of "vvalue p"] by simp
qed

lemma AppendSize_null:
  assumes "\<not> next_chunk c \<or> limit c \<le> 16" and "nat (buffer_end c + 16 - int ptr) \<le> length (from_ptr c ptr)"
  shows "AppendSize str ptr sz c = Null"
  using assms by (subst AppendSize.simps) (auto simp: Let_def copy_from_def kSlopBytes_def)

lemma ReadString_sim:
  assumes "sim bs c ptr p"
  shows "ReadString ptr (int n) c = Null \<and> length bs < p + n
    \<or> (\<exists>s. ReadString ptr (int n) c = Ok (ptr + n, s, c) \<and>
         (if p + n \<le> length bs then s = take n (drop p bs) \<and> sim bs c (ptr + n) (p + n)
          else over bs 16 c (ptr + n)))"
  using assms
proof (cases rule: sim_from_ptr)
  case A
  have p: "p \<le> length bs" using assms by (simp add: sim_def)
  show ?thesis
  proof (cases "p + n \<le> length bs")
    case True
    then have "sim bs c (ptr + n) (p + n)" using A by (simp add: sim_def)
    then show ?thesis
      using A True by (auto simp: ReadString_def copy_from_def stageA_def kSlopBytes_def)
  next
    case False
    have "AppendSize [] ptr (int n) c = Null"
      using A p by (intro AppendSize_null) (auto simp: stageA_def)
    then show ?thesis
      using A False by (auto simp: ReadString_def ReadStringFallback_def stageA_def kSlopBytes_def)
  qed
next
  case (B m)
  have len: "length (from_ptr c ptr) = 32 - ptr"
    using B by (simp add: from_ptr_def region_def stageB_def zeros_def)
  have m: "m \<le> 16" "m \<le> length bs" "buffer_end c = int m" "\<not> next_chunk c"
    using B(1) by (auto simp: stageB_def)
  show ?thesis
  proof (cases "ptr + n \<le> m + 16")
    case True
    then have r: "ReadString ptr (int n) c = Ok (ptr + n, take n (from_ptr c ptr), c)"
      using B(3) m len by (simp add: ReadString_def copy_from_def kSlopBytes_def)
    show ?thesis
    proof (cases "p + n \<le> length bs")
      case in_: True
      then have "sim bs c (ptr + n) (p + n)" using B by (auto simp: sim_def)
      then show ?thesis using r in_ B(4) by simp
    next
      case False
      then have "m < ptr + n" using B(2) m by simp
      then have "over bs 16 c (ptr + n)" using True B(1) by (auto simp: over_def)
      with False r show ?thesis by simp
    qed
  next
    case False
    have "AppendSize [] ptr (int n) c = Null"
      using B(3) m len by (intro AppendSize_null) auto
    moreover have "length bs < p + n" using False B(2) m by simp
    ultimately show ?thesis
      using False m by (simp add: ReadString_def ReadStringFallback_def kSlopBytes_def)
  qed
qed

lemma ReadString_over:
  assumes "over bs k c ptr" and "k \<le> 16"
  shows "ReadString ptr (int n) c = Null
    \<or> (\<exists>s. ReadString ptr (int n) c = Ok (ptr + n, s, c) \<and> over bs 16 c (ptr + n))"
proof -
  from assms obtain m where m: "stageB bs m c" "m < ptr" "ptr \<le> m + k" by (auto simp: over_def)
  then have st: "m \<le> 16" "m \<le> length bs" "buffer_end c = int m" "\<not> next_chunk c"
    and len: "length (from_ptr c ptr) = 32 - ptr"
    by (auto simp: stageB_def from_ptr_def region_def zeros_def)
  show ?thesis
  proof (cases "ptr + n \<le> m + 16")
    case True
    then have "ReadString ptr (int n) c = Ok (ptr + n, take n (from_ptr c ptr), c)"
      using st len by (simp add: ReadString_def copy_from_def kSlopBytes_def)
    moreover have "over bs 16 c (ptr + n)" using True m by (auto simp: over_def)
    ultimately show ?thesis by simp
  next
    case False
    have "AppendSize [] ptr (int n) c = Null"
      using st len by (intro AppendSize_null) auto
    then show ?thesis
      using False st by (simp add: ReadString_def ReadStringFallback_def kSlopBytes_def)
  qed
qed

lemma read_size_sint:
  "read_at ReadSize ptr c = Ok (sz, ptr') \<Longrightarrow> sint sz = int (unat sz)"
  by (auto simp: read_at_def pbind_eq_Ok ReadSize_bound)

lemma string_sim:
  assumes "sim bs c ptr p" and "5 \<le> length (from_ptr c ptr)"
  shows "(\<exists>p' s ptr'. wp_string bs p = Ok (p', s) \<and> InlineGreedyStringParser ptr c = Ok (ptr', s, c)
            \<and> sim bs c ptr' p')
    \<or> wp_string bs p \<noteq> NoFuel \<and> wp_string bs p \<noteq> Fatal \<and> (\<forall>x. wp_string bs p \<noteq> Ok x)
        \<and> InlineGreedyStringParser ptr c = Null
    \<or> wp_string bs p = OOB \<and> (\<exists>s ptr'. InlineGreedyStringParser ptr c = Ok (ptr', s, c) \<and> over bs 16 c ptr')"
  using size_rd.read_sim [OF assms]
proof (elim disjE exE conjE)
  fix v n
  assume v: "spec_read ReadSize bs p = Ok (v, p + n)" "read_at ReadSize ptr c = Ok (v, ptr + n)"
    "sim bs c (ptr + n) (p + n)"
  have sv: "sint v = int (unat v)" using v(2) by (rule read_size_sint)
  show ?thesis
    using ReadString_sim [OF v(3), of "unat v"] v
    by (auto simp: wp_string_def InlineGreedyStringParser_def sv split: if_splits)
next
  fix v n
  assume v: "spec_read ReadSize bs p = OOB" "read_at ReadSize ptr c = Ok (v, ptr + n)"
    "over bs 5 c (ptr + n)"
  have sv: "sint v = int (unat v)" using v(2) by (rule read_size_sint)
  show ?thesis
    using ReadString_over [OF v(3), of "unat v"] v
    by (auto simp: wp_string_def InlineGreedyStringParser_def sv)
qed (auto simp: wp_string_def InlineGreedyStringParser_def)

lemma string_over:
  assumes "over bs k c ptr" and "k \<le> 11"
  shows "InlineGreedyStringParser ptr c = Null
    \<or> (\<exists>s ptr'. InlineGreedyStringParser ptr c = Ok (ptr', s, c) \<and> over bs 16 c ptr')"
proof -
  have "k + 5 \<le> 16" using assms(2) by simp
  from size_rd.read_over [OF assms(1) this] show ?thesis
  proof (elim disjE exE conjE)
    fix v n assume v: "read_at ReadSize ptr c = Ok (v, ptr + n)" "over bs (k + 5) c (ptr + n)"
    have sv: "sint v = int (unat v)" using v(1) by (rule read_size_sint)
    show ?thesis
      using ReadString_over [OF v(2), of "unat v"] v assms(2)
      by (auto simp: InlineGreedyStringParser_def sv)
  qed (simp add: InlineGreedyStringParser_def)
qed

lemma ParseLengthDelimited_eq:
  "ParseLengthDelimited num unknown ptr c =
     pbind (InlineGreedyStringParser ptr c) (\<lambda>(ptr, s, c). Ok (ptr, AddLengthDelimited num s unknown, c))"
  unfolding ParseLengthDelimited_def InlineGreedyStringParser_def pbind_assoc
  by (rule pbind_cong) auto

section \<open>Fields\<close>

definition ends_with :: "u32 option \<Rightarrow> u32" where
  "ends_with t = (case t of None \<Rightarrow> 0 | Some tag \<Rightarrow> tag - 1)"

text \<open>The parser's result against the reference's.\<close>

definition agree :: "byte list \<Rightarrow> int \<Rightarrow> int \<Rightarrow> (nat \<times> 'x \<times> u32 option) pres \<Rightarrow> (nat \<times> 'x \<times> parse_ctx) pres \<Rightarrow> bool" where
  "agree bs d gd S R \<longleftrightarrow> (case S of
     Ok (p', x, t) \<Rightarrow> (\<exists>ptr' c'. R = Ok (ptr', x, c') \<and> sim bs c' ptr' p' \<and> depth c' = d
        \<and> group_depth c' = gd \<and> last_tag_minus_1 c' = ends_with t)
   | Null \<Rightarrow> R = Null
   | OOB \<Rightarrow> R = Null \<or> (\<exists>ptr' x c'. R = Ok (ptr', x, c') \<and> over bs 16 c' ptr')
   | Fatal \<Rightarrow> False
   | NoFuel \<Rightarrow> True)"

lemma WireFormatParser_over: "over bs k c ptr \<Longrightarrow> WireFormatParser fuel ufs ptr c = Null"
  by (subst WireFormatParser.simps) (simp add: Done_over)

lemma FieldParser_over:
  assumes "over bs 5 c ptr" and "tag AND 7 \<noteq> 4"
  shows "FieldParser fuel tag ufs ptr c = Null
    \<or> (\<exists>ptr' x c'. FieldParser fuel tag ufs ptr c = Ok (ptr', x, c') \<and> over bs 16 c' ptr')"
proof -
  have g: "ParseGroup fuel num ufs ptr c = Null" for num
  proof -
    have "over bs 5 (c\<lparr>depth := depth c - 1, group_depth := group_depth c + 1\<rparr>) ptr"
      using assms(1) by (simp add: over_def stageB_def)
    then show ?thesis by (subst ParseGroup.simps) (simp add: Let_def WireFormatParser_over)
  qed
  define num wt where "num = drop_bit 3 tag" and "wt = tag AND 7"
  consider "num = 0 \<or> wt \<notin> {0, 1, 2, 3, 4, 5}" | "num \<noteq> 0" "wt = 0" | "num \<noteq> 0" "wt = 1" | "num \<noteq> 0" "wt = 2"
    | "num \<noteq> 0" "wt = 3" | "num \<noteq> 0" "wt = 5"
    using assms(2) by (auto simp: wt_def)
  then show ?thesis
  proof cases
    case 1
    then show ?thesis by (subst FieldParser.simps) (auto simp: num_def wt_def Let_def)
  next
    case 2
    then show ?thesis using v64_rd.read_over16 [OF assms(1)]
      by (subst (1 2) FieldParser.simps) (auto simp: num_def wt_def Let_def)
  next
    case 3
    then show ?thesis using f64_rd.read_over16 [OF assms(1)]
      by (subst (1 2) FieldParser.simps) (auto simp: num_def wt_def Let_def)
  next
    case 4
    then show ?thesis using string_over [OF assms(1)]
      by (subst (1 2) FieldParser.simps) (auto simp: num_def wt_def Let_def ParseLengthDelimited_eq)
  next
    case 5
    then show ?thesis using g by (subst FieldParser.simps) (simp add: num_def wt_def Let_def)
  next
    case 6
    then show ?thesis using f32_rd.read_over16 [OF assms(1)]
      by (subst (1 2) FieldParser.simps) (auto simp: num_def wt_def Let_def)
  qed
qed

context wire_reader
begin

lemma prim_agree:
  assumes "sim bs c ptr p" and "m \<le> length (from_ptr c ptr)" and "m \<le> 16" and "last_tag_minus_1 c = 0"
  shows "agree bs (depth c) (group_depth c)
    (pbind (spec_read rdr bs p) (\<lambda>(v, p). Ok (p, f v, None)))
    (pbind (read_at rdr ptr c) (\<lambda>(v, ptr). Ok (ptr, f v, c)))"
  using read_sim [OF assms(1,2)] assms(3,4) over_mono [OF _ assms(3)]
  by (auto simp: agree_def ends_with_def)

end

lemma string_agree:
  assumes "sim bs c ptr p" and "5 \<le> length (from_ptr c ptr)" and "last_tag_minus_1 c = 0"
  shows "agree bs (depth c) (group_depth c)
    (pbind (wp_string bs p) (\<lambda>(p, s). Ok (p, f s, None)))
    (pbind (InlineGreedyStringParser ptr c) (\<lambda>(ptr, s, c). Ok (ptr, f s, c)))"
  using string_sim [OF assms(1,2)] assms(3)
  by (cases "wp_string bs p") (auto simp: agree_def ends_with_def)

lemma agree_bind:
  assumes "agree bs d gd S R"
    and "\<And>p x t ptr c. S = Ok (p, x, t) \<Longrightarrow> R = Ok (ptr, x, c) \<Longrightarrow> sim bs c ptr p \<Longrightarrow> depth c = d \<Longrightarrow> group_depth c = gd
       \<Longrightarrow> last_tag_minus_1 c = ends_with t \<Longrightarrow> agree bs d' gd' (f (p, x, t)) (g (ptr, x, c))"
    and "\<And>ptr x c. over bs 16 c ptr \<Longrightarrow> g (ptr, x, c) = Null \<or> (\<exists>ptr' y c'. g (ptr, x, c) = Ok (ptr', y, c') \<and> over bs 16 c' ptr')"
  shows "agree bs d' gd' (pbind S f) (pbind R g)"
proof (cases S)
  case (Ok a)
  obtain p x t where a: "a = (p, x, t)" by (cases a)
  from assms(1) Ok a obtain ptr c where R: "R = Ok (ptr, x, c)" "sim bs c ptr p" "depth c = d"
    "group_depth c = gd" "last_tag_minus_1 c = ends_with t" by (auto simp: agree_def)
  then show ?thesis using assms(2) [of p x t ptr c] Ok a by simp
next
  case OOB
  with assms(1) consider "R = Null" | ptr x c where "R = Ok (ptr, x, c)" "over bs 16 c ptr"
    by (auto simp: agree_def)
  then show ?thesis
    using assms(3) OOB by cases (fastforce simp: agree_def)+
qed (use assms(1) in \<open>auto simp: agree_def\<close>)

definition agree_fields :: "nat \<Rightarrow> byte list \<Rightarrow> int \<Rightarrow> UnknownFieldSet \<Rightarrow> nat \<Rightarrow> bool" where
  "agree_fields fuel bs d ufs p \<longleftrightarrow> (\<forall>ptr c. sim bs c ptr p \<and> depth c = d \<and> last_tag_minus_1 c = 0 \<longrightarrow>
     agree bs d (group_depth c) (wp_fields fuel bs d ufs p) (WireFormatParser fuel ufs ptr c))"

definition agree_field :: "nat \<Rightarrow> byte list \<Rightarrow> int \<Rightarrow> u32 \<Rightarrow> UnknownFieldSet \<Rightarrow> nat \<Rightarrow> bool" where
  "agree_field fuel bs d tag ufs p \<longleftrightarrow> (\<forall>ptr c. sim bs c ptr p \<and> depth c = d \<and> last_tag_minus_1 c = 0
      \<and> 10 \<le> length (from_ptr c ptr) \<and> tag AND 7 \<noteq> 4 \<longrightarrow>
     agree bs d (group_depth c) (pbind (wp_field fuel bs d tag ufs p) (\<lambda>(p, ufs). Ok (p, ufs, None)))
       (FieldParser fuel tag ufs ptr c))"

lemma agree_fieldsD:
  "agree_fields fuel bs d ufs p \<Longrightarrow> sim bs c ptr p \<Longrightarrow> depth c = d \<Longrightarrow> last_tag_minus_1 c = 0 \<Longrightarrow>
     group_depth c = gd \<Longrightarrow> agree bs d gd (wp_fields fuel bs d ufs p) (WireFormatParser fuel ufs ptr c)"
  unfolding agree_fields_def by blast

lemma agree_fieldD:
  "agree_field fuel bs d tag ufs p \<Longrightarrow> sim bs c ptr p \<Longrightarrow> depth c = d \<Longrightarrow> last_tag_minus_1 c = 0 \<Longrightarrow>
     10 \<le> length (from_ptr c ptr) \<Longrightarrow> tag AND 7 \<noteq> 4 \<Longrightarrow> group_depth c = gd \<Longrightarrow>
     agree bs d gd (pbind (wp_field fuel bs d tag ufs p) (\<lambda>(p, ufs). Ok (p, ufs, None)))
       (FieldParser fuel tag ufs ptr c)"
  unfolding agree_field_def by blast

lemma group_tag: "(num :: u32) * 8 + 4 - 1 = num * 8 + 3"
  by simp

lemma group_end:
  assumes "num \<noteq> 0" and "num = drop_bit 3 (tag :: u32)"
  shows "ends_with t = num * 8 + 3 \<longleftrightarrow> t = Some (num * 8 + 4)"
proof -
  have "num * 8 + 3 \<noteq> 0"
  proof
    assume "num * 8 + 3 = 0"
    then have "bit (num * 8 + 3) 0 = False" by simp
    moreover have "odd (num * 8 + 3)" by simp
    ultimately show False by (simp add: bit_0)
  qed
  then show ?thesis
    by (auto simp: ends_with_def algebra_simps split: option.splits)
qed

lemma agree_group:
  assumes IH: "0 \<le> d - 1 \<Longrightarrow> agree_fields fuel bs (d - 1) [] p"
    and c: "sim bs c ptr p" "depth c = d" "last_tag_minus_1 c = 0"
    and num: "num \<noteq> 0" "num = drop_bit 3 (tag :: u32)"
  shows "agree bs d (group_depth c)
    (if d - 1 < 0 then Null else pbind (wp_fields fuel bs (d - 1) [] p) (\<lambda>(p, grp, t).
       if t = Some (num * 8 + 4) then Ok (p, ufs @ [TYPE_GROUP num grp], None) else Null))
    (ParseGroup fuel num ufs ptr c)"
proof (cases "d - 1 < 0")
  case True
  then show ?thesis using c by (subst ParseGroup.simps) (simp add: agree_def Let_def)
next
  case False
  let ?c = "c\<lparr>depth := d - 1, group_depth := group_depth c + 1\<rparr>"
  have "sim bs ?c ptr p" using c(1) by (simp add: sim_def stageA_def stageB_def)
  then have a: "agree bs (d - 1) (group_depth c + 1) (wp_fields fuel bs (d - 1) [] p) (WireFormatParser fuel [] ptr ?c)"
    using IH False c by (intro agree_fieldsD) simp_all
  have "agree bs d (group_depth c)
    (pbind (wp_fields fuel bs (d - 1) [] p) (\<lambda>(p, grp, t).
       if t = Some (num * 8 + 4) then Ok (p, ufs @ [TYPE_GROUP num grp], None) else Null))
    (pbind (WireFormatParser fuel [] ptr ?c) (\<lambda>(ptr, child, c2).
               let c3 = c2\<lparr>group_depth := group_depth c2 - 1, depth := depth c2 + 1\<rparr>;
                   (ok, c4) = ConsumeEndGroup (num * 8 + 3) c3
               in (if \<not> ok then Null else Ok (ptr, AddGroup num child ufs, c4))))"
  proof (rule agree_bind [OF a])
    fix p' x t ptr' c'
    assume "sim bs c' ptr' p'" "depth c' = d - 1" "group_depth c' = group_depth c + 1"
      "last_tag_minus_1 c' = ends_with t"
    then show "agree bs d (group_depth c)
      (case (p', x, t) of (p, grp, t) \<Rightarrow>
         if t = Some (num * 8 + 4) then Ok (p, ufs @ [TYPE_GROUP num grp], None) else Null)
      (case (ptr', x, c') of (ptr, child, c2) \<Rightarrow>
         let c3 = c2\<lparr>group_depth := group_depth c2 - 1, depth := depth c2 + 1\<rparr>;
             (ok, c4) = ConsumeEndGroup (num * 8 + 3) c3
         in (if \<not> ok then Null else Ok (ptr, AddGroup num child ufs, c4)))"
      using group_end [OF num, of t]
      by (auto simp: ConsumeEndGroup_def agree_def AddGroup_def Let_def sim_def stageA_def stageB_def)
        (auto simp: ends_with_def)
  next
    fix ptr' x c'
    assume "over bs 16 c' ptr'"
    then show "(case (ptr', x, c') of (ptr, child, c2) \<Rightarrow>
         let c3 = c2\<lparr>group_depth := group_depth c2 - 1, depth := depth c2 + 1\<rparr>;
             (ok, c4) = ConsumeEndGroup (num * 8 + 3) c3
         in (if \<not> ok then Null else Ok (ptr, AddGroup num child ufs, c4))) = Null \<or>
       (\<exists>ptr'' y c''. (case (ptr', x, c') of (ptr, child, c2) \<Rightarrow>
         let c3 = c2\<lparr>group_depth := group_depth c2 - 1, depth := depth c2 + 1\<rparr>;
             (ok, c4) = ConsumeEndGroup (num * 8 + 3) c3
         in (if \<not> ok then Null else Ok (ptr, AddGroup num child ufs, c4))) = Ok (ptr'', y, c'')
         \<and> over bs 16 c'' ptr'')"
      by (auto simp: ConsumeEndGroup_def Let_def over_def stageB_def)
  qed
  then show ?thesis using False c by (subst ParseGroup.simps) (simp add: Let_def)
qed

lemma field_pbind:
  "pbind (pbind m (\<lambda>(v, p). Ok (p, f v))) (\<lambda>(p, ufs). Ok (p, ufs, None))
     = pbind m (\<lambda>(v, p). Ok (p, f v, None))"
  "pbind (pbind m' (\<lambda>(p, s). Ok (p, g s))) (\<lambda>(p, ufs). Ok (p, ufs, None))
     = pbind m' (\<lambda>(p, s). Ok (p, g s, None))"
  by (cases m; auto split: prod.splits) (cases m'; auto split: prod.splits)

lemma parser_agrees:
  "agree_fields fuel bs d ufs p" "agree_field fuel bs d tag ufs p"
proof (induction fuel bs d ufs p and fuel bs d tag ufs p rule: wp_fields_wp_field.induct)
  case (1 fuel bs d ufs p)
  show ?case unfolding agree_fields_def
  proof (intro allI impI, elim conjE)
    fix ptr c
    assume c: "sim bs c ptr p" "depth c = d" "last_tag_minus_1 c = 0"
    show "agree bs d (group_depth c) (wp_fields fuel bs d ufs p) (WireFormatParser fuel ufs ptr c)"
    proof (cases "length bs \<le> p")
      case True
      then have "p = length bs" using c(1) by (simp add: sim_def)
      with c True show ?thesis
        using Done_end [OF c(1)]
        by (subst wp_fields.simps, subst WireFormatParser.simps) (simp add: agree_def ends_with_def)
    next
      case lt: False
      then obtain ptr' c' where D: "Done ptr c = (Some ptr', False, c')" "sim bs c' ptr' p"
        "16 < length (from_ptr c' ptr')" "depth c' = d" "group_depth c' = group_depth c"
        "last_tag_minus_1 c' = 0" using Done_more [OF c(1)] c by auto
      show ?thesis
      proof (cases fuel)
        case 0
        then show ?thesis using lt by (subst wp_fields.simps) (simp add: agree_def)
      next
        case (Suc fuel')
        let ?S = "\<lambda>(tag, p). if tag = 0 \<or> tag AND 7 = 4 then Ok (p, ufs, Some tag)
          else pbind (wp_field fuel' bs d tag ufs p) (\<lambda>(p, ufs). wp_fields fuel' bs d ufs p)"
        let ?R = "\<lambda>(tag, ptr). if tag = 0 \<or> tag AND 7 = 4 then Ok (ptr, ufs, SetLastTag tag c')
               else pbind (FieldParser fuel' tag ufs ptr c') (\<lambda>(ptr, ufs, c).
                    WireFormatParser fuel' ufs ptr c)"
        have S: "wp_fields fuel bs d ufs p = pbind (spec_read ReadTag bs p) ?S"
          using lt Suc by (subst wp_fields.simps) simp
        have R: "WireFormatParser fuel ufs ptr c = pbind (read_at ReadTag ptr' c') ?R"
          using D(1) Suc by (subst WireFormatParser.simps) simp
        have fi: "5 \<le> length (from_ptr c' ptr')" using D(3) by simp
        have "agree bs d (group_depth c) (pbind (spec_read ReadTag bs p) ?S) (pbind (read_at ReadTag ptr' c') ?R)"
          using tag_rd.read_sim [OF D(2) fi]
        proof (elim disjE exE conjE)
          fix tag n
          assume tag: "spec_read ReadTag bs p = Ok (tag, p + n)" "read_at ReadTag ptr' c' = Ok (tag, ptr' + n)"
            "n \<le> 5" "sim bs c' (ptr' + n) (p + n)"
          show ?thesis
          proof (cases "tag = 0 \<or> tag AND 7 = 4")
            case True
            have "sim bs (SetLastTag tag c') (ptr' + n) (p + n)"
              using tag(4) by (simp add: sim_SetLastTag)
            then show ?thesis using tag True D
              by (simp add: agree_def ends_with_def SetLastTag_def)
          next
            case False
            have "from_ptr c' (ptr' + n) = drop n (from_ptr c' ptr')" by (simp add: from_ptr_def add.commute)
            then have "10 \<le> length (from_ptr c' (ptr' + n))" using D(3) tag(3) by simp
            then have "agree bs d (group_depth c)
                (pbind (wp_field fuel' bs d tag ufs (p + n)) (\<lambda>(p, ufs). Ok (p, ufs, None)))
                (FieldParser fuel' tag ufs (ptr' + n) c')"
              using 1(1) [OF lt Suc tag(1) refl] False D tag(4)
              by (intro agree_fieldD) simp_all
            then have "agree bs d (group_depth c)
                (pbind (pbind (wp_field fuel' bs d tag ufs (p + n)) (\<lambda>(p, ufs). Ok (p, ufs, None)))
                   (\<lambda>(p, ufs, t :: u32 option). wp_fields fuel' bs d ufs p))
                (pbind (FieldParser fuel' tag ufs (ptr' + n) c') (\<lambda>(ptr, ufs, c). WireFormatParser fuel' ufs ptr c))"
            proof (rule agree_bind)
              fix p' ufs' t ptr'' c''
              assume as: "pbind (wp_field fuel' bs d tag ufs (p + n)) (\<lambda>(p, ufs). Ok (p, ufs, None)) = Ok (p', ufs', t)"
                "sim bs c'' ptr'' p'" "depth c'' = d" "group_depth c'' = group_depth c"
                "last_tag_minus_1 c'' = ends_with t"
              then have w: "wp_field fuel' bs d tag ufs (p + n) = Ok (p', ufs')" and "t = None"
                by (auto simp: pbind_eq_Ok)
              then have "last_tag_minus_1 c'' = 0" using as(5) by (simp add: ends_with_def)
              then show "agree bs d (group_depth c) (case (p', ufs', t) of (p, ufs, t) \<Rightarrow> wp_fields fuel' bs d ufs p)
                 (case (ptr'', ufs', c'') of (ptr, ufs, c) \<Rightarrow> WireFormatParser fuel' ufs ptr c)"
                using 1(2) [OF lt Suc tag(1) refl _ w refl] False as
                by (auto intro: agree_fieldsD)
            qed (simp add: WireFormatParser_over)
            then show ?thesis using tag False by (simp add: pbind_assoc case_prod_unfold)
          qed
        next
          fix tag n
          assume tag: "spec_read ReadTag bs p = OOB" "read_at ReadTag ptr' c' = Ok (tag, ptr' + n)"
            "over bs 5 c' (ptr' + n)"
          show ?thesis
          proof (cases "tag = 0 \<or> tag AND 7 = 4")
            case True
            have "over bs 16 (SetLastTag tag c') (ptr' + n)"
              using over_mono [OF tag(3), of 16] by (simp add: over_SetLastTag)
            then show ?thesis using tag True by (simp add: agree_def)
          next
            case False
            then show ?thesis
              using FieldParser_over [OF tag(3), of tag fuel' ufs] tag
              by (auto simp: agree_def WireFormatParser_over)
          qed
        qed (auto simp: agree_def)
        then show ?thesis unfolding S R .
      qed
    qed
  qed
next
  case (2 fuel bs d tag ufs p)
  show ?case unfolding agree_field_def
  proof (intro allI impI, elim conjE)
    fix ptr c
    assume c: "sim bs c ptr p" "depth c = d" "last_tag_minus_1 c = 0" "10 \<le> length (from_ptr c ptr)"
      "tag AND 7 \<noteq> 4"
    define num wt where "num = drop_bit 3 tag" and "wt = tag AND 7"
    consider "num = 0 \<or> wt \<notin> {0, 1, 2, 3, 4, 5}" | "num \<noteq> 0" "wt = 0" | "num \<noteq> 0" "wt = 1"
      | "num \<noteq> 0" "wt = 2" | "num \<noteq> 0" "wt = 3" | "num \<noteq> 0" "wt = 5"
      using c(5) by (auto simp: wt_def)
    then show "agree bs d (group_depth c) (pbind (wp_field fuel bs d tag ufs p) (\<lambda>(p, ufs). Ok (p, ufs, None)))
        (FieldParser fuel tag ufs ptr c)"
    proof cases
      case 1
      then show ?thesis
        by (subst wp_field.simps, subst FieldParser.simps) (auto simp: num_def wt_def Let_def agree_def)
    next
      case 2
      then show ?thesis
        using v64_rd.prim_agree [OF c(1) c(4) _ c(3), where f = "\<lambda>v. ufs @ [TYPE_VARINT num v]"] c(2)
        by (subst wp_field.simps, subst FieldParser.simps)
          (simp add: num_def [symmetric] wt_def [symmetric] Let_def field_pbind AddVarint_def)
    next
      case 3
      have "8 \<le> length (from_ptr c ptr)" using c(4) by simp
      then show ?thesis
        using f64_rd.prim_agree [OF c(1) _ _ c(3), where f = "\<lambda>v. ufs @ [TYPE_FIXED64 num v]"] c(2) 3
        by (subst wp_field.simps, subst FieldParser.simps)
          (simp add: num_def [symmetric] wt_def [symmetric] Let_def field_pbind AddFixed64_def)
    next
      case 4
      have "5 \<le> length (from_ptr c ptr)" using c(4) by simp
      then show ?thesis
        using string_agree [OF c(1) _ c(3), where f = "\<lambda>s. ufs @ [TYPE_LENGTH_DELIMITED num s]"] c(2) 4
        by (subst wp_field.simps, subst FieldParser.simps)
          (simp add: num_def [symmetric] wt_def [symmetric] Let_def field_pbind ParseLengthDelimited_eq
            AddLengthDelimited_def)
    next
      case 5
      have IH: "0 \<le> d - 1 \<Longrightarrow> agree_fields fuel bs (d - 1) [] p"
        using "2.IH" [OF num_def wt_def] 5 by simp
      have e: "pbind (pbind m (\<lambda>(p, grp, t). if t = Some (num * 8 + 4) then Ok (p, ufs @ [TYPE_GROUP num grp]) else Null))
            (\<lambda>(p, ufs). Ok (p, ufs, None))
          = pbind m (\<lambda>(p, grp, t). if t = Some (num * 8 + 4) then Ok (p, ufs @ [TYPE_GROUP num grp], None) else Null)"
        for m :: "(nat \<times> UnknownFieldSet \<times> u32 option) pres"
        by (cases m) (auto split: prod.splits)
      show ?thesis
        using agree_group [OF IH c(1,2,3) 5(1) num_def, of ufs] 5
        by (subst wp_field.simps, subst FieldParser.simps)
          (simp add: num_def [symmetric] wt_def [symmetric] Let_def e split: if_splits)
    next
      case 6
      have "4 \<le> length (from_ptr c ptr)" using c(4) by simp
      then show ?thesis
        using f32_rd.prim_agree [OF c(1) _ _ c(3), where f = "\<lambda>v. ufs @ [TYPE_FIXED32 num v]"] c(2) 6
        by (subst wp_field.simps, subst FieldParser.simps)
          (simp add: num_def [symmetric] wt_def [symmetric] Let_def field_pbind AddFixed32_def)
    qed
  qed
qed

section \<open>The fuel is enough\<close>

context wire_reader
begin

lemma spec_read_ok: "spec_read rdr bs p = Ok (v, p') \<Longrightarrow> p < p' \<and> p' \<le> length bs"
  by (auto simp: spec_read_def pbind_eq_Ok dest!: ok_bounds)

lemma spec_read_clean: "spec_read rdr bs p \<noteq> NoFuel" "spec_read rdr bs p \<noteq> Fatal"
  by (cases rule: cases_read [of "drop p bs"]; simp add: spec_read_def)+

end

lemma wp_string_ok: "wp_string bs p = Ok (p', s) \<Longrightarrow> p < p' \<and> p' \<le> length bs"
  by (auto simp: wp_string_def pbind_eq_Ok split: if_splits dest!: size_rd.spec_read_ok)

lemma wp_string_clean: "wp_string bs p \<noteq> NoFuel"
  using size_rd.spec_read_clean [of bs p] by (cases "spec_read ReadSize bs p") (auto simp: wp_string_def split: if_splits)

lemma pbind_NoFuel: "pbind m f = NoFuel \<longleftrightarrow> m = NoFuel \<or> (\<exists>x. m = Ok x \<and> f x = NoFuel)"
  by (cases m) auto

lemma wp_ok:
  "wp_fields fuel bs d ufs p = Ok (p1, x1, t1) \<Longrightarrow> p \<le> length bs \<Longrightarrow> p \<le> p1 \<and> p1 \<le> length bs"
  "wp_field fuel bs d tag ufs p = Ok (p2, x2) \<Longrightarrow> p \<le> length bs \<Longrightarrow> p \<le> p2 \<and> p2 \<le> length bs"
proof (induction fuel bs d ufs p and fuel bs d tag ufs p arbitrary: p1 x1 t1 and p2 x2
    rule: wp_fields_wp_field.induct)
  case (1 fuel bs d ufs p)
  show ?case
  proof (cases "length bs \<le> p")
    case True
    then show ?thesis using 1(3,4) by (subst (asm) wp_fields.simps) simp
  next
    case lt: False
    with 1(3) obtain fuel' tag q where f: "fuel = Suc fuel'" "spec_read ReadTag bs p = Ok (tag, q)"
      by (subst (asm) wp_fields.simps) (auto simp: pbind_eq_Ok split: nat.splits)
    then have q: "p < q" "q \<le> length bs" using tag_rd.spec_read_ok by blast+
    show ?thesis
    proof (cases "tag = 0 \<or> tag AND 7 = 4")
      case True
      then show ?thesis using 1(3) lt f q by (subst (asm) wp_fields.simps) auto
    next
      case False
      with 1(3) lt f obtain r u where w: "wp_field fuel' bs d tag ufs q = Ok (r, u)"
        "wp_fields fuel' bs d u r = Ok (p1, x1, t1)"
        by (subst (asm) wp_fields.simps) (auto simp: pbind_eq_Ok)
      have "q \<le> r \<and> r \<le> length bs" using 1(1) [OF lt f refl] False w(1) q by simp
      moreover from this have "r \<le> p1 \<and> p1 \<le> length bs"
        using 1(2) [OF lt f refl _ w(1) refl] False w(2) by simp
      ultimately show ?thesis using q by simp
    qed
  qed
next
  case (2 fuel bs d tag ufs p)
  show ?case
  proof (cases "tag AND 7 = 3")
    case True
    with 2(2) obtain r g t where w: "0 \<le> d - 1" "drop_bit 3 tag \<noteq> 0" "p2 = r"
      "wp_fields fuel bs (d - 1) [] p = Ok (r, g, t)"
      by (subst (asm) wp_field.simps) (auto simp: Let_def pbind_eq_Ok split: if_splits)
    then show ?thesis using 2(1) [OF refl refl] True 2(3) by auto
  next
    case False
    then show ?thesis
      using 2(2) by (subst (asm) wp_field.simps)
        (auto simp: Let_def pbind_eq_Ok split: if_splits
          dest!: v64_rd.spec_read_ok f64_rd.spec_read_ok f32_rd.spec_read_ok wp_string_ok)
  qed
qed

lemma fuel_enough:
  "length bs - p \<le> fuel \<Longrightarrow> wp_fields fuel bs d ufs p \<noteq> NoFuel"
  "length bs - p \<le> fuel \<Longrightarrow> wp_field fuel bs d tag ufs p \<noteq> NoFuel"
proof (induction fuel bs d ufs p and fuel bs d tag ufs p rule: wp_fields_wp_field.induct)
  case (1 fuel bs d ufs p)
  show ?case
  proof
    assume nf: "wp_fields fuel bs d ufs p = NoFuel"
    then have lt: "\<not> length bs \<le> p" by (subst (asm) wp_fields.simps) (auto split: if_splits)
    then obtain fuel' where f: "fuel = Suc fuel'" using 1(3) by (cases fuel) auto
    from nf lt f obtain tag q where q: "spec_read ReadTag bs p = Ok (tag, q)"
      and rest: "\<not> (tag = 0 \<or> tag AND 7 = 4)" "wp_field fuel' bs d tag ufs q = NoFuel
        \<or> (\<exists>r u. wp_field fuel' bs d tag ufs q = Ok (r, u) \<and> wp_fields fuel' bs d u r = NoFuel)"
      by (subst (asm) wp_fields.simps)
        (auto simp: pbind_NoFuel tag_rd.spec_read_clean split: if_splits)
    have q': "p < q" "q \<le> length bs" using tag_rd.spec_read_ok [OF q] by simp_all
    have enough: "length bs - q \<le> fuel'" using 1(3) f q' by simp
    from rest(2) show False
    proof (elim disjE exE conjE)
      assume "wp_field fuel' bs d tag ufs q = NoFuel"
      then show False using 1(1) [OF lt f q refl rest(1) enough] by simp
    next
      fix r u assume w: "wp_field fuel' bs d tag ufs q = Ok (r, u)" "wp_fields fuel' bs d u r = NoFuel"
      then have "q \<le> r" using wp_ok(2) [OF w(1)] q' by simp
      then have "length bs - r \<le> fuel'" using enough by linarith
      then show False using 1(2) [OF lt f q refl rest(1) w(1) refl] w(2) by simp
    qed
  qed
next
  case (2 fuel bs d tag ufs p)
  show ?case
  proof
    assume nf: "wp_field fuel bs d tag ufs p = NoFuel"
    then have "tag AND 7 = 3 \<and> 0 \<le> d - 1 \<and> drop_bit 3 tag \<noteq> 0 \<and> wp_fields fuel bs (d - 1) [] p = NoFuel"
      by (subst (asm) wp_field.simps)
        (auto simp: Let_def pbind_NoFuel v64_rd.spec_read_clean f64_rd.spec_read_clean
          f32_rd.spec_read_clean wp_string_clean split: if_splits prod.splits)
    then show False using 2 by auto
  qed
qed

end
