(* ===== verification/Protocol.thy ===== *)
theory Protocol
  imports Utf8 WireSpec
begin

text \<open>
  The generated message classes \<^verbatim>\<open>C_Chat\<close> and \<^verbatim>\<open>S_Chat\<close> (\<^verbatim>\<open>Server/TopViewServer/Protocol.pb.cc\<close>,
  \<^verbatim>\<open>Protocol.pb.h\<close>; the dummy client and \<^verbatim>\<open>Common\<close> hold identical copies). A message is its
  string, for \<^verbatim>\<open>S_Chat\<close> the sender's id, and the unknown fields of its metadata. The cached
  size and the arena carry no information here.

  A parse that ends in the null pointer fails; the message it leaves behind is discarded by
  every caller in the repository and is not part of the result.
\<close>

section \<open>The messages\<close>

record C_Chat =
  C_message :: "byte list"
  C_unknown :: UnknownFieldSet

record S_Chat =
  S_message :: "byte list"
  S_senderid :: u32
  S_unknown :: UnknownFieldSet

definition C_Chat_SharedCtor :: C_Chat where
  "C_Chat_SharedCtor = \<lparr>C_message = [], C_unknown = []\<rparr>"

definition S_Chat_SharedCtor :: S_Chat where
  "S_Chat_SharedCtor = \<lparr>S_message = [], S_senderid = 0, S_unknown = []\<rparr>"

definition C_Chat_Clear :: "C_Chat \<Rightarrow> C_Chat" where
  "C_Chat_Clear m = m\<lparr>C_message := [], C_unknown := []\<rparr>"

definition S_Chat_Clear :: "S_Chat \<Rightarrow> S_Chat" where
  "S_Chat_Clear m = m\<lparr>S_message := [], S_senderid := 0, S_unknown := []\<rparr>"

text \<open>The copy constructors.\<close>

definition C_Chat_copy :: "C_Chat \<Rightarrow> C_Chat" where
  "C_Chat_copy src =
     (let this = \<lparr>C_message = [], C_unknown = MergeFrom_ufs [] (C_unknown src)\<rparr>
      in (if C_message src \<noteq> [] then this\<lparr>C_message := C_message src\<rparr> else this))"

definition S_Chat_copy :: "S_Chat \<Rightarrow> S_Chat" where
  "S_Chat_copy src =
     (let this = \<lparr>S_message = [], S_senderid = 0, S_unknown = MergeFrom_ufs [] (S_unknown src)\<rparr>;
          this = (if S_message src \<noteq> [] then this\<lparr>S_message := S_message src\<rparr> else this)
      in this\<lparr>S_senderid := S_senderid src\<rparr>)"

definition C_Chat_MergeImpl :: "C_Chat \<Rightarrow> C_Chat \<Rightarrow> C_Chat" where
  "C_Chat_MergeImpl this src =
     (let this = (if C_message src \<noteq> [] then this\<lparr>C_message := C_message src\<rparr> else this)
      in this\<lparr>C_unknown := MergeFrom_ufs (C_unknown this) (C_unknown src)\<rparr>)"

definition S_Chat_MergeImpl :: "S_Chat \<Rightarrow> S_Chat \<Rightarrow> S_Chat" where
  "S_Chat_MergeImpl this src =
     (let this = (if S_message src \<noteq> [] then this\<lparr>S_message := S_message src\<rparr> else this);
          this = (if S_senderid src \<noteq> 0 then this\<lparr>S_senderid := S_senderid src\<rparr> else this)
      in this\<lparr>S_unknown := MergeFrom_ufs (S_unknown this) (S_unknown src)\<rparr>)"

text \<open>\<open>same\<close>: \<^verbatim>\<open>&from == this\<close>.\<close>

definition C_Chat_CopyFrom :: "bool \<Rightarrow> C_Chat \<Rightarrow> C_Chat \<Rightarrow> C_Chat" where
  "C_Chat_CopyFrom same this src = (if same then this else C_Chat_MergeImpl (C_Chat_Clear this) src)"

definition S_Chat_CopyFrom :: "bool \<Rightarrow> S_Chat \<Rightarrow> S_Chat \<Rightarrow> S_Chat" where
  "S_Chat_CopyFrom same this src = (if same then this else S_Chat_MergeImpl (S_Chat_Clear this) src)"

definition C_Chat_IsInitialized :: "C_Chat \<Rightarrow> bool" where
  "C_Chat_IsInitialized m = True"

definition S_Chat_IsInitialized :: "S_Chat \<Rightarrow> bool" where
  "S_Chat_IsInitialized m = True"

definition C_Chat_InternalSwap :: "C_Chat \<Rightarrow> C_Chat \<Rightarrow> C_Chat \<times> C_Chat" where
  "C_Chat_InternalSwap this other =
     (this\<lparr>C_unknown := C_unknown other, C_message := C_message other\<rparr>,
      other\<lparr>C_unknown := C_unknown this, C_message := C_message this\<rparr>)"

definition S_Chat_InternalSwap :: "S_Chat \<Rightarrow> S_Chat \<Rightarrow> S_Chat \<times> S_Chat" where
  "S_Chat_InternalSwap this other =
     (this\<lparr>S_unknown := S_unknown other, S_message := S_message other, S_senderid := S_senderid other\<rparr>,
      other\<lparr>S_unknown := S_unknown this, S_message := S_message this, S_senderid := S_senderid this\<rparr>)"

text \<open>The accessors of \<^verbatim>\<open>Protocol.pb.h\<close>.\<close>

definition C_Chat_clear_message :: "C_Chat \<Rightarrow> C_Chat" where
  "C_Chat_clear_message m = m\<lparr>C_message := []\<rparr>"

definition C_Chat_get_message :: "C_Chat \<Rightarrow> byte list" where
  "C_Chat_get_message m = C_message m"

definition C_Chat_set_message :: "byte list \<Rightarrow> C_Chat \<Rightarrow> C_Chat" where
  "C_Chat_set_message s m = m\<lparr>C_message := s\<rparr>"

definition C_Chat_release_message :: "C_Chat \<Rightarrow> byte list \<times> C_Chat" where
  "C_Chat_release_message m = (C_message m, m\<lparr>C_message := []\<rparr>)"

definition C_Chat_set_allocated_message :: "byte list option \<Rightarrow> C_Chat \<Rightarrow> C_Chat" where
  "C_Chat_set_allocated_message s m = m\<lparr>C_message := (case s of None \<Rightarrow> [] | Some s \<Rightarrow> s)\<rparr>"

definition S_Chat_clear_message :: "S_Chat \<Rightarrow> S_Chat" where
  "S_Chat_clear_message m = m\<lparr>S_message := []\<rparr>"

definition S_Chat_get_message :: "S_Chat \<Rightarrow> byte list" where
  "S_Chat_get_message m = S_message m"

definition S_Chat_set_message :: "byte list \<Rightarrow> S_Chat \<Rightarrow> S_Chat" where
  "S_Chat_set_message s m = m\<lparr>S_message := s\<rparr>"

definition S_Chat_release_message :: "S_Chat \<Rightarrow> byte list \<times> S_Chat" where
  "S_Chat_release_message m = (S_message m, m\<lparr>S_message := []\<rparr>)"

definition S_Chat_set_allocated_message :: "byte list option \<Rightarrow> S_Chat \<Rightarrow> S_Chat" where
  "S_Chat_set_allocated_message s m = m\<lparr>S_message := (case s of None \<Rightarrow> [] | Some s \<Rightarrow> s)\<rparr>"

definition S_Chat_clear_senderid :: "S_Chat \<Rightarrow> S_Chat" where
  "S_Chat_clear_senderid m = m\<lparr>S_senderid := 0\<rparr>"

definition S_Chat_get_senderid :: "S_Chat \<Rightarrow> u32" where
  "S_Chat_get_senderid m = S_senderid m"

definition S_Chat_set_senderid :: "u32 \<Rightarrow> S_Chat \<Rightarrow> S_Chat" where
  "S_Chat_set_senderid value m = m\<lparr>S_senderid := value\<rparr>"

section \<open>Parsing\<close>

text \<open>
  \<^verbatim>\<open>VerifyUTF8\<close>: the result does not depend on the address of the string
  (\<open>IsStructurallyValidUTF8_valid\<close>), which is taken to be 0.
\<close>

definition VerifyUTF8 :: "byte list \<Rightarrow> bool" where
  "VerifyUTF8 str = IsStructurallyValidUTF8 True 0 str"

text \<open>
  A failing \<^verbatim>\<open>ReadTag\<close> leaves the tag 0 and the pointer null, which \<^verbatim>\<open>CHK_(ptr)\<close> under
  \<^verbatim>\<open>handle_unusual\<close> turns into the failure that \<open>pbind\<close> is here.
\<close>

fun C_Chat_InternalParse :: "nat \<Rightarrow> C_Chat \<Rightarrow> nat \<Rightarrow> parse_ctx \<Rightarrow> (nat \<times> C_Chat \<times> parse_ctx) pres" where
  "C_Chat_InternalParse fuel m ptr c =
     (case Done ptr c of
        (None, _, _) \<Rightarrow> Null
      | (Some ptr, True, c) \<Rightarrow> Ok (ptr, m, c)
      | (Some ptr, False, c) \<Rightarrow>
          (case fuel of 0 \<Rightarrow> NoFuel | Suc fuel \<Rightarrow>
             pbind (read_at ReadTag ptr c) (\<lambda>(tag, ptr).
               if drop_bit 3 tag = 1 \<and> (ucast tag :: byte) = 10 then
                 pbind (InlineGreedyStringParser ptr c) (\<lambda>(ptr, str, c).
                   if VerifyUTF8 str then C_Chat_InternalParse fuel (m\<lparr>C_message := str\<rparr>) ptr c else Null)
               else if tag = 0 \<or> tag AND 7 = 4 then Ok (ptr, m, SetLastTag tag c)
               else pbind (UnknownFieldParse fuel tag (C_unknown m) ptr c) (\<lambda>(ptr, u, c).
                 C_Chat_InternalParse fuel (m\<lparr>C_unknown := u\<rparr>) ptr c))))"

fun S_Chat_InternalParse :: "nat \<Rightarrow> S_Chat \<Rightarrow> nat \<Rightarrow> parse_ctx \<Rightarrow> (nat \<times> S_Chat \<times> parse_ctx) pres" where
  "S_Chat_InternalParse fuel m ptr c =
     (case Done ptr c of
        (None, _, _) \<Rightarrow> Null
      | (Some ptr, True, c) \<Rightarrow> Ok (ptr, m, c)
      | (Some ptr, False, c) \<Rightarrow>
          (case fuel of 0 \<Rightarrow> NoFuel | Suc fuel \<Rightarrow>
             pbind (read_at ReadTag ptr c) (\<lambda>(tag, ptr).
               if drop_bit 3 tag = 1 \<and> (ucast tag :: byte) = 10 then
                 pbind (InlineGreedyStringParser ptr c) (\<lambda>(ptr, str, c).
                   if VerifyUTF8 str then S_Chat_InternalParse fuel (m\<lparr>S_message := str\<rparr>) ptr c else Null)
               else if drop_bit 3 tag = 2 \<and> (ucast tag :: byte) = 16 then
                 pbind (read_at VarintParse32 ptr c) (\<lambda>(v, ptr).
                   S_Chat_InternalParse fuel (m\<lparr>S_senderid := v\<rparr>) ptr c)
               else if tag = 0 \<or> tag AND 7 = 4 then Ok (ptr, m, SetLastTag tag c)
               else pbind (UnknownFieldParse fuel tag (S_unknown m) ptr c) (\<lambda>(ptr, u, c).
                 S_Chat_InternalParse fuel (m\<lparr>S_unknown := u\<rparr>) ptr c))))"

declare C_Chat_InternalParse.simps [simp del] S_Chat_InternalParse.simps [simp del]

section \<open>Serialization\<close>

text \<open>\<^verbatim>\<open>WireFormatLite::VerifyUtf8String\<close> only logs here: its result is not used.\<close>

definition C_Chat_InternalSerialize :: "C_Chat \<Rightarrow> nat \<Rightarrow> eps_out \<Rightarrow> (nat \<times> eps_out) pres" where
  "C_Chat_InternalSerialize m target s =
     pbind (if C_message m \<noteq> [] then WriteStringMaybeAliased 1 (C_message m) target s else Ok (target, s))
       (\<lambda>(target, s).
     if C_unknown m \<noteq> [] then InternalSerializeUnknownFieldsToArray (C_unknown m) target s
     else Ok (target, s))"

definition S_Chat_InternalSerialize :: "S_Chat \<Rightarrow> nat \<Rightarrow> eps_out \<Rightarrow> (nat \<times> eps_out) pres" where
  "S_Chat_InternalSerialize m target s =
     pbind (if S_message m \<noteq> [] then WriteStringMaybeAliased 1 (S_message m) target s else Ok (target, s))
       (\<lambda>(target, s).
     pbind (if S_senderid m \<noteq> 0
            then (case EnsureSpace target s of (target, s) \<Rightarrow>
                    put_bytes (WriteUInt32ToArray 2 (S_senderid m)) target s)
            else Ok (target, s))
       (\<lambda>(target, s).
     if S_unknown m \<noteq> [] then InternalSerializeUnknownFieldsToArray (S_unknown m) target s
     else Ok (target, s)))"

definition LengthDelimitedSize :: "u64 \<Rightarrow> u64" where
  "LengthDelimitedSize len = len + VarintSize32 (ucast len)"

definition StringSize :: "byte list \<Rightarrow> u64" where
  "StringSize str = LengthDelimitedSize (of_nat (length str))"

definition UInt32SizePlusOne :: "u32 \<Rightarrow> u64" where
  "UInt32SizePlusOne value = VarintSize32PlusOne value"

definition MaybeComputeUnknownFieldsSize :: "u64 \<Rightarrow> UnknownFieldSet \<Rightarrow> u64" where
  "MaybeComputeUnknownFieldsSize total_size u =
     (if u \<noteq> [] then total_size + ComputeUnknownFieldsSize u else total_size)"

definition C_Chat_ByteSizeLong :: "C_Chat \<Rightarrow> u64" where
  "C_Chat_ByteSizeLong m =
     (let total_size = (if C_message m \<noteq> [] then 0 + (1 + StringSize (C_message m)) else 0)
      in MaybeComputeUnknownFieldsSize total_size (C_unknown m))"

definition S_Chat_ByteSizeLong :: "S_Chat \<Rightarrow> u64" where
  "S_Chat_ByteSizeLong m =
     (let total_size = (if S_message m \<noteq> [] then 0 + (1 + StringSize (S_message m)) else 0);
          total_size = (if S_senderid m \<noteq> 0 then total_size + UInt32SizePlusOne (S_senderid m) else total_size)
      in MaybeComputeUnknownFieldsSize total_size (S_unknown m))"

end
