(* ===== verification/ProtocolSpec.thy ===== *)
theory ProtocolSpec
  imports Protocol
begin

text \<open>
  What the generated parsers and serializers compute. \<open>C_wp\<close> and \<open>S_wp\<close> read a message from
  a byte list with the reference readers of \<open>WireSpec\<close>; the locale \<open>message_parser\<close> says what
  a generated \<^verbatim>\<open>_InternalParse\<close> must satisfy to agree with its reference, and holds the proof
  once for both messages. \<open>C_bytes\<close> and \<open>S_bytes\<close> are the wire format of a message.
\<close>

section \<open>Reference parsers\<close>

fun C_wp :: "nat \<Rightarrow> byte list \<Rightarrow> int \<Rightarrow> C_Chat \<Rightarrow> nat \<Rightarrow> (nat \<times> C_Chat \<times> u32 option) pres" where
  "C_wp fuel bs d m p =
     (if length bs \<le> p then Ok (p, m, None)
      else (case fuel of 0 \<Rightarrow> NoFuel | Suc fuel \<Rightarrow>
        pbind (spec_read ReadTag bs p) (\<lambda>(tag, p).
          if tag = 10 then
            pbind (wp_string bs p) (\<lambda>(p, str).
              if valid_utf8 str then C_wp fuel bs d (m\<lparr>C_message := str\<rparr>) p else Null)
          else if tag = 0 \<or> tag AND 7 = 4 then Ok (p, m, Some tag)
          else pbind (wp_field fuel bs d tag (C_unknown m) p) (\<lambda>(p, u).
            C_wp fuel bs d (m\<lparr>C_unknown := u\<rparr>) p))))"

fun S_wp :: "nat \<Rightarrow> byte list \<Rightarrow> int \<Rightarrow> S_Chat \<Rightarrow> nat \<Rightarrow> (nat \<times> S_Chat \<times> u32 option) pres" where
  "S_wp fuel bs d m p =
     (if length bs \<le> p then Ok (p, m, None)
      else (case fuel of 0 \<Rightarrow> NoFuel | Suc fuel \<Rightarrow>
        pbind (spec_read ReadTag bs p) (\<lambda>(tag, p).
          if tag = 10 then
            pbind (wp_string bs p) (\<lambda>(p, str).
              if valid_utf8 str then S_wp fuel bs d (m\<lparr>S_message := str\<rparr>) p else Null)
          else if tag = 16 then
            pbind (spec_read VarintParse32 bs p) (\<lambda>(v, p). S_wp fuel bs d (m\<lparr>S_senderid := v\<rparr>) p)
          else if tag = 0 \<or> tag AND 7 = 4 then Ok (p, m, Some tag)
          else pbind (wp_field fuel bs d tag (S_unknown m) p) (\<lambda>(p, u).
            S_wp fuel bs d (m\<lparr>S_unknown := u\<rparr>) p))))"

declare C_wp.simps [simp del] S_wp.simps [simp del]

section \<open>The loop of a generated parser\<close>

text \<open>
  One turn of the loop: \<open>field_c\<close> handles the declared fields of the message, \<open>field_s\<close> is
  its reference; both are \<open>None\<close> for the tags that go to \<^verbatim>\<open>handle_unusual\<close>.
\<close>

definition turn_c ::
  "(u32 \<Rightarrow> ('m \<Rightarrow> nat \<Rightarrow> parse_ctx \<Rightarrow> (nat \<times> 'm \<times> parse_ctx) pres) option) \<Rightarrow> ('m \<Rightarrow> UnknownFieldSet)
    \<Rightarrow> (UnknownFieldSet \<Rightarrow> 'm \<Rightarrow> 'm) \<Rightarrow> (nat \<Rightarrow> 'm \<Rightarrow> nat \<Rightarrow> parse_ctx \<Rightarrow> (nat \<times> 'm \<times> parse_ctx) pres)
    \<Rightarrow> nat \<Rightarrow> 'm \<Rightarrow> u32 \<Rightarrow> nat \<Rightarrow> parse_ctx \<Rightarrow> (nat \<times> 'm \<times> parse_ctx) pres" where
  "turn_c field_c get set_u parse fuel m tag ptr c =
     (case field_c tag of
        Some f \<Rightarrow> pbind (f m ptr c) (\<lambda>(ptr, m, c). parse fuel m ptr c)
      | None \<Rightarrow> if tag = 0 \<or> tag AND 7 = 4 then Ok (ptr, m, SetLastTag tag c)
          else pbind (FieldParser fuel tag (get m) ptr c) (\<lambda>(ptr, u, c). parse fuel (set_u u m) ptr c))"

definition turn_s ::
  "(u32 \<Rightarrow> (byte list \<Rightarrow> 'm \<Rightarrow> nat \<Rightarrow> (nat \<times> 'm) pres) option) \<Rightarrow> ('m \<Rightarrow> UnknownFieldSet)
    \<Rightarrow> (UnknownFieldSet \<Rightarrow> 'm \<Rightarrow> 'm) \<Rightarrow> (nat \<Rightarrow> byte list \<Rightarrow> int \<Rightarrow> 'm \<Rightarrow> nat \<Rightarrow> (nat \<times> 'm \<times> u32 option) pres)
    \<Rightarrow> nat \<Rightarrow> byte list \<Rightarrow> int \<Rightarrow> 'm \<Rightarrow> u32 \<Rightarrow> nat \<Rightarrow> (nat \<times> 'm \<times> u32 option) pres" where
  "turn_s field_s get set_u spec fuel bs d m tag p =
     (case field_s tag of
        Some f \<Rightarrow> pbind (f bs m p) (\<lambda>(p, m). spec fuel bs d m p)
      | None \<Rightarrow> if tag = 0 \<or> tag AND 7 = 4 then Ok (p, m, Some tag)
          else pbind (wp_field fuel bs d tag (get m) p) (\<lambda>(p, u). spec fuel bs d (set_u u m) p))"

locale message_parser =
  fixes field_c :: "u32 \<Rightarrow> ('m \<Rightarrow> nat \<Rightarrow> parse_ctx \<Rightarrow> (nat \<times> 'm \<times> parse_ctx) pres) option"
    and field_s :: "u32 \<Rightarrow> (byte list \<Rightarrow> 'm \<Rightarrow> nat \<Rightarrow> (nat \<times> 'm) pres) option"
    and get :: "'m \<Rightarrow> UnknownFieldSet"
    and set_u :: "UnknownFieldSet \<Rightarrow> 'm \<Rightarrow> 'm"
    and parse :: "nat \<Rightarrow> 'm \<Rightarrow> nat \<Rightarrow> parse_ctx \<Rightarrow> (nat \<times> 'm \<times> parse_ctx) pres"
    and spec :: "nat \<Rightarrow> byte list \<Rightarrow> int \<Rightarrow> 'm \<Rightarrow> nat \<Rightarrow> (nat \<times> 'm \<times> u32 option) pres"
  assumes parse_eq: "parse fuel m ptr c =
     (case Done ptr c of (None, _, _) \<Rightarrow> Null | (Some ptr, True, c) \<Rightarrow> Ok (ptr, m, c)
      | (Some ptr, False, c) \<Rightarrow> (case fuel of 0 \<Rightarrow> NoFuel | Suc fuel \<Rightarrow>
          pbind (read_at ReadTag ptr c) (\<lambda>(tag, ptr). turn_c field_c get set_u parse fuel m tag ptr c)))"
    and spec_eq: "spec fuel bs d m p =
     (if length bs \<le> p then Ok (p, m, None) else (case fuel of 0 \<Rightarrow> NoFuel | Suc fuel \<Rightarrow>
        pbind (spec_read ReadTag bs p) (\<lambda>(tag, p). turn_s field_s get set_u spec fuel bs d m tag p)))"
    and field_none: "field_c tag = None \<longleftrightarrow> field_s tag = None"
    and field_agree: "field_c tag = Some f \<Longrightarrow> field_s tag = Some g \<Longrightarrow> sim bs c ptr p
       \<Longrightarrow> 10 \<le> length (from_ptr c ptr) \<Longrightarrow> last_tag_minus_1 c = 0
       \<Longrightarrow> agree bs (depth c) (group_depth c) (pbind (g bs m p) (\<lambda>(p, m). Ok (p, m, None))) (f m ptr c)"
    and field_over: "field_c tag = Some f \<Longrightarrow> over bs 5 c ptr
       \<Longrightarrow> f m ptr c = Null \<or> (\<exists>ptr' m' c'. f m ptr c = Ok (ptr', m', c') \<and> over bs 16 c' ptr')"
    and field_ok: "field_s tag = Some g \<Longrightarrow> g bs m p = Ok (p', m') \<Longrightarrow> p \<le> p' \<and> p' \<le> length bs"
    and field_fuel: "field_s tag = Some g \<Longrightarrow> g bs m p \<noteq> NoFuel"
begin

lemma parse_over: "over bs k c ptr \<Longrightarrow> parse fuel m ptr c = Null"
  by (subst parse_eq) (simp add: Done_over)

lemma turn_over:
  assumes "over bs 5 c ptr"
  shows "turn_c field_c get set_u parse fuel m tag ptr c = Null
    \<or> (\<exists>ptr' m' c'. turn_c field_c get set_u parse fuel m tag ptr c = Ok (ptr', m', c') \<and> over bs 16 c' ptr')"
proof (cases "field_c tag")
  case None
  show ?thesis
  proof (cases "tag = 0 \<or> tag AND 7 = 4")
    case True
    then show ?thesis using None over_mono [OF assms, of 16] by (simp add: turn_c_def over_SetLastTag)
  next
    case False
    then show ?thesis
      using None FieldParser_over [OF assms, of tag fuel "get m"] by (auto simp: turn_c_def parse_over)
  qed
next
  case (Some f)
  then show ?thesis using field_over [OF Some assms, of m] by (auto simp: turn_c_def parse_over)
qed

lemma parse_agrees:
  "sim bs c ptr p \<Longrightarrow> depth c = d \<Longrightarrow> last_tag_minus_1 c = 0 \<Longrightarrow>
     agree bs d (group_depth c) (spec fuel bs d m p) (parse fuel m ptr c)"
proof (induction fuel arbitrary: m p ptr c)
  case 0
  show ?case
  proof (cases "length bs \<le> p")
    case True
    then have "p = length bs" using 0(1) by (simp add: sim_def)
    with 0 True show ?thesis using Done_end [OF 0(1)]
      by (subst spec_eq, subst parse_eq) (simp add: agree_def ends_with_def)
  next
    case False
    then show ?thesis by (subst spec_eq) (simp add: agree_def)
  qed
next
  case (Suc fuel)
  show ?case
  proof (cases "length bs \<le> p")
    case True
    then have "p = length bs" using Suc(2) by (simp add: sim_def)
    with Suc True show ?thesis using Done_end [OF Suc(2)]
      by (subst spec_eq, subst parse_eq) (simp add: agree_def ends_with_def)
  next
    case lt: False
    then obtain ptr' c' where D: "Done ptr c = (Some ptr', False, c')" "sim bs c' ptr' p"
      "16 < length (from_ptr c' ptr')" "depth c' = d" "group_depth c' = group_depth c"
      "last_tag_minus_1 c' = 0" using Done_more [OF Suc(2)] Suc(3,4) by auto
    have S: "spec (Suc fuel) bs d m p
        = pbind (spec_read ReadTag bs p) (\<lambda>(tag, p). turn_s field_s get set_u spec fuel bs d m tag p)"
      using lt by (subst spec_eq) simp
    have R: "parse (Suc fuel) m ptr c
        = pbind (read_at ReadTag ptr' c') (\<lambda>(tag, ptr). turn_c field_c get set_u parse fuel m tag ptr c')"
      using D(1) by (subst parse_eq) simp
    have five: "5 \<le> length (from_ptr c' ptr')" using D(3) by simp
    show ?thesis
      unfolding S R using tag_rd.read_sim [OF D(2) five]
    proof (elim disjE exE conjE)
      fix tag n
      assume tag: "spec_read ReadTag bs p = Ok (tag, p + n)" "read_at ReadTag ptr' c' = Ok (tag, ptr' + n)"
        "n \<le> 5" "sim bs c' (ptr' + n) (p + n)"
      have "from_ptr c' (ptr' + n) = drop n (from_ptr c' ptr')" by (simp add: from_ptr_def add.commute)
      then have ten: "10 \<le> length (from_ptr c' (ptr' + n))" using D(3) tag(3) by simp
      have cont: "agree bs d (group_depth c)
          (pbind (pbind M (\<lambda>(p, x). Ok (p, x, None :: u32 option))) (\<lambda>(p, x, t). spec fuel bs d (h x) p))
          (pbind N (\<lambda>(ptr, x, c). parse fuel (h x) ptr c))"
        if "agree bs d (group_depth c) (pbind M (\<lambda>(p, x). Ok (p, x, None))) N"
        for M :: "(nat \<times> 'x) pres" and N and h :: "'x \<Rightarrow> 'm"
        using that
      proof (rule agree_bind)
        fix p' x t ptr'' c''
        assume as: "pbind M (\<lambda>(p, x). Ok (p, x, None)) = Ok (p', x, t)"
          "sim bs c'' ptr'' p'" "depth c'' = d" "group_depth c'' = group_depth c"
          "last_tag_minus_1 c'' = ends_with t"
        then have "t = None" by (auto simp: pbind_eq_Ok)
        then have "last_tag_minus_1 c'' = 0" using as(5) by (simp add: ends_with_def)
        then show "agree bs d (group_depth c) (case (p', x, t) of (p, x, t) \<Rightarrow> spec fuel bs d (h x) p)
          (case (ptr'', x, c'') of (ptr, x, c) \<Rightarrow> parse fuel (h x) ptr c)"
          using Suc.IH [OF as(2,3)] as(4) by simp
      qed (simp add: parse_over)
      show "agree bs d (group_depth c)
          (pbind (spec_read ReadTag bs p) (\<lambda>(tag, p). turn_s field_s get set_u spec fuel bs d m tag p))
          (pbind (read_at ReadTag ptr' c') (\<lambda>(tag, ptr). turn_c field_c get set_u parse fuel m tag ptr c'))"
      proof (cases "field_c tag")
        case None
        show ?thesis
        proof (cases "tag = 0 \<or> tag AND 7 = 4")
          case True
          then show ?thesis using None tag D field_none [of tag]
            by (simp add: turn_c_def turn_s_def agree_def ends_with_def sim_SetLastTag)
              (simp add: SetLastTag_def)
        next
          case False
          have "agree bs d (group_depth c)
              (pbind (wp_field fuel bs d tag (get m) (p + n)) (\<lambda>(p, ufs). Ok (p, ufs, None)))
              (FieldParser fuel tag (get m) (ptr' + n) c')"
            using parser_agrees(2) False D tag(4) ten by (intro agree_fieldD) simp_all
          from cont [OF this, of "\<lambda>u. set_u u m"] show ?thesis
            using None False tag field_none [of tag]
            by (simp add: turn_c_def turn_s_def pbind_assoc case_prod_unfold)
        qed
      next
        case (Some f)
        then obtain g where g: "field_s tag = Some g" using field_none [of tag] by auto
        have "agree bs d (group_depth c) (pbind (g bs m (p + n)) (\<lambda>(p, m). Ok (p, m, None))) (f m (ptr' + n) c')"
          using field_agree [OF Some g tag(4) ten] D by simp
        from cont [OF this, of "\<lambda>m. m"] show ?thesis
          using Some g tag by (simp add: turn_c_def turn_s_def pbind_assoc case_prod_unfold)
      qed
    next
      fix tag n
      assume tag: "spec_read ReadTag bs p = OOB" "read_at ReadTag ptr' c' = Ok (tag, ptr' + n)"
        "over bs 5 c' (ptr' + n)"
      then show "agree bs d (group_depth c)
          (pbind (spec_read ReadTag bs p) (\<lambda>(tag, p). turn_s field_s get set_u spec fuel bs d m tag p))
          (pbind (read_at ReadTag ptr' c') (\<lambda>(tag, ptr). turn_c field_c get set_u parse fuel m tag ptr c'))"
        using turn_over [OF tag(3), of fuel m tag] by (auto simp: agree_def)
    qed (auto simp: agree_def)
  qed
qed

lemma spec_fuel: "length bs - p \<le> fuel \<Longrightarrow> p \<le> length bs \<Longrightarrow> spec fuel bs d m p \<noteq> NoFuel"
proof (induction fuel arbitrary: m p)
  case 0
  then show ?case by (subst spec_eq) simp
next
  case (Suc fuel)
  show ?case
  proof
    assume nf: "spec (Suc fuel) bs d m p = NoFuel"
    then have lt: "\<not> length bs \<le> p" by (subst (asm) spec_eq) (auto split: if_splits)
    from nf lt obtain tag q where q: "spec_read ReadTag bs p = Ok (tag, q)"
      "turn_s field_s get set_u spec fuel bs d m tag q = NoFuel"
      by (subst (asm) spec_eq) (auto simp: pbind_NoFuel tag_rd.spec_read_clean)
    have q': "p < q" "q \<le> length bs" using tag_rd.spec_read_ok [OF q(1)] by simp_all
    then have enough: "length bs - q \<le> fuel" using Suc.prems by simp
    have IH: "spec fuel bs d m' q' \<noteq> NoFuel" if "q \<le> q'" "q' \<le> length bs" for m' q'
      using that enough by (intro Suc.IH) auto
    show False
    proof (cases "field_s tag")
      case None
      with q(2) obtain r u where "\<not> (tag = 0 \<or> tag AND 7 = 4)" "wp_field fuel bs d tag (get m) q = Ok (r, u)"
        "spec fuel bs d (set_u u m) r = NoFuel"
        using fuel_enough(2) [OF enough] by (auto simp: turn_s_def pbind_NoFuel split: if_splits)
      then show False using wp_ok(2) q'(2) IH by blast
    next
      case (Some g)
      with q(2) obtain r m' where "g bs m q = Ok (r, m')" "spec fuel bs d m' r = NoFuel"
        using field_fuel [OF Some] by (auto simp: turn_s_def pbind_NoFuel)
      then show False using field_ok [OF Some] IH by blast
    qed
  qed
qed

end

section \<open>The two messages\<close>

lemma tag_small: "drop_bit 3 (tag :: u32) = of_nat k \<Longrightarrow> k < 16 \<Longrightarrow> (ucast tag :: byte) = of_nat n \<Longrightarrow> n < 256 \<Longrightarrow> tag = of_nat n"
proof -
  assume a: "drop_bit 3 tag = of_nat k" "k < 16" "(ucast tag :: byte) = of_nat n" "n < 256"
  have "unat (drop_bit 3 tag) = unat tag div 8" by (simp add: unat_drop_bit_eq drop_bit_nat_def)
  moreover have "unat (of_nat k :: u32) = k" using a(2) by (intro unat_of_nat_u32) simp
  ultimately have "unat tag div 8 = k" using a(1) by simp
  then have "unat tag < 256" using a(2) by linarith
  moreover have "unat (ucast tag :: byte) = unat tag mod 256"
    by (simp add: unsigned_ucast_eq take_bit_nat_def)
  moreover have "unat (of_nat n :: byte) = n" using a(4) by (simp add: unsigned_of_nat take_bit_nat_eq_self)
  moreover have "unat (ucast tag :: byte) = unat (of_nat n :: byte)" using a(3) by (rule arg_cong)
  ultimately have "unat tag = n" by (metis mod_less)
  then have "of_nat (unat tag) = (of_nat n :: u32)" by (rule arg_cong)
  then show ?thesis by simp
qed

lemma tag_10: "drop_bit 3 (tag :: u32) = 1 \<and> (ucast tag :: byte) = 10 \<longleftrightarrow> tag = 10"
  using tag_small [of tag 1 10] by auto

lemma tag_16: "drop_bit 3 (tag :: u32) = 2 \<and> (ucast tag :: byte) = 16 \<longleftrightarrow> tag = 16"
  using tag_small [of tag 2 16] by auto

lemma VerifyUTF8_valid: "VerifyUTF8 str \<longleftrightarrow> valid_utf8 str"
  by (simp add: VerifyUTF8_def IsStructurallyValidUTF8_valid)

definition C_field_c :: "u32 \<Rightarrow> (C_Chat \<Rightarrow> nat \<Rightarrow> parse_ctx \<Rightarrow> (nat \<times> C_Chat \<times> parse_ctx) pres) option" where
  "C_field_c tag =
     (if tag = 10 then Some (\<lambda>m ptr c. pbind (InlineGreedyStringParser ptr c) (\<lambda>(ptr, str, c).
        if VerifyUTF8 str then Ok (ptr, m\<lparr>C_message := str\<rparr>, c) else Null)) else None)"

definition C_field_s :: "u32 \<Rightarrow> (byte list \<Rightarrow> C_Chat \<Rightarrow> nat \<Rightarrow> (nat \<times> C_Chat) pres) option" where
  "C_field_s tag =
     (if tag = 10 then Some (\<lambda>bs m p. pbind (wp_string bs p) (\<lambda>(p, str).
        if valid_utf8 str then Ok (p, m\<lparr>C_message := str\<rparr>) else Null)) else None)"

definition S_field_c :: "u32 \<Rightarrow> (S_Chat \<Rightarrow> nat \<Rightarrow> parse_ctx \<Rightarrow> (nat \<times> S_Chat \<times> parse_ctx) pres) option" where
  "S_field_c tag =
     (if tag = 10 then Some (\<lambda>m ptr c. pbind (InlineGreedyStringParser ptr c) (\<lambda>(ptr, str, c).
        if VerifyUTF8 str then Ok (ptr, m\<lparr>S_message := str\<rparr>, c) else Null))
      else if tag = 16 then Some (\<lambda>m ptr c. pbind (read_at VarintParse32 ptr c) (\<lambda>(v, ptr).
        Ok (ptr, m\<lparr>S_senderid := v\<rparr>, c)))
      else None)"

definition S_field_s :: "u32 \<Rightarrow> (byte list \<Rightarrow> S_Chat \<Rightarrow> nat \<Rightarrow> (nat \<times> S_Chat) pres) option" where
  "S_field_s tag =
     (if tag = 10 then Some (\<lambda>bs m p. pbind (wp_string bs p) (\<lambda>(p, str).
        if valid_utf8 str then Ok (p, m\<lparr>S_message := str\<rparr>) else Null))
      else if tag = 16 then Some (\<lambda>bs m p. pbind (spec_read VarintParse32 bs p) (\<lambda>(v, p).
        Ok (p, m\<lparr>S_senderid := v\<rparr>)))
      else None)"

text \<open>A string field, checked for UTF-8, agrees with its reference.\<close>

lemma utf8_field_agree:
  assumes "sim bs c ptr p" and "5 \<le> length (from_ptr c ptr)" and "last_tag_minus_1 c = 0"
  shows "agree bs (depth c) (group_depth c)
    (pbind (pbind (wp_string bs p) (\<lambda>(p, str). if valid_utf8 str then Ok (p, upd str) else Null))
       (\<lambda>(p, m). Ok (p, m, None)))
    (pbind (InlineGreedyStringParser ptr c) (\<lambda>(ptr, str, c).
       if VerifyUTF8 str then Ok (ptr, upd str, c) else Null))"
  using string_sim [OF assms(1,2)] assms(3)
  by (cases "wp_string bs p") (auto simp: agree_def ends_with_def VerifyUTF8_valid)

lemma utf8_field_over:
  assumes "over bs 5 c ptr"
  shows "pbind (InlineGreedyStringParser ptr c) (\<lambda>(ptr, str, c).
       if VerifyUTF8 str then Ok (ptr, upd str, c) else Null) = Null
    \<or> (\<exists>ptr' m' c'. pbind (InlineGreedyStringParser ptr c) (\<lambda>(ptr, str, c).
       if VerifyUTF8 str then Ok (ptr, upd str, c) else Null) = Ok (ptr', m', c') \<and> over bs 16 c' ptr')"
  using string_over [OF assms] by auto

lemma utf8_field_ok:
  "pbind (wp_string bs p) (\<lambda>(p, str). if valid_utf8 str then Ok (p, upd str) else Null) = Ok (p', m')
     \<Longrightarrow> p \<le> p' \<and> p' \<le> length bs"
  by (auto simp: pbind_eq_Ok split: if_splits dest!: wp_string_ok)

lemma utf8_field_fuel:
  "pbind (wp_string bs p) (\<lambda>(p, str). if valid_utf8 str then Ok (p, upd str) else Null) \<noteq> NoFuel"
  by (auto simp: pbind_NoFuel wp_string_clean split: if_splits)

interpretation c_chat: message_parser C_field_c C_field_s C_unknown "\<lambda>u m. m\<lparr>C_unknown := u\<rparr>"
    C_Chat_InternalParse C_wp
proof
  fix fuel m ptr c
  show "C_Chat_InternalParse fuel m ptr c =
     (case Done ptr c of (None, _, _) \<Rightarrow> Null | (Some ptr, True, c) \<Rightarrow> Ok (ptr, m, c)
      | (Some ptr, False, c) \<Rightarrow> (case fuel of 0 \<Rightarrow> NoFuel | Suc fuel \<Rightarrow>
          pbind (read_at ReadTag ptr c) (\<lambda>(tag, ptr).
            turn_c C_field_c C_unknown (\<lambda>u m. m\<lparr>C_unknown := u\<rparr>) C_Chat_InternalParse fuel m tag ptr c)))"
    by (subst C_Chat_InternalParse.simps)
      (auto simp: turn_c_def C_field_c_def tag_10 UnknownFieldParse_def pbind_assoc intro!: pbind_cong
        split: prod.split option.split bool.split nat.split)
next
  fix fuel bs d m p
  show "C_wp fuel bs d m p =
     (if length bs \<le> p then Ok (p, m, None) else (case fuel of 0 \<Rightarrow> NoFuel | Suc fuel \<Rightarrow>
        pbind (spec_read ReadTag bs p) (\<lambda>(tag, p).
          turn_s C_field_s C_unknown (\<lambda>u m. m\<lparr>C_unknown := u\<rparr>) C_wp fuel bs d m tag p)))"
    by (subst C_wp.simps)
      (auto simp: turn_s_def C_field_s_def pbind_assoc intro!: pbind_cong split: prod.split nat.split)
next
  fix tag f g bs c ptr p m
  assume "C_field_c tag = Some f" "C_field_s tag = Some g" "sim bs c ptr p"
    "10 \<le> length (from_ptr c ptr)" "last_tag_minus_1 c = 0"
  then show "agree bs (depth c) (group_depth c) (pbind (g bs m p) (\<lambda>(p, m). Ok (p, m, None))) (f m ptr c)"
    using utf8_field_agree [of bs c ptr p "\<lambda>str. m\<lparr>C_message := str\<rparr>"]
    by (auto simp: C_field_c_def C_field_s_def split: if_splits)
next
  fix tag f bs c ptr m
  assume "C_field_c tag = Some f" "over bs 5 c ptr"
  then show "f m ptr c = Null \<or> (\<exists>ptr' m' c'. f m ptr c = Ok (ptr', m', c') \<and> over bs 16 c' ptr')"
    using utf8_field_over [of bs c ptr "\<lambda>str. m\<lparr>C_message := str\<rparr>"]
    by (auto simp: C_field_c_def split: if_splits)
next
  fix tag g bs m p p' m'
  assume "C_field_s tag = Some g" "g bs m p = Ok (p', m')"
  then show "p \<le> p' \<and> p' \<le> length bs"
    using utf8_field_ok [of bs p "\<lambda>str. m\<lparr>C_message := str\<rparr>"]
    by (auto simp: C_field_s_def split: if_splits)
next
  fix tag g bs m p
  assume "C_field_s tag = Some g"
  then show "g bs m p \<noteq> NoFuel"
    using utf8_field_fuel [of bs p "\<lambda>str. m\<lparr>C_message := str\<rparr>"]
    by (auto simp: C_field_s_def split: if_splits)
qed (simp add: C_field_c_def C_field_s_def)

interpretation s_chat: message_parser S_field_c S_field_s S_unknown "\<lambda>u m. m\<lparr>S_unknown := u\<rparr>"
    S_Chat_InternalParse S_wp
proof
  fix fuel m ptr c
  show "S_Chat_InternalParse fuel m ptr c =
     (case Done ptr c of (None, _, _) \<Rightarrow> Null | (Some ptr, True, c) \<Rightarrow> Ok (ptr, m, c)
      | (Some ptr, False, c) \<Rightarrow> (case fuel of 0 \<Rightarrow> NoFuel | Suc fuel \<Rightarrow>
          pbind (read_at ReadTag ptr c) (\<lambda>(tag, ptr).
            turn_c S_field_c S_unknown (\<lambda>u m. m\<lparr>S_unknown := u\<rparr>) S_Chat_InternalParse fuel m tag ptr c)))"
    by (subst S_Chat_InternalParse.simps)
      (auto simp: turn_c_def S_field_c_def tag_10 tag_16 UnknownFieldParse_def pbind_assoc intro!: pbind_cong
        split: prod.split option.split bool.split nat.split)
next
  fix fuel bs d m p
  show "S_wp fuel bs d m p =
     (if length bs \<le> p then Ok (p, m, None) else (case fuel of 0 \<Rightarrow> NoFuel | Suc fuel \<Rightarrow>
        pbind (spec_read ReadTag bs p) (\<lambda>(tag, p).
          turn_s S_field_s S_unknown (\<lambda>u m. m\<lparr>S_unknown := u\<rparr>) S_wp fuel bs d m tag p)))"
    by (subst S_wp.simps)
      (auto simp: turn_s_def S_field_s_def pbind_assoc intro!: pbind_cong split: prod.split nat.split)
next
  fix tag f g bs c ptr p m
  assume "S_field_c tag = Some f" "S_field_s tag = Some g" "sim bs c ptr p"
    "10 \<le> length (from_ptr c ptr)" "last_tag_minus_1 c = 0"
  then show "agree bs (depth c) (group_depth c) (pbind (g bs m p) (\<lambda>(p, m). Ok (p, m, None))) (f m ptr c)"
    using utf8_field_agree [of bs c ptr p "\<lambda>str. m\<lparr>S_message := str\<rparr>"]
      v32_rd.prim_agree [of bs c ptr p "\<lambda>v. m\<lparr>S_senderid := v\<rparr>"]
    by (auto simp: S_field_c_def S_field_s_def field_pbind split: if_splits)
next
  fix tag f bs c ptr m
  assume "S_field_c tag = Some f" "over bs 5 c ptr"
  then show "f m ptr c = Null \<or> (\<exists>ptr' m' c'. f m ptr c = Ok (ptr', m', c') \<and> over bs 16 c' ptr')"
    using utf8_field_over [of bs c ptr "\<lambda>str. m\<lparr>S_message := str\<rparr>"] v32_rd.read_over16 [of bs 5 c ptr]
    by (auto simp: S_field_c_def split: if_splits)
next
  fix tag g bs m p p' m'
  assume "S_field_s tag = Some g" "g bs m p = Ok (p', m')"
  then show "p \<le> p' \<and> p' \<le> length bs"
    using utf8_field_ok [of bs p "\<lambda>str. m\<lparr>S_message := str\<rparr>"]
    by (auto simp: S_field_s_def pbind_eq_Ok split: if_splits dest!: v32_rd.spec_read_ok)
next
  fix tag g bs m p
  assume "S_field_s tag = Some g"
  then show "g bs m p \<noteq> NoFuel"
    using utf8_field_fuel [of bs p "\<lambda>str. m\<lparr>S_message := str\<rparr>"]
    by (auto simp: S_field_s_def pbind_NoFuel v32_rd.spec_read_clean split: if_splits)
qed (simp add: S_field_c_def S_field_s_def)

end
