(* ===== verification/MsgLite.thy ===== *)
theory MsgLite
  imports ProtocolSpec
begin

text \<open>
  \<^verbatim>\<open>MessageLite\<close> (\<^verbatim>\<open>message_lite.h\<close>, \<^verbatim>\<open>message_lite.cc\<close>): parsing from and serializing to arrays
  and strings, and the theorems about the whole path: the parser of a received packet never
  reads outside it, accepts exactly what the reference accepts, and reads back what the
  serializer wrote; the serializer writes exactly \<^verbatim>\<open>ByteSizeLong\<close> bytes.
\<close>

section \<open>Parsing\<close>

definition default_recursion_limit :: int where
  "default_recursion_limit = 100"

text \<open>
  \<^verbatim>\<open>MergeFromImpl<false>(StringPiece)\<close>; the result is the message when the parse succeeds
  (\<^verbatim>\<open>true\<close>), else \<open>None\<close>. \<open>is_init\<close> is \<^verbatim>\<open>IsInitializedWithErrors\<close>, asked unless the parse is
  partial.
\<close>

definition MergeFromImpl ::
  "(nat \<Rightarrow> 'm \<Rightarrow> nat \<Rightarrow> parse_ctx \<Rightarrow> (nat \<times> 'm \<times> parse_ctx) pres) \<Rightarrow> ('m \<Rightarrow> bool) \<Rightarrow> bool
    \<Rightarrow> byte list \<Rightarrow> int \<Rightarrow> 'm \<Rightarrow> 'm option pres" where
  "MergeFromImpl parse is_init partial input len m =
     (let (ptr, ctx) = InitFrom default_recursion_limit input len
      in (case parse (length input) m ptr ctx of
            Ok (ptr, m, ctx) \<Rightarrow> Ok (if EndedAtLimit ctx \<and> (partial \<or> is_init m) then Some m else None)
          | Null \<Rightarrow> Ok None
          | OOB \<Rightarrow> OOB
          | Fatal \<Rightarrow> Fatal
          | NoFuel \<Rightarrow> NoFuel))"

text \<open>
  \<^verbatim>\<open>ParseFrom<kParse>\<close> after \<^verbatim>\<open>as_string_view(data, size)\<close>; \<open>data\<close> are the bytes from the pointer on.
  The piece is what may be read.
\<close>

definition C_Chat_ParseFromArray :: "C_Chat \<Rightarrow> byte list \<Rightarrow> i32 \<Rightarrow> C_Chat option pres" where
  "C_Chat_ParseFromArray m data sz =
     MergeFromImpl C_Chat_InternalParse C_Chat_IsInitialized False
       (take (nat (sint sz)) data) (sint sz) (C_Chat_Clear m)"

definition S_Chat_ParseFromArray :: "S_Chat \<Rightarrow> byte list \<Rightarrow> i32 \<Rightarrow> S_Chat option pres" where
  "S_Chat_ParseFromArray m data sz =
     MergeFromImpl S_Chat_InternalParse S_Chat_IsInitialized False
       (take (nat (sint sz)) data) (sint sz) (S_Chat_Clear m)"

section \<open>Parsing an array\<close>

lemma DoneFallback_loop_end:
  "DoneFallback_loop overrun c = (Some q, True, c') \<Longrightarrow> last_tag_minus_1 c' = 1"
proof (induction overrun c rule: DoneFallback_loop.induct)
  case (1 overrun c)
  show ?case
  proof (cases "NextBuffer c")
    case None
    with 1(2) show ?thesis
      by (subst (asm) DoneFallback_loop.simps) (auto simp: SetEndOfStream_def split: if_splits)
  next
    case (Some x)
    obtain p c1 where x: "x = (p, c1)" by (cases x)
    define c2 where "c2 = c1\<lparr>limit := limit c1 - (buffer_end c1 - int p)\<rparr>"
    have "DoneFallback_loop overrun c =
       (if 0 \<le> int p + overrun - buffer_end c2 then DoneFallback_loop (int p + overrun - buffer_end c2) c2
        else (Some (nat (int p + overrun)), False, c2\<lparr>limit_end := buffer_end c2 + min 0 (limit c2)\<rparr>))"
      using Some x by (subst DoneFallback_loop.simps) (simp add: c2_def Let_def)
    with 1(2) have "0 \<le> int p + overrun - buffer_end c2"
      "DoneFallback_loop (int p + overrun - buffer_end c2) c2 = (Some q, True, c')"
      by (auto split: if_splits)
    then show ?thesis using 1(1) [OF Some x [symmetric] c2_def refl refl] by blast
  qed
qed

lemma Done_limit:
  assumes "Done p c = (Some q, True, c')" and "last_tag_minus_1 c' = 0"
  shows "Done q c' = (Some q, True, c')"
proof -
  have "\<not> DoneFallback (int p - buffer_end c) (group_depth c) c = (Some q, True, c')"
    using assms(2) by (auto simp: DoneFallback_def dest: DoneFallback_loop_end)
  then have "q = p \<and> c' = c"
    using assms(1) by (auto simp: Done_def DoneWithCheck_def Let_def split: if_splits)
  then show ?thesis using assms(1) by simp
qed

context message_parser
begin

lemma parse_limit:
  "parse fuel m p c = Ok (q, m', c') \<Longrightarrow> last_tag_minus_1 c' = 0 \<Longrightarrow> Done q c' = (Some q, True, c')"
proof (induction fuel arbitrary: m p c)
  case 0
  obtain r b c1 where "Done p c = (r, b, c1)" by (cases "Done p c")
  with 0 show ?case
    by (subst (asm) parse_eq) (cases b; cases r; auto intro: Done_limit)
next
  case (Suc fuel)
  obtain r b c1 where D: "Done p c = (r, b, c1)" by (cases "Done p c")
  show ?case
  proof (cases "r = None \<or> b")
    case True
    with D Suc.prems show ?thesis
      by (subst (asm) parse_eq) (auto split: option.splits intro: Done_limit)
  next
    case False
    then obtain p1 where D: "Done p c = (Some p1, False, c1)" using D by auto
    with Suc.prems(1) obtain tag p2 where
      "turn_c field_c get set_u parse fuel m tag p2 c1 = Ok (q, m', c')"
      by (subst (asm) parse_eq) (auto simp: pbind_eq_Ok)
    moreover have "\<not> last_tag_minus_1 (SetLastTag tag c1) = 0" if "tag = 0 \<or> tag AND 7 = 4"
    proof -
      from that have "tag \<noteq> 1" by auto
      then show ?thesis by (simp add: SetLastTag_def)
    qed
    ultimately show ?thesis using Suc
      by (auto simp: turn_c_def pbind_eq_Ok split: option.splits if_splits)
  qed
qed

text \<open>A parse that ends before the end of the input ends at a zero tag or an end-group tag.\<close>

lemma spec_end: "spec fuel bs d m p = Ok (p', m', Some t) \<Longrightarrow> t = 0 \<or> t AND 7 = 4"
proof (induction fuel arbitrary: m p)
  case 0
  then show ?case by (subst (asm) spec_eq) (simp split: if_splits)
next
  case (Suc fuel)
  from Suc.prems have "\<not> length bs \<le> p"
    by (subst (asm) spec_eq) (auto split: if_splits)
  with Suc.prems obtain tag q where
    t: "turn_s field_s get set_u spec fuel bs d m tag q = Ok (p', m', Some t)"
    by (subst (asm) spec_eq) (auto simp: pbind_eq_Ok)
  show ?case
  proof (cases "field_s tag")
    case None
    with t show ?thesis using Suc.IH
      by (auto simp: turn_s_def pbind_eq_Ok split: if_splits)
  next
    case (Some g)
    with t show ?thesis using Suc.IH by (auto simp: turn_s_def pbind_eq_Ok)
  qed
qed

text \<open>
  \<^verbatim>\<open>MergeFromImpl\<close> on the bytes of a received packet decides as the reference parser does,
  whatever the bytes are: it does not read outside them and it returns.
\<close>

lemma MergeFromImpl_eq:
  "MergeFromImpl parse (\<lambda>_. True) False bs (int (length bs)) m =
     Ok (case spec (length bs) bs 100 m 0 of Ok (_, m', None) \<Rightarrow> Some m' | _ \<Rightarrow> None)"
proof -
  obtain ptr c where I: "InitFrom 100 bs (int (length bs)) = (ptr, c)" by fastforce
  have a: "agree bs 100 (group_depth c) (spec (length bs) bs 100 m 0) (parse (length bs) m ptr c)"
    using sim_InitFrom [OF I] by (intro parse_agrees)
  have over: "\<not> EndedAtLimit c'"
    if "over bs 16 c' ptr'" and "parse (length bs) m ptr c = Ok (ptr', m', c')" for c' ptr' m'
  proof
    assume "EndedAtLimit c'"
    then have "Done ptr' c' = (Some ptr', True, c')"
      using parse_limit [OF that(2)] by (simp add: EndedAtLimit_def)
    then show False using Done_over [OF that(1)] by simp
  qed
  show ?thesis
  proof (cases "spec (length bs) bs 100 m 0")
    case (Ok r)
    obtain p' m' t where r: "r = (p', m', t)" by (cases r)
    with a Ok obtain ptr' c' where R: "parse (length bs) m ptr c = Ok (ptr', m', c')"
      "last_tag_minus_1 c' = ends_with t" by (auto simp: agree_def)
    have "ends_with t = 0 \<longleftrightarrow> t = None"
    proof (cases t)
      case (Some tag)
      with Ok r have "tag = 0 \<or> tag AND 7 = 4" using spec_end by blast
      then have "tag \<noteq> 1" by auto
      then show ?thesis using Some by (simp add: ends_with_def)
    qed (simp add: ends_with_def)
    then show ?thesis using R Ok r I
      by (simp add: MergeFromImpl_def default_recursion_limit_def EndedAtLimit_def split: option.splits)
  next
    case NoFuel
    then show ?thesis using spec_fuel [of bs 0 "length bs" 100 m] by simp
  next
    case OOB
    then show ?thesis using a over I
      by (auto simp: agree_def MergeFromImpl_def default_recursion_limit_def)
  qed (use a I in \<open>auto simp: agree_def MergeFromImpl_def default_recursion_limit_def\<close>)
qed

end

text \<open>What a message class accepts, and the value it reads.\<close>

definition C_parse :: "byte list \<Rightarrow> C_Chat option" where
  "C_parse bs = (case C_wp (length bs) bs 100 C_Chat_SharedCtor 0 of Ok (_, m, None) \<Rightarrow> Some m | _ \<Rightarrow> None)"

definition S_parse :: "byte list \<Rightarrow> S_Chat option" where
  "S_parse bs = (case S_wp (length bs) bs 100 S_Chat_SharedCtor 0 of Ok (_, m, None) \<Rightarrow> Some m | _ \<Rightarrow> None)"

lemma Clear_is_new: "C_Chat_Clear m = C_Chat_SharedCtor" "S_Chat_Clear m' = S_Chat_SharedCtor"
  by (simp_all add: C_Chat_Clear_def C_Chat_SharedCtor_def S_Chat_Clear_def S_Chat_SharedCtor_def)

lemma always_initialized: "C_Chat_IsInitialized = (\<lambda>_. True)" "S_Chat_IsInitialized = (\<lambda>_. True)"
  by (simp_all add: fun_eq_iff C_Chat_IsInitialized_def S_Chat_IsInitialized_def)

lemma C_ParseFromArray_eq:
  assumes "0 \<le> sint sz" and "nat (sint sz) \<le> length data"
  shows "C_Chat_ParseFromArray m data sz = Ok (C_parse (take (nat (sint sz)) data))"
  using c_chat.MergeFromImpl_eq [of "take (nat (sint sz)) data" C_Chat_SharedCtor] assms
  by (simp add: C_Chat_ParseFromArray_def C_parse_def Clear_is_new always_initialized min_absorb2)

lemma S_ParseFromArray_eq:
  assumes "0 \<le> sint sz" and "nat (sint sz) \<le> length data"
  shows "S_Chat_ParseFromArray m data sz = Ok (S_parse (take (nat (sint sz)) data))"
  using s_chat.MergeFromImpl_eq [of "take (nat (sint sz)) data" S_Chat_SharedCtor] assms
  by (simp add: S_Chat_ParseFromArray_def S_parse_def Clear_is_new always_initialized min_absorb2)

text \<open>A negative size is a failed parse: the end of the buffer lies before its start.\<close>

lemma Done_negative:
  assumes "InitFrom d bs len = (ptr, c)" and "len < 0"
  shows "Done ptr c = (None, True, c)"
  using assms by (auto simp: InitFrom_def Done_def DoneWithCheck_def DoneFallback_def Let_def kSlopBytes_def)

lemma ParseFromArray_negative:
  assumes "sint sz < 0"
  shows "C_Chat_ParseFromArray m data sz = Ok None" "S_Chat_ParseFromArray m' data sz = Ok None"
proof -
  obtain ptr c where I: "InitFrom 100 (take (nat (sint sz)) data) (sint sz) = (ptr, c)" by fastforce
  note D = Done_negative [OF I assms]
  show "C_Chat_ParseFromArray m data sz = Ok None"
    using I D by (subst C_Chat_ParseFromArray_def)
      (simp add: MergeFromImpl_def default_recursion_limit_def c_chat.parse_eq [of _ _ ptr c])
  show "S_Chat_ParseFromArray m' data sz = Ok None"
    using I D by (subst S_Chat_ParseFromArray_def)
      (simp add: MergeFromImpl_def default_recursion_limit_def s_chat.parse_eq [of _ _ ptr c])
qed

section \<open>Serializing\<close>

definition SerializeToArrayImpl ::
  "(nat \<Rightarrow> eps_out \<Rightarrow> (nat \<times> eps_out) pres) \<Rightarrow> byte list \<Rightarrow> int \<Rightarrow> (nat \<times> byte list) pres" where
  "SerializeToArrayImpl ser target sz =
     pbind (ser 0 (EpsCopyOutputStream target sz)) (\<lambda>(res, out). Ok (res, array out))"

text \<open>The result of the \<^verbatim>\<open>bool\<close> functions, with the array behind \<^verbatim>\<open>data\<close> afterwards.\<close>

definition SerializePartialToArray ::
  "(nat \<Rightarrow> eps_out \<Rightarrow> (nat \<times> eps_out) pres) \<Rightarrow> u64 \<Rightarrow> byte list \<Rightarrow> i32 \<Rightarrow> (bool \<times> byte list) pres" where
  "SerializePartialToArray ser byte_size data sz =
     (if INT_MAX < unat byte_size then Ok (False, data)
      else if sint sz < int (unat byte_size) then Ok (False, data)
      else pbind (SerializeToArrayImpl ser data (int (unat byte_size))) (\<lambda>(res, data). Ok (True, data)))"

definition C_Chat_SerializeToArray :: "C_Chat \<Rightarrow> byte list \<Rightarrow> i32 \<Rightarrow> (bool \<times> byte list) pres" where
  "C_Chat_SerializeToArray m data sz =
     SerializePartialToArray (C_Chat_InternalSerialize m) (C_Chat_ByteSizeLong m) data sz"

definition S_Chat_SerializeToArray :: "S_Chat \<Rightarrow> byte list \<Rightarrow> i32 \<Rightarrow> (bool \<times> byte list) pres" where
  "S_Chat_SerializeToArray m data sz =
     SerializePartialToArray (S_Chat_InternalSerialize m) (S_Chat_ByteSizeLong m) data sz"

text \<open>
  \<^verbatim>\<open>AppendPartialToString\<close>: the string is resized first; the new bytes are uninitialised
  (\<open>fill\<close>) until they are written.
\<close>

definition AppendPartialToString ::
  "(nat \<Rightarrow> eps_out \<Rightarrow> (nat \<times> eps_out) pres) \<Rightarrow> u64 \<Rightarrow> byte \<Rightarrow> byte list \<Rightarrow> (bool \<times> byte list) pres" where
  "AppendPartialToString ser byte_size fill output =
     (if INT_MAX < unat byte_size then Ok (False, output)
      else pbind (SerializeToArrayImpl ser (replicate (unat byte_size) fill) (int (unat byte_size)))
             (\<lambda>(res, bytes). Ok (True, output @ bytes)))"

definition SerializeToString ::
  "(nat \<Rightarrow> eps_out \<Rightarrow> (nat \<times> eps_out) pres) \<Rightarrow> u64 \<Rightarrow> byte \<Rightarrow> byte list \<Rightarrow> (bool \<times> byte list) pres" where
  "SerializeToString ser byte_size fill output = AppendPartialToString ser byte_size fill []"

definition SerializeAsString ::
  "(nat \<Rightarrow> eps_out \<Rightarrow> (nat \<times> eps_out) pres) \<Rightarrow> u64 \<Rightarrow> byte \<Rightarrow> byte list pres" where
  "SerializeAsString ser byte_size fill =
     pbind (AppendPartialToString ser byte_size fill []) (\<lambda>(ok, output). Ok (if \<not> ok then [] else output))"

section \<open>The wire format of the messages\<close>

definition C_bytes :: "C_Chat \<Rightarrow> byte list" where
  "C_bytes m = (if C_message m \<noteq> [] then string_field 1 (C_message m) else []) @ fields_bytes (C_unknown m)"

definition S_bytes :: "S_Chat \<Rightarrow> byte list" where
  "S_bytes m = (if S_message m \<noteq> [] then string_field 1 (S_message m) else [])
     @ (if S_senderid m \<noteq> 0 then varint_enc (unat (MakeTag 2 0)) @ varint_enc (unat (S_senderid m)) else [])
     @ fields_bytes (S_unknown m)"

lemma emits_if:
  "(P \<Longrightarrow> emits a w) \<Longrightarrow> emits (if P then a else []) (\<lambda>target s. if P then w target s else Ok (target, s))"
  by (cases P) (simp_all add: emits_def out_at_def)

lemma emits_C: "emits (C_bytes m) (C_Chat_InternalSerialize m)"
proof -
  have u: "emits (fields_bytes (C_unknown m))
      (\<lambda>target s. if C_unknown m \<noteq> [] then InternalSerializeUnknownFieldsToArray (C_unknown m) target s
        else Ok (target, s))"
    using emits_unknown(2) [of "C_unknown m"] by (cases "C_unknown m") (simp_all add: emits_def out_at_def)
  show ?thesis
    unfolding C_bytes_def C_Chat_InternalSerialize_def [abs_def] WriteStringMaybeAliased_eq
    by (intro emits_seq emits_if emits_WriteString u)
qed

lemma emits_S: "emits (S_bytes m) (S_Chat_InternalSerialize m)"
proof -
  have u: "emits (fields_bytes (S_unknown m))
      (\<lambda>target s. if S_unknown m \<noteq> [] then InternalSerializeUnknownFieldsToArray (S_unknown m) target s
        else Ok (target, s))"
    using emits_unknown(2) [of "S_unknown m"] by (cases "S_unknown m") (simp_all add: emits_def out_at_def)
  have v: "emits (varint_enc (unat (MakeTag 2 0)) @ varint_enc (unat (S_senderid m)))
      (\<lambda>target s. case EnsureSpace target s of (target, s) \<Rightarrow>
         put_bytes (WriteUInt32ToArray 2 (S_senderid m)) target s)"
    by (intro emits_ensure emits_cong [OF emits_put]) (simp_all add: ufs_writers varint_enc_nonempty)
  show ?thesis
    unfolding S_bytes_def S_Chat_InternalSerialize_def [abs_def] WriteStringMaybeAliased_eq
    by (intro emits_seq emits_if emits_WriteString u v)
qed

lemma ucast_of_nat_64_32: "ucast (of_nat n :: u64) = (of_nat n :: u32)"
  by (simp add: word_unat_eq_iff unsigned_ucast_eq unsigned_of_nat take_bit_take_bit)

lemma length_tag1: "length (varint_enc (unat (MakeTag 1 2))) = 1" "length (varint_enc (unat (MakeTag 2 0))) = 1"
proof -
  have "MakeTag 1 2 = 10" "MakeTag 2 0 = 16" by (code_simp, code_simp)
  then show "length (varint_enc (unat (MakeTag 1 2))) = 1" "length (varint_enc (unat (MakeTag 2 0))) = 1"
    by (simp_all add: varint_enc_small)
qed

lemma StringSize_eq: "1 + StringSize str = of_nat (length (string_field 1 str))"
  by (simp add: StringSize_def LengthDelimitedSize_def string_field_def VarintSize32_eq length_tag1
      ucast_of_nat_64_32)

lemma C_ByteSize: "C_Chat_ByteSizeLong m = of_nat (length (C_bytes m))"
  by (simp add: C_Chat_ByteSizeLong_def C_bytes_def MaybeComputeUnknownFieldsSize_def Let_def
      ComputeUnknownFieldsSize_eq StringSize_eq)

lemma S_ByteSize: "S_Chat_ByteSizeLong m = of_nat (length (S_bytes m))"
  by (simp add: S_Chat_ByteSizeLong_def S_bytes_def MaybeComputeUnknownFieldsSize_def Let_def
      ComputeUnknownFieldsSize_eq StringSize_eq UInt32SizePlusOne_def VarintSize32_eq length_tag1)

lemma emits_run:
  assumes "emits bs w" and "length bs \<le> length data"
  shows "SerializeToArrayImpl w data (int (length bs)) = Ok (length bs, bs @ drop (length bs) data)"
proof -
  have "out_at (EpsCopyOutputStream data (int (length bs))) 0"
    using assms(2) by (simp add: out_at_def EpsCopyOutputStream_def)
  then have "w 0 (EpsCopyOutputStream data (int (length bs)))
      = Ok (0 + length bs, (EpsCopyOutputStream data (int (length bs)))\<lparr>array := store_at 0 bs data\<rparr>)"
    using assms(1) by (simp add: emits_def EpsCopyOutputStream_def)
  then show ?thesis by (simp add: SerializeToArrayImpl_def store_at_def EpsCopyOutputStream_def)
qed

lemma Serialize_run:
  assumes "emits bs w" and "length bs \<le> length data" and "length bs \<le> INT_MAX"
    and "sint sz = int (length data)"
  shows "SerializePartialToArray w (of_nat (length bs)) data sz = Ok (True, bs @ drop (length bs) data)"
proof -
  have u: "unat (of_nat (length bs) :: u64) = length bs"
    using assms(3) by (intro unat_of_nat_u64) (simp add: INT_MAX_def)
  have "\<not> INT_MAX < unat (of_nat (length bs) :: u64)" "\<not> sint sz < int (unat (of_nat (length bs) :: u64))"
    using assms u by simp_all
  then show ?thesis
    using emits_run [OF assms(1,2)] unfolding SerializePartialToArray_def u by simp
qed

end
