(* ===== verification/RoundTrip.thy ===== *)
theory RoundTrip
  imports MsgLite
begin

text \<open>
  Reading back what was written. \<open>wf_field d f\<close> says which fields the wire format can carry to
  a reader with a recursion budget of \<open>d\<close>: a field number of 29 bits that is not 0, a string
  that \<^verbatim>\<open>ReadSize\<close> accepts, groups no deeper than \<open>d\<close>.
\<close>

section \<open>Fields that can be read back\<close>

definition wf_num :: "u32 \<Rightarrow> bool" where
  "wf_num n \<longleftrightarrow> n \<noteq> 0 \<and> unat n < 2 ^ 29"

fun wf_field :: "int \<Rightarrow> unknown_field \<Rightarrow> bool"
  and wf_fields :: "int \<Rightarrow> UnknownFieldSet \<Rightarrow> bool"
where
  "wf_field d (TYPE_VARINT n v) = wf_num n"
| "wf_field d (TYPE_FIXED32 n v) = wf_num n"
| "wf_field d (TYPE_FIXED64 n v) = wf_num n"
| "wf_field d (TYPE_LENGTH_DELIMITED n s) = (wf_num n \<and> length s \<le> INT_MAX - kSlopBytes)"
| "wf_field d (TYPE_GROUP n grp) = (wf_num n \<and> 0 \<le> d - 1 \<and> wf_fields (d - 1) grp)"
| "wf_fields d [] = True"
| "wf_fields d (f # fs) = (wf_field d f \<and> wf_fields d fs)"

fun wire_type :: "unknown_field \<Rightarrow> u32" where
  "wire_type (TYPE_VARINT n v) = 0"
| "wire_type (TYPE_FIXED32 n v) = 5"
| "wire_type (TYPE_FIXED64 n v) = 1"
| "wire_type (TYPE_LENGTH_DELIMITED n s) = 2"
| "wire_type (TYPE_GROUP n grp) = 3"

definition tag_of :: "unknown_field \<Rightarrow> u32" where
  "tag_of f = MakeTag (number f) (wire_type f)"

lemma unat_MakeTag:
  assumes "unat n < 2 ^ 29" and "unat w < 8"
  shows "unat (MakeTag n w) = 8 * unat n + unat w"
proof -
  have p: "push_bit 3 n = n * 8" by (simp add: push_bit_eq_mult)
  have w: "take_bit 3 w = w"
    using assms(2) by (simp add: word_unat_eq_iff unsigned_take_bit_eq take_bit_nat_eq_self)
  have "push_bit 3 n AND w = 0"
    by (subst w [symmetric]) (auto intro!: bit_word_eqI simp: bit_simps)
  then have "MakeTag n w = n * 8 + w"
    by (simp add: MakeTag_def disjunctive_add_eq_or flip: p)
  moreover have "unat (n * 8 + w) = 8 * unat n + unat w"
    using assms by (simp add: unat_word_ariths)
  ultimately show ?thesis by simp
qed

lemma MakeTag_parts:
  assumes "unat n < 2 ^ 29" and "unat w < 8"
  shows "drop_bit 3 (MakeTag n w) = n" "MakeTag n w AND 7 = w"
proof -
  note u = unat_MakeTag [OF assms]
  have "unat (drop_bit 3 (MakeTag n w)) = unat n"
    using assms by (simp add: unat_drop_bit_eq drop_bit_nat_def u)
  then show "drop_bit 3 (MakeTag n w) = n" by (simp add: word_unat_eq_iff)
  have m: "x AND 7 = take_bit 3 x" for x :: u32 by (simp add: take_bit_eq_mask mask_eq_decr_exp)
  have "unat (MakeTag n w AND 7) = unat w"
    unfolding m using assms by (simp add: unsigned_take_bit_eq take_bit_nat_def u)
  then show "MakeTag n w AND 7 = w" by (simp add: word_unat_eq_iff)
qed

lemma MakeTag_end: "unat n < 2 ^ 29 \<Longrightarrow> MakeTag n 4 = n * 8 + 4"
  using unat_MakeTag [of n 4] by (simp add: word_unat_eq_iff unat_word_ariths)


lemma tag_of_parts:
  assumes "wf_num (number f)"
  shows "drop_bit 3 (tag_of f) = number f" "tag_of f AND 7 = wire_type f" "tag_of f \<noteq> 0" "tag_of f AND 7 \<noteq> 4"
proof -
  have w: "unat (wire_type f) < 8" "wire_type f \<noteq> 4" by (cases f; simp)+
  have n: "unat (number f) < 2 ^ 29" "number f \<noteq> 0" using assms by (simp_all add: wf_num_def)
  show *: "drop_bit 3 (tag_of f) = number f" "tag_of f AND 7 = wire_type f"
    using MakeTag_parts [OF n(1) w(1)] by (simp_all add: tag_of_def)
  show "tag_of f \<noteq> 0" "tag_of f AND 7 \<noteq> 4" using * n w by auto
qed

lemma wf_field_num: "wf_field d f \<Longrightarrow> wf_num (number f)"
  by (cases f) simp_all

section \<open>The parser of unknown fields reads back what was serialized\<close>

lemma spec_read_pre:
  "rdr (x @ rest) = Ok (v, k) \<Longrightarrow> spec_read rdr (pre @ x @ rest) (length pre) = Ok (v, length pre + k)"
  by (simp add: spec_read_def)

lemma wp_string_pre:
  assumes "length s \<le> INT_MAX - kSlopBytes"
  shows "wp_string (pre @ varint_enc (unat (of_nat (length s) :: u32)) @ s @ rest) (length pre)
    = Ok (length pre + length (varint_enc (unat (of_nat (length s) :: u32))) + length s, s)"
proof -
  have u: "unat (of_nat (length s) :: u32) = length s"
    using assms by (intro unat_of_nat_u32) (simp add: INT_MAX_def kSlopBytes_def)
  show ?thesis
  unfolding wp_string_def u spec_read_pre [where rdr = ReadSize, OF ReadSize_enc [OF assms]]
    by (simp add: u)
qed

text \<open>What \<open>bs\<close> holds from \<open>p\<close> on is the field \<open>f\<close>, and the parser reads it.\<close>

definition reads_back :: "int \<Rightarrow> unknown_field \<Rightarrow> bool" where
  "reads_back d f \<longleftrightarrow> (\<forall>pre rest fuel ufs. length (field_bytes f) \<le> Suc fuel \<longrightarrow>
     (\<exists>q. spec_read ReadTag (pre @ field_bytes f @ rest) (length pre) = Ok (tag_of f, q)
        \<and> wp_field fuel (pre @ field_bytes f @ rest) d (tag_of f) ufs q
            = Ok (length pre + length (field_bytes f), ufs @ [f])))"

lemma reads_backI:
  assumes "wf_num (number f)" and "field_bytes f = varint_enc (unat (tag_of f)) @ body"
    and "\<And>pre rest fuel ufs. length (varint_enc (unat (tag_of f)) @ body) \<le> Suc fuel \<Longrightarrow>
       wp_field fuel (pre @ body @ rest) d (tag_of f) ufs (length pre) = Ok (length pre + length body, ufs @ [f])"
  shows "reads_back d f"
  unfolding reads_back_def
proof (intro allI impI)
  fix pre rest fuel ufs
  let ?t = "varint_enc (unat (tag_of f))"
  assume "length (field_bytes f) \<le> Suc fuel"
  then have "length (?t @ body) \<le> Suc fuel" by (simp add: assms(2))
  from assms(3) [OF this, of "pre @ ?t" rest ufs]
  have "wp_field fuel (pre @ field_bytes f @ rest) d (tag_of f) ufs (length pre + length ?t)
      = Ok (length pre + length (field_bytes f), ufs @ [f])" by (simp add: assms(2))
  moreover have "spec_read ReadTag (pre @ field_bytes f @ rest) (length pre) = Ok (tag_of f, length pre + length ?t)"
    unfolding assms(2) append_assoc by (intro spec_read_pre ReadTag_enc)
  ultimately show "\<exists>q. spec_read ReadTag (pre @ field_bytes f @ rest) (length pre) = Ok (tag_of f, q)
      \<and> wp_field fuel (pre @ field_bytes f @ rest) d (tag_of f) ufs q = Ok (length pre + length (field_bytes f), ufs @ [f])"
    by blast
qed

lemma ReadFixed_enc:
  "ReadFixed32 (le_bytes 4 (unat (v :: u32)) @ rest) = Ok (v, 4)"
  "ReadFixed64 (le_bytes 8 (unat (w :: u64)) @ rest) = Ok (w, 8)"
  using UnalignedLoad32_write [of v rest] UnalignedLoad64_write [of w rest]
  by (simp_all add: ReadFixed32_def ReadFixed64_def WriteLittleEndian32ToArray_def WriteLittleEndian64ToArray_def)

lemmas spec_reads =
  spec_read_pre [where rdr = ReadTag, OF ReadTag_enc] spec_read_pre [where rdr = VarintParse64, OF VarintParse64_enc]
  spec_read_pre [where rdr = VarintParse32, OF VarintParse32_enc]
  spec_read_pre [where rdr = ReadFixed32, OF ReadFixed_enc(1)] spec_read_pre [where rdr = ReadFixed64, OF ReadFixed_enc(2)]

lemma length_fields_bytes: "length fs \<le> length (fields_bytes fs)"
proof (induction fs)
  case (Cons f fs)
  have "0 < length (field_bytes f)" by (simp add: field_bytes_nonempty)
  with Cons show ?case by (simp del: length_greater_0_conv)
qed simp

lemma wp_fields_end:
  assumes "unat n < 2 ^ 29" and "0 < fuel"
  shows "wp_fields fuel (pre @ varint_enc (unat (MakeTag n 4)) @ rest) d ufs (length pre)
    = Ok (length pre + length (varint_enc (unat (MakeTag n 4))), ufs, Some (MakeTag n 4))"
proof -
  have "\<not> length (pre @ varint_enc (unat (MakeTag n 4)) @ rest) \<le> length pre"
    using varint_enc_nonempty [of "unat (MakeTag n 4)"] by simp
  then show ?thesis
    using assms MakeTag_parts(2) [of n 4]
    by (subst wp_fields.simps) (simp add: spec_reads gr0_conv_Suc split: nat.split)
qed

lemma unknown_reads_back:
  "wf_field d f \<Longrightarrow> reads_back d f"
  "wf_fields d fs \<Longrightarrow> length (fields_bytes fs) \<le> fuel \<Longrightarrow>
     wp_fields fuel (pre @ fields_bytes fs @ rest) d ufs (length pre)
     = wp_fields (fuel - length fs) (pre @ fields_bytes fs @ rest) d (ufs @ fs) (length (pre @ fields_bytes fs))"
proof (induction f and fs arbitrary: d and d fuel pre ufs rest rule: field_bytes_fields_bytes.induct)
  case (1 n v)
  show ?case
    using 1 tag_of_parts [of "TYPE_VARINT n v"]
    by (intro reads_backI [where body = "varint_enc (unat v)"])
      (simp_all add: tag_of_def wp_field.simps wf_num_def spec_reads)
next
  case (2 n v)
  show ?case
    using 2 tag_of_parts [of "TYPE_FIXED32 n v"]
    by (intro reads_backI [where body = "le_bytes 4 (unat v)"])
      (simp_all add: tag_of_def wp_field.simps wf_num_def spec_reads)
next
  case (3 n v)
  show ?case
    using 3 tag_of_parts [of "TYPE_FIXED64 n v"]
    by (intro reads_backI [where body = "le_bytes 8 (unat v)"])
      (simp_all add: tag_of_def wp_field.simps wf_num_def spec_reads)
next
  case (4 n str)
  show ?case
    using 4 tag_of_parts [of "TYPE_LENGTH_DELIMITED n str"] wp_string_pre [of str]
    by (intro reads_backI [where body = "varint_enc (unat (of_nat (length str) :: u32)) @ str"])
      (simp_all add: tag_of_def wp_field.simps wf_num_def string_field_def)
next
  case (5 n grp)
  let ?e = "varint_enc (unat (MakeTag n 4))"
  have n: "unat n < 2 ^ 29" "n \<noteq> 0" and g: "wf_fields (d - 1) grp" "0 \<le> d - 1"
    using 5(2) by (simp_all add: wf_num_def)
  have inner: "wp_fields fuel (pre @ (fields_bytes grp @ ?e) @ rest) (d - 1) [] (length pre)
      = Ok (length pre + length (fields_bytes grp @ ?e), grp, Some (n * 8 + 4))"
    if "length (fields_bytes grp @ ?e) \<le> fuel" for fuel pre rest
  proof -
    have "0 < length ?e" by (simp add: varint_enc_nonempty)
    with that length_fields_bytes [of grp] have f: "0 < fuel - length grp" "length (fields_bytes grp) \<le> fuel"
      by (simp_all del: length_greater_0_conv)
    show ?thesis
      using 5(1) [OF g(1) f(2), of pre "?e @ rest" "[]"]
        wp_fields_end [OF n(1) f(1), of "pre @ fields_bytes grp" rest "d - 1" grp] MakeTag_end [OF n(1)]
      by simp
  qed
  have "wp_field fuel (pre @ (fields_bytes grp @ ?e) @ rest) d (tag_of (TYPE_GROUP n grp)) ufs (length pre)
      = Ok (length pre + length (fields_bytes grp @ ?e), ufs @ [TYPE_GROUP n grp])"
    if "length (varint_enc (unat (tag_of (TYPE_GROUP n grp))) @ fields_bytes grp @ ?e) \<le> Suc fuel"
    for fuel pre rest ufs
  proof -
    have "0 < length (varint_enc (unat (tag_of (TYPE_GROUP n grp))))" by (simp add: varint_enc_nonempty)
    then have "length (fields_bytes grp @ ?e) \<le> fuel" using that by (simp del: length_greater_0_conv)
    from inner [OF this, of pre rest] show ?thesis
      using 5(2) tag_of_parts [of "TYPE_GROUP n grp"] n g
      by (simp add: wp_field.simps)
  qed
  then show ?case
    using 5(2) by (intro reads_backI [where body = "fields_bytes grp @ ?e"]) (simp_all add: tag_of_def)
next
  case 6
  then show ?case by simp
next
  case (7 f fs)
  let ?bs = "pre @ field_bytes f @ fields_bytes fs @ rest"
  have wf: "wf_field d f" "wf_fields d fs" using 7(3) by simp_all
  have len: "0 < length (field_bytes f)" by (simp add: field_bytes_nonempty)
  with 7(4) obtain fuel' where fuel: "fuel = Suc fuel'" by (cases fuel) simp_all
  have "length (field_bytes f) \<le> Suc fuel'" using 7(4) fuel by simp
  then obtain q where q: "spec_read ReadTag ?bs (length pre) = Ok (tag_of f, q)"
    "wp_field fuel' ?bs d (tag_of f) ufs q = Ok (length pre + length (field_bytes f), ufs @ [f])"
    using 7(1) [OF wf(1)] unfolding reads_back_def by metis
  have "length (fields_bytes fs) \<le> fuel'"
    using 7(4) fuel len by (simp del: length_greater_0_conv)
  from 7(2) [OF wf(2) this, of "pre @ field_bytes f" rest "ufs @ [f]"]
  have "wp_fields fuel' ?bs d (ufs @ [f]) (length pre + length (field_bytes f))
      = wp_fields (fuel' - length fs) ?bs d (ufs @ f # fs) (length (pre @ fields_bytes (f # fs)))" by simp
  then show ?case
    using q len fuel tag_of_parts [OF wf_field_num [OF wf(1)]]
    by (subst wp_fields.simps) simp
qed


section \<open>Messages\<close>

text \<open>A parser of messages whose unknown fields are a component of the message.\<close>

locale message_format = message_parser +
  assumes get_set: "get (set_u u m) = u"
    and set_set: "set_u u (set_u v m) = set_u u m"
    and set_get: "set_u (get m) m = m"
begin

lemma spec_unknown:
  "wf_fields d fs \<Longrightarrow> \<forall>f \<in> set fs. field_s (tag_of f) = None \<Longrightarrow> length (fields_bytes fs) \<le> fuel \<Longrightarrow>
     spec fuel (pre @ fields_bytes fs) d m (length pre)
       = Ok (length pre + length (fields_bytes fs), set_u (get m @ fs) m, None)"
proof (induction fs arbitrary: fuel pre m)
  case Nil
  show ?case by (subst spec_eq) (simp add: set_get)
next
  case (Cons f fs)
  let ?bs = "pre @ field_bytes f @ fields_bytes fs"
  have len: "0 < length (field_bytes f)" by (simp add: field_bytes_nonempty)
  with Cons.prems(3) obtain fuel' where fuel: "fuel = Suc fuel'" by (cases fuel) simp_all
  have wf: "wf_field d f" "wf_fields d fs" using Cons.prems(1) by simp_all
  have "length (field_bytes f) \<le> Suc fuel'" using Cons.prems(3) fuel by simp
  then obtain q where q: "spec_read ReadTag ?bs (length pre) = Ok (tag_of f, q)"
    "wp_field fuel' ?bs d (tag_of f) (get m) q = Ok (length pre + length (field_bytes f), get m @ [f])"
    using unknown_reads_back(1) [OF wf(1)] unfolding reads_back_def by metis
  have "length (fields_bytes fs) \<le> fuel'"
    using Cons.prems(3) fuel len by (simp del: length_greater_0_conv)
  from Cons.IH [OF wf(2) _ this, of "pre @ field_bytes f" "set_u (get m @ [f]) m"]
  have "spec fuel' ?bs d (set_u (get m @ [f]) m) (length pre + length (field_bytes f))
      = Ok (length pre + length (fields_bytes (f # fs)), set_u (get m @ f # fs) m, None)"
    using Cons.prems(2) by (simp add: get_set set_set)
  moreover have "field_s (tag_of f) = None" using Cons.prems(2) by simp
  ultimately show ?case
    using q len fuel tag_of_parts [OF wf_field_num [OF wf(1)]]
    by (subst spec_eq) (simp add: turn_s_def)
qed

end

interpretation c_fmt: message_format C_field_c C_field_s C_unknown "\<lambda>u m. m\<lparr>C_unknown := u\<rparr>"
    C_Chat_InternalParse C_wp
  by unfold_locales simp_all

interpretation s_fmt: message_format S_field_c S_field_s S_unknown "\<lambda>u m. m\<lparr>S_unknown := u\<rparr>"
    S_Chat_InternalParse S_wp
  by unfold_locales simp_all

definition wf_string :: "byte list \<Rightarrow> bool" where
  "wf_string s \<longleftrightarrow> valid_utf8 s \<and> length s \<le> INT_MAX - kSlopBytes"

definition wf_C :: "C_Chat \<Rightarrow> bool" where
  "wf_C m \<longleftrightarrow> wf_string (C_message m) \<and> wf_fields 100 (C_unknown m)
     \<and> list_all (\<lambda>f. tag_of f \<noteq> 10) (C_unknown m)"

definition wf_S :: "S_Chat \<Rightarrow> bool" where
  "wf_S m \<longleftrightarrow> wf_string (S_message m) \<and> wf_fields 100 (S_unknown m)
     \<and> list_all (\<lambda>f. tag_of f \<noteq> 10 \<and> tag_of f \<noteq> 16) (S_unknown m)"

lemma MakeTag_fields: "MakeTag 1 2 = 10" "MakeTag 2 0 = 16"
  by (code_simp, code_simp)

lemma C_unknown_back:
  assumes "wf_fields 100 u" and "list_all (\<lambda>f. tag_of f \<noteq> 10) u" and "length (fields_bytes u) \<le> fuel"
  shows "C_wp fuel (pre @ fields_bytes u) 100 m (length pre)
    = Ok (length pre + length (fields_bytes u), m\<lparr>C_unknown := C_unknown m @ u\<rparr>, None)"
  using assms by (intro c_fmt.spec_unknown) (auto simp: C_field_s_def list_all_iff)

lemma S_unknown_back:
  assumes "wf_fields 100 u" and "list_all (\<lambda>f. tag_of f \<noteq> 10 \<and> tag_of f \<noteq> 16) u"
    and "length (fields_bytes u) \<le> fuel"
  shows "S_wp fuel (pre @ fields_bytes u) 100 m (length pre)
    = Ok (length pre + length (fields_bytes u), m\<lparr>S_unknown := S_unknown m @ u\<rparr>, None)"
  using assms by (intro s_fmt.spec_unknown) (auto simp: S_field_s_def list_all_iff)

lemma string_field_reads:
  assumes "wf_string s"
  shows "spec_read ReadTag (string_field 1 s @ rest) 0 = Ok (10, length (varint_enc 10))"
    "wp_string (string_field 1 s @ rest) (length (varint_enc 10)) = Ok (length (string_field 1 s), s)"
  using spec_reads(1) [of "[]" 10 "varint_enc (unat (of_nat (length s) :: u32)) @ s @ rest"]
    wp_string_pre [of s "varint_enc 10" rest] assms
  by (simp_all add: string_field_def MakeTag_fields wf_string_def)

lemma C_wp_bytes:
  assumes "wf_C m"
  shows "C_wp (length (C_bytes m)) (C_bytes m) 100 C_Chat_SharedCtor 0 = Ok (length (C_bytes m), m, None)"
proof (cases "C_message m = []")
  case True
  then have "C_Chat_SharedCtor\<lparr>C_unknown := C_unknown m\<rparr> = m" by (simp add: C_Chat_SharedCtor_def)
  then show ?thesis
    using True C_unknown_back [of "C_unknown m" "length (fields_bytes (C_unknown m))" "[]" C_Chat_SharedCtor] assms
    by (simp add: C_bytes_def wf_C_def C_Chat_SharedCtor_def)
next
  case False
  let ?s = "string_field 1 (C_message m)" and ?u = "C_unknown m"
  have str: "wf_string (C_message m)" using assms by (simp add: wf_C_def)
  have "0 < length ?s" by (simp add: string_field_def varint_enc_nonempty)
  then obtain k where k: "length ?s = Suc k" by (cases "length ?s") simp_all
  have "C_wp (k + length (fields_bytes ?u)) (?s @ fields_bytes ?u) 100
      (C_Chat_SharedCtor\<lparr>C_message := C_message m\<rparr>) (length ?s)
    = Ok (length ?s + length (fields_bytes ?u), m, None)"
    using C_unknown_back [of ?u "k + length (fields_bytes ?u)" ?s "C_Chat_SharedCtor\<lparr>C_message := C_message m\<rparr>"] assms
    by (simp add: wf_C_def C_Chat_SharedCtor_def)
  then show ?thesis
    using False k str string_field_reads [OF str, of "fields_bytes ?u"]
    by (subst C_wp.simps) (simp add: C_bytes_def wf_string_def)
qed

lemma S_wp_id:
  assumes "wf_fields 100 (S_unknown m)" and "list_all (\<lambda>f. tag_of f \<noteq> 10 \<and> tag_of f \<noteq> 16) (S_unknown m)"
    and "m0 = m\<lparr>S_senderid := 0, S_unknown := []\<rparr>"
    and "tail = (if S_senderid m \<noteq> 0 then varint_enc (unat (MakeTag 2 0)) @ varint_enc (unat (S_senderid m)) else [])
       @ fields_bytes (S_unknown m)" and "length tail \<le> fuel"
  shows "S_wp fuel (pre @ tail) 100 m0 (length pre) = Ok (length pre + length tail, m, None)"
proof (cases "S_senderid m = 0")
  case True
  then show ?thesis using S_unknown_back [OF assms(1,2), of fuel pre m0] assms(3-5) by simp
next
  case False
  let ?t = "varint_enc 16" and ?v = "varint_enc (unat (S_senderid m))" and ?u = "fields_bytes (S_unknown m)"
  have tail: "tail = ?t @ ?v @ ?u" using assms(4) False by (simp add: MakeTag_fields)
  have "0 < length ?t" by (simp add: varint_enc_nonempty)
  with assms(5) tail obtain k where k: "fuel = Suc k" by (cases fuel) simp_all
  have "length ?u \<le> k" using assms(5) k \<open>0 < length ?t\<close> by (simp add: tail del: length_greater_0_conv)
  from S_unknown_back [OF assms(1,2) this, of "pre @ ?t @ ?v" "m0\<lparr>S_senderid := S_senderid m\<rparr>"]
  have "S_wp k (pre @ ?t @ ?v @ ?u) 100 (m0\<lparr>S_senderid := S_senderid m\<rparr>) (length pre + (length ?t + length ?v))
      = Ok (length pre + length tail, m, None)" using assms(3) by (simp add: tail)
  then show ?thesis
    using k \<open>0 < length ?t\<close> spec_reads(1) [of pre 16 "?v @ ?u"] spec_reads(3) [of "pre @ ?t" "S_senderid m" ?u]
    by (subst S_wp.simps) (simp add: tail add.assoc)
qed

lemma S_wp_bytes:
  assumes "wf_S m"
  shows "S_wp (length (S_bytes m)) (S_bytes m) 100 S_Chat_SharedCtor 0 = Ok (length (S_bytes m), m, None)"
proof -
  define tail where "tail = (if S_senderid m \<noteq> 0 then varint_enc (unat (MakeTag 2 0)) @ varint_enc (unat (S_senderid m)) else [])
       @ fields_bytes (S_unknown m)"
  have u: "wf_fields 100 (S_unknown m)" "list_all (\<lambda>f. tag_of f \<noteq> 10 \<and> tag_of f \<noteq> 16) (S_unknown m)"
    and str: "wf_string (S_message m)" using assms by (simp_all add: wf_S_def)
  show ?thesis
  proof (cases "S_message m = []")
    case True
    have "S_Chat_SharedCtor = m\<lparr>S_senderid := 0, S_unknown := []\<rparr>" using True by (simp add: S_Chat_SharedCtor_def)
    from S_wp_id [OF u this tail_def le_refl, of "[]"] show ?thesis
      using True by (simp add: S_bytes_def tail_def)
  next
    case False
    let ?s = "string_field 1 (S_message m)"
    have "0 < length ?s" by (simp add: string_field_def varint_enc_nonempty)
    then obtain k where k: "length ?s = Suc k" by (cases "length ?s") simp_all
    have m0: "S_Chat_SharedCtor\<lparr>S_message := S_message m\<rparr> = m\<lparr>S_senderid := 0, S_unknown := []\<rparr>"
      by (simp add: S_Chat_SharedCtor_def)
    have bs: "S_bytes m = ?s @ tail" using False by (simp add: S_bytes_def tail_def)
    have "length tail \<le> k + length tail" by simp
    from S_wp_id [OF u m0 tail_def this, of ?s] show ?thesis
      using k str string_field_reads [OF str, of tail]
      by (subst S_wp.simps) (simp add: bs wf_string_def)
  qed
qed


lemma C_parse_bytes: "wf_C m \<Longrightarrow> C_parse (C_bytes m) = Some m"
  by (simp add: C_parse_def C_wp_bytes)

lemma S_parse_bytes: "wf_S m \<Longrightarrow> S_parse (S_bytes m) = Some m"
  by (simp add: S_parse_def S_wp_bytes)

section \<open>Through the arrays\<close>

lemma C_SerializeToArray_eq:
  assumes "length (C_bytes m) \<le> length data" and "sint sz = int (length data)"
  shows "C_Chat_SerializeToArray m data sz = Ok (True, C_bytes m @ drop (length (C_bytes m)) data)"
proof -
  have "length (C_bytes m) \<le> INT_MAX"
    using assms sint_less [of sz] by (simp add: INT_MAX_def)
  from Serialize_run [OF emits_C assms(1) this assms(2)] show ?thesis
    by (simp add: C_Chat_SerializeToArray_def C_ByteSize)
qed

lemma S_SerializeToArray_eq:
  assumes "length (S_bytes m) \<le> length data" and "sint sz = int (length data)"
  shows "S_Chat_SerializeToArray m data sz = Ok (True, S_bytes m @ drop (length (S_bytes m)) data)"
proof -
  have "length (S_bytes m) \<le> INT_MAX"
    using assms sint_less [of sz] by (simp add: INT_MAX_def)
  from Serialize_run [OF emits_S assms(1) this assms(2)] show ?thesis
    by (simp add: S_Chat_SerializeToArray_def S_ByteSize)
qed

lemma Serialize_too_small:
  assumes "length bs < 2 ^ 64" and "sint sz < int (length bs)"
  shows "SerializePartialToArray w (of_nat (length bs)) data sz = Ok (False, data)"
  using unat_of_nat_u64 [of "length bs"] assms by (simp add: SerializePartialToArray_def)

lemma emits_as_string:
  assumes "emits bs w" and "length bs \<le> INT_MAX"
  shows "SerializeAsString w (of_nat (length bs)) fill = Ok bs"
proof -
  have u: "unat (of_nat (length bs) :: u64) = length bs"
    using assms(2) by (intro unat_of_nat_u64) (simp add: INT_MAX_def)
  from emits_run [OF assms(1), of "replicate (length bs) fill"] assms(2) show ?thesis
    by (simp add: SerializeAsString_def AppendPartialToString_def u)
qed

section \<open>Properties\<close>

text \<open>
  C9: parsing a byte array never reads outside it, whatever the bytes are, and always returns;
  it accepts exactly what the reference parser without buffers accepts, with the same message.
  The slop region and the patch buffer make no difference.
\<close>

theorem parse_array_refines:
  assumes "0 \<le> sint sz" and "nat (sint sz) \<le> length data"
  shows "C_Chat_ParseFromArray m data sz = Ok (C_parse (take (nat (sint sz)) data))
    \<and> S_Chat_ParseFromArray m' data sz = Ok (S_parse (take (nat (sint sz)) data))"
  using C_ParseFromArray_eq [OF assms] S_ParseFromArray_eq [OF assms] by simp

theorem parse_array_refines_witness:
  "C_Chat_ParseFromArray C_Chat_SharedCtor [0x0A, 0x02, 0x68, 0x69, 0xFF] 4
     = Ok (Some \<lparr>C_message = [0x68, 0x69], C_unknown = []\<rparr>)"
proof -
  have "C_parse [0x0A, 0x02, 0x68, 0x69] = C_parse (C_bytes \<lparr>C_message = [0x68, 0x69], C_unknown = []\<rparr>)"
    by code_simp
  moreover have "valid_utf8 [0x68, 0x69]" by code_simp
  ultimately show ?thesis
    using parse_array_refines [of 4 "[0x0A, 0x02, 0x68, 0x69, 0xFF]" C_Chat_SharedCtor] C_parse_bytes
    by (simp add: wf_C_def wf_string_def INT_MAX_def kSlopBytes_def)
qed





text \<open>The same for \<^verbatim>\<open>S_Chat\<close>, as bytes.\<close>

theorem S_Chat_bytes_roundtrip:
  assumes "wf_S m" and "length (S_bytes m) \<le> INT_MAX"
  shows "\<exists>bytes. SerializeAsString (S_Chat_InternalSerialize m) (S_Chat_ByteSizeLong m) fill = Ok bytes
     \<and> S_Chat_ByteSizeLong m = of_nat (length bytes) \<and> S_parse bytes = Some m"
  using emits_as_string [OF emits_S assms(2)] S_parse_bytes [OF assms(1)] by (simp add: S_ByteSize)

theorem S_Chat_bytes_roundtrip_witness:
  "\<exists>bytes. SerializeAsString (S_Chat_InternalSerialize \<lparr>S_message = [], S_senderid = 300, S_unknown = []\<rparr>)
       (S_Chat_ByteSizeLong \<lparr>S_message = [], S_senderid = 300, S_unknown = []\<rparr>) 0 = Ok bytes
     \<and> S_parse bytes = Some \<lparr>S_message = [], S_senderid = 300, S_unknown = []\<rparr>"
proof -
  define m where "m = \<lparr>S_message = [] :: byte list, S_senderid = 300, S_unknown = []\<rparr>"
  have b: "length (S_bytes m) = 3" unfolding m_def by code_simp
  have "valid_utf8 []" by (simp add: valid_utf8_def) (rule exI [of _ "[]"], simp)
  then have "wf_S m" by (simp add: m_def wf_S_def wf_string_def)
  then show ?thesis
    using S_Chat_bytes_roundtrip [of m 0] b by (auto simp: m_def [symmetric] INT_MAX_def)
qed

text \<open>
  An array that is too small for the message is refused before anything is written.
\<close>

theorem serialize_too_small:
  assumes "sint sz < int (length (C_bytes m))" and "length (C_bytes m) < 2 ^ 64"
  shows "C_Chat_SerializeToArray m data sz = Ok (False, data)"
  using Serialize_too_small [of "C_bytes m" sz] assms
  by (simp add: C_Chat_SerializeToArray_def C_ByteSize)

theorem serialize_too_small_witness:
  "C_Chat_SerializeToArray \<lparr>C_message = [0x68, 0x69], C_unknown = []\<rparr> [0, 0, 0] 3 = Ok (False, [0, 0, 0])"
proof -
  have "length (C_bytes \<lparr>C_message = [0x68, 0x69], C_unknown = []\<rparr>) = 4" by code_simp
  then show ?thesis using serialize_too_small [of 3 "\<lparr>C_message = [0x68, 0x69], C_unknown = []\<rparr>"] by simp
qed

end
