(* ===== verification/Objects.thy ===== *)
theory Objects
  imports Prelude
begin

text \<open>
  The objects of the room: \<^verbatim>\<open>Object.h\<close>, \<^verbatim>\<open>Object.cpp\<close> and \<^verbatim>\<open>Player.h\<close> of
  \<^verbatim>\<open>Server/TopViewServer\<close>. \<^verbatim>\<open>Player\<close>, \<^verbatim>\<open>Projectile\<close>, \<^verbatim>\<open>Dust\<close> and \<^verbatim>\<open>Obstacle\<close> all derive from
  \<^verbatim>\<open>Object\<close>; only \<^verbatim>\<open>Player\<close> has members of its own, which the record carries for every
  object. \<^verbatim>\<open>_position\<close> is never read or written and is left out. Objects do not change
  after they entered the room, so the record is the object a \<^verbatim>\<open>shared_ptr\<close> points to.

  The locale \<open>keyed_map\<close> is the interface of the containers that the server keeps its objects and
  sessions in. Object ids and session ids are both drawn from an \<^verbatim>\<open>atomic<int>\<close>; the locale
  \<open>ticket_counter\<close> holds what \<^verbatim>\<open>fetch_add\<close> gives both of them.
\<close>

section \<open>What a step of the server can run into\<close>

text \<open>
  The accesses that the language leaves undefined or that throw: the dereference of a null
  pointer, an index outside a table, the call of an empty \<^verbatim>\<open>std::function\<close>, a read outside the
  receive buffer, and a read of the protobuf runtime outside its input.
\<close>

datatype fault = Null_Deref | Table_OOB nat | Bad_Function_Call | Read_OOB | Runtime_Fault

section \<open>Objects\<close>

datatype ObjectType =
    OBJECT_TYPE_PLAYER | OBJECT_TYPE_PROJECTILE | OBJECT_TYPE_DUST | OBJECT_TYPE_OBSTACLE

fun ObjectType_value :: "ObjectType \<Rightarrow> nat" where
  "ObjectType_value OBJECT_TYPE_PLAYER = 1"
| "ObjectType_value OBJECT_TYPE_PROJECTILE = 2"
| "ObjectType_value OBJECT_TYPE_DUST = 3"
| "ObjectType_value OBJECT_TYPE_OBSTACLE = 4"

lemma ObjectType_value_inj: "ObjectType_value a = ObjectType_value b \<longleftrightarrow> a = b"
  by (cases a; cases b) simp_all

instantiation ObjectType :: linorder
begin

definition less_eq_ObjectType :: "ObjectType \<Rightarrow> ObjectType \<Rightarrow> bool" where
  "less_eq_ObjectType a b \<longleftrightarrow> ObjectType_value a \<le> ObjectType_value b"

definition less_ObjectType :: "ObjectType \<Rightarrow> ObjectType \<Rightarrow> bool" where
  "less_ObjectType a b \<longleftrightarrow> ObjectType_value a < ObjectType_value b"

instance
  by standard (auto simp: less_eq_ObjectType_def less_ObjectType_def ObjectType_value_inj)

end

text \<open>There is one room, the global \<^verbatim>\<open>GRoom\<close>; a session is named by its id.\<close>

datatype room_ref = GRoom

record Object =
  objectId :: i32
  otype :: ObjectType
  p_room :: "room_ref option"
  p_session :: "i32 option"

definition new_Player :: Object where
  "new_Player = \<lparr>objectId = 0, otype = OBJECT_TYPE_PLAYER, p_room = None, p_session = None\<rparr>"

text \<open>\<^verbatim>\<open>SetId\<close> draws from the static counter \<^verbatim>\<open>nextId\<close>, which it returns advanced.\<close>

definition SetId :: "i32 \<Rightarrow> Object \<Rightarrow> i32 \<times> Object \<times> i32" where
  "SetId nextId o1 = (nextId, o1\<lparr>objectId := nextId\<rparr>, nextId + 1)"

text \<open>
  \<^verbatim>\<open>GetRoom\<close> and \<^verbatim>\<open>GetSession\<close> lock a weak pointer: \<open>alive\<close> says whether what it points to
  still exists. \<^verbatim>\<open>GRoom\<close> owns the room as long as the program runs.
\<close>

definition GetRoom :: "Object \<Rightarrow> room_ref option" where
  "GetRoom p = p_room p"

definition GetSession :: "(i32 \<Rightarrow> bool) \<Rightarrow> Object \<Rightarrow> i32 option" where
  "GetSession alive p = (case p_session p of Some s \<Rightarrow> if alive s then Some s else None | None \<Rightarrow> None)"

definition SetRoom :: "room_ref option \<Rightarrow> Object \<Rightarrow> Object" where
  "SetRoom r p = p\<lparr>p_room := r\<rparr>"

definition SetSession :: "i32 option \<Rightarrow> Object \<Rightarrow> Object" where
  "SetSession s p = p\<lparr>p_session := s\<rparr>"

section \<open>Maps by id\<close>

text \<open>
  What a container of things that carry their own id must satisfy: the laws of lookup after
  insert and after erase. The room keeps its objects in such containers, the session manager
  its sessions.
\<close>

locale keyed_map =
  fixes key :: "'v \<Rightarrow> 'k"
    and find :: "'m \<Rightarrow> 'k \<Rightarrow> 'v option"
    and ins :: "'v \<Rightarrow> 'm \<Rightarrow> 'm"
    and del :: "'v \<Rightarrow> 'm \<Rightarrow> 'm"
  assumes find_ins: "find (ins v m) k = (if k = key v then Some v else find m k)"
    and find_del: "find (del v m) k = (if k = key v then None else find m k)"
begin

lemma find_fold:
  "distinct (map key vs) \<Longrightarrow>
     find (fold ins vs m) k = (case List.find (\<lambda>v. key v = k) vs of Some v \<Rightarrow> Some v | None \<Rightarrow> find m k)"
proof (induction vs arbitrary: m)
  case (Cons v vs)
  from Cons.prems have "\<forall>w \<in> set vs. key w \<noteq> key v"
    by (metis distinct.simps(2) list.set_map list.simps(9) rev_image_eqI)
  then have "List.find (\<lambda>w. key w = key v) vs = None"
    unfolding find_None_iff by blast
  with Cons show ?case by (auto simp: find_ins split: option.split)
qed simp

lemma enter_exit: "find (del v (ins v m)) k = (if k = key v then None else find m k)"
  by (simp add: find_ins find_del)

lemma reenter: "key v = key w \<Longrightarrow> find (ins w (ins v m)) = find (ins w m)"
  by (auto simp: fun_eq_iff find_ins)

end

section \<open>Ids from an atomic counter\<close>

locale ticket_counter =
  fixes take_ticket :: "'s \<Rightarrow> i32 \<times> 's" and counter :: "'s \<Rightarrow> i32"
  assumes ticket: "fst (take_ticket s) = counter s"
    and bump: "counter (snd (take_ticket s)) = counter s + 1"
begin

fun tickets :: "nat \<Rightarrow> 's \<Rightarrow> i32 list \<times> 's" where
  "tickets 0 s = ([], s)"
| "tickets (Suc n) s = (let (t, s) = take_ticket s; (ts, s) = tickets n s in (t # ts, s))"

lemma tickets_eq:
  "tickets n s = (ts, s') \<Longrightarrow> ts = map (\<lambda>i. counter s + of_nat i) [0..<n] \<and> counter s' = counter s + of_nat n"
proof (induction n arbitrary: s ts)
  case (Suc n)
  obtain t s1 where t: "take_ticket s = (t, s1)" by fastforce
  obtain ts1 s2 where ts: "tickets n s1 = (ts1, s2)" by fastforce
  have eq: "ts = t # ts1" "s' = s2" using Suc.prems t ts by simp_all
  have c: "t = counter s" "counter s1 = counter s + 1" using ticket [of s] bump [of s] t by simp_all
  have "map (\<lambda>i. counter s + of_nat i) [0..<Suc n]
      = counter s # map (\<lambda>i. counter s + of_nat (Suc i)) [0..<n]"
    by (simp add: upt_conv_Cons map_Suc_upt [symmetric] del: upt_Suc)
  then show ?case using Suc.IH [of s1 ts1] ts c eq by (simp add: add.assoc del: upt_Suc)
qed simp

text \<open>The counter wraps, so ids repeat only after \<open>2 ^ 32\<close> of them.\<close>

lemma tickets_distinct:
  assumes "n \<le> 4294967296"
  shows "distinct (fst (tickets n s))"
proof -
  have "inj_on (\<lambda>i. counter s + of_nat i) (set [0..<n])"
  proof (rule inj_onI)
    fix i j :: nat
    assume ij: "i \<in> set [0..<n]" "j \<in> set [0..<n]" "counter s + of_nat i = counter s + of_nat j"
    then have "unat (of_nat i :: i32) = unat (of_nat j :: i32)" by simp
    then show "i = j" using ij(1,2) assms by (simp add: unat_of_nat_u32)
  qed
  then show ?thesis
    using tickets_eq [of n s "fst (tickets n s)" "snd (tickets n s)"] by (simp add: distinct_map)
qed

end

interpretation object_ids: ticket_counter "\<lambda>nextId. (fst (SetId nextId o1), snd (snd (SetId nextId o1)))" "\<lambda>n. n"
  for o1
  by unfold_locales (simp_all add: SetId_def)

end
