(* ===== verification/Room.thy ===== *)
theory Room
  imports Objects "HOL-Library.AList"
begin

text \<open>
  The room: \<^verbatim>\<open>Room.h\<close>, \<^verbatim>\<open>Room.cpp\<close> and \<^verbatim>\<open>Job.h\<close> of \<^verbatim>\<open>Server/TopViewServer\<close>. It keeps the objects
  by id, a queue of jobs that the network threads fill, and the messages that the jobs leave
  for the next broadcast. \<open>Flush\<close> is the loop of the room's own thread; its critical sections
  are separate definitions, because other threads run between them (\<open>RoomThread\<close>).

  The \<^verbatim>\<open>unordered_map\<close>s are association lists; the order of a list stands for the unspecified
  order in which the map is iterated. The entries of the two function tables are the lambdas
  of \<^verbatim>\<open>InitObjectTable\<close>, named by the container they work on.
\<close>

section \<open>Jobs\<close>

type_synonym buf = "byte list"

text \<open>
  The only callback that the program makes is \<^verbatim>\<open>[room, sendBuffer]() { room->BroadcastSerialized(sendBuffer); }\<close>;
  a job may also hold an empty \<^verbatim>\<open>std::function\<close>.
\<close>

datatype callback = Call_BroadcastSerialized buf

datatype Job = Job "callback option"

section \<open>The room\<close>

datatype container = Players | Projectiles | Dusts

record Room =
  players :: "(u32 \<times> Object) list"
  projectiles :: "(u32 \<times> Object) list"
  dusts :: "(u32 \<times> Object) list"
  obstacles :: "(u32 \<times> Object) list"
  insertObjectTable :: "container option list"
  eraseObjectTable :: "container option list"
  MoveQueues :: "Job list list"
  ETCQueue :: "Job list"
  pendingMSG :: "buf list"
  table_faults :: "nat list"
  consumers :: nat

definition new_Room :: Room where
  "new_Room = \<lparr>players = [], projectiles = [], dusts = [], obstacles = [],
     insertObjectTable = [None, None, None], eraseObjectTable = [None, None, None],
     MoveQueues = [[], [], [], []], ETCQueue = [], pendingMSG = [], table_faults = [], consumers = 0\<rparr>"

text \<open>
  Writing an entry of a table. A write behind the end has no defined meaning; it is recorded
  in \<open>table_faults\<close>, and the model goes on as if nothing had been written.
\<close>

definition set_insert :: "ObjectType \<Rightarrow> container \<Rightarrow> Room \<Rightarrow> Room" where
  "set_insert t f r =
     (if ObjectType_value t < length (insertObjectTable r)
      then r\<lparr>insertObjectTable := (insertObjectTable r)[ObjectType_value t := Some f]\<rparr>
      else r\<lparr>table_faults := table_faults r @ [ObjectType_value t]\<rparr>)"

definition set_erase :: "ObjectType \<Rightarrow> container \<Rightarrow> Room \<Rightarrow> Room" where
  "set_erase t f r =
     (if ObjectType_value t < length (eraseObjectTable r)
      then r\<lparr>eraseObjectTable := (eraseObjectTable r)[ObjectType_value t := Some f]\<rparr>
      else r\<lparr>table_faults := table_faults r @ [ObjectType_value t]\<rparr>)"

definition InitObjectTable :: "Room \<Rightarrow> Room" where
  "InitObjectTable r =
     (let r = set_insert OBJECT_TYPE_PLAYER Players r;
          r = set_insert OBJECT_TYPE_PROJECTILE Projectiles r;
          r = set_insert OBJECT_TYPE_DUST Dusts r;
          r = set_erase OBJECT_TYPE_PLAYER Players r;
          r = set_erase OBJECT_TYPE_PROJECTILE Projectiles r;
          r = set_erase OBJECT_TYPE_DUST Dusts r
      in r)"

definition CreateObstacle :: "Room \<Rightarrow> Room" where
  "CreateObstacle r = r"

definition CreateDust :: "Room \<Rightarrow> Room" where
  "CreateDust r = r"

definition CONSUMERS_PER_QUEUE :: nat where
  "CONSUMERS_PER_QUEUE = 1"

text \<open>\<^verbatim>\<open>Init\<close> starts \<open>CONSUMERS_PER_QUEUE\<close> threads that run \<^verbatim>\<open>Flush\<close>.\<close>

definition Room_Init :: "Room \<Rightarrow> Room" where
  "Room_Init r =
     (let r = InitObjectTable (CreateDust (CreateObstacle r))
      in r\<lparr>consumers := consumers r + CONSUMERS_PER_QUEUE\<rparr>)"

text \<open>The lambdas of the tables.\<close>

fun run_insert :: "container \<Rightarrow> Object \<Rightarrow> Room \<Rightarrow> Room" where
  "run_insert Players o1 r = r\<lparr>players := AList.update (objectId o1) o1 (players r)\<rparr>"
| "run_insert Projectiles o1 r = r\<lparr>projectiles := AList.update (objectId o1) o1 (projectiles r)\<rparr>"
| "run_insert Dusts o1 r = r\<lparr>dusts := AList.update (objectId o1) o1 (dusts r)\<rparr>"

fun run_erase :: "container \<Rightarrow> Object \<Rightarrow> Room \<Rightarrow> Room" where
  "run_erase Players o1 r = r\<lparr>players := AList.delete (objectId o1) (players r)\<rparr>"
| "run_erase Projectiles o1 r = r\<lparr>projectiles := AList.delete (objectId o1) (projectiles r)\<rparr>"
| "run_erase Dusts o1 r = r\<lparr>dusts := AList.delete (objectId o1) (dusts r)\<rparr>"

definition call_table :: "container option list \<Rightarrow> nat \<Rightarrow> fault + container" where
  "call_table t i =
     (if length t \<le> i then Inl (Table_OOB i)
      else case t ! i of None \<Rightarrow> Inl Bad_Function_Call | Some f \<Rightarrow> Inr f)"

definition EnterObject :: "Object \<Rightarrow> Room \<Rightarrow> fault + Room" where
  "EnterObject o1 r =
     (case call_table (insertObjectTable r) (ObjectType_value (otype o1)) of
        Inl e \<Rightarrow> Inl e | Inr f \<Rightarrow> Inr (run_insert f o1 r))"

definition ExitObject :: "Object \<Rightarrow> Room \<Rightarrow> fault + Room" where
  "ExitObject o1 r =
     (case call_table (eraseObjectTable r) (ObjectType_value (otype o1)) of
        Inl e \<Rightarrow> Inl e | Inr f \<Rightarrow> Inr (run_erase f o1 r))"

definition BroadcastSerialized :: "buf \<Rightarrow> Room \<Rightarrow> Room" where
  "BroadcastSerialized buffer r = r\<lparr>pendingMSG := pendingMSG r @ [buffer]\<rparr>"

definition PushMoveJob :: "Job \<Rightarrow> Room \<Rightarrow> Room" where
  "PushMoveJob job r = r"

definition PushETCJob :: "Job \<Rightarrow> Room \<Rightarrow> Room" where
  "PushETCJob job r = r\<lparr>ETCQueue := ETCQueue r @ [job]\<rparr>"

fun Execute :: "Job \<Rightarrow> Room \<Rightarrow> Room" where
  "Execute (Job None) r = r"
| "Execute (Job (Some (Call_BroadcastSerialized buffer))) r = BroadcastSerialized buffer r"

section \<open>One turn of the flush loop\<close>

text \<open>The wait: \<open>None\<close> while the condition does not hold; then the queue is swapped out.\<close>

definition Flush_take :: "Room \<Rightarrow> (Job list \<times> Room) option" where
  "Flush_take r = (if ETCQueue r = [] then None else Some (ETCQueue r, r\<lparr>ETCQueue := []\<rparr>))"

fun Flush_execute :: "Job list \<Rightarrow> Room \<Rightarrow> Room" where
  "Flush_execute [] r = r"
| "Flush_execute (job # localQueue) r = Flush_execute localQueue (Execute job r)"

definition Flush_snapshot :: "Room \<Rightarrow> buf list \<times> (u32 \<times> Object) list \<times> Room" where
  "Flush_snapshot r = (pendingMSG r, players r, r\<lparr>pendingMSG := []\<rparr>)"

text \<open>The calls \<^verbatim>\<open>session->Send(lpendingMSG)\<close> of the last loop.\<close>

fun Flush_sends :: "(i32 \<Rightarrow> bool) \<Rightarrow> buf list \<Rightarrow> (u32 \<times> Object) list \<Rightarrow> (i32 \<times> buf list) list" where
  "Flush_sends alive msgs [] = []"
| "Flush_sends alive msgs ((_, player) # snapshot) =
     (case GetSession alive player of
        Some session \<Rightarrow> (session, msgs) # Flush_sends alive msgs snapshot
      | None \<Rightarrow> Flush_sends alive msgs snapshot)"

definition Flush_turn :: "(i32 \<Rightarrow> bool) \<Rightarrow> Room \<Rightarrow> ((i32 \<times> buf list) list \<times> Room) option" where
  "Flush_turn alive r =
     (case Flush_take r of
        None \<Rightarrow> None
      | Some (localQueue, r) \<Rightarrow>
          let r = Flush_execute localQueue r;
              (lpendingMSG, playersSnapshot, r) = Flush_snapshot r
          in Some (Flush_sends alive lpendingMSG playersSnapshot, r))"

section \<open>The containers\<close>

interpretation player_map: keyed_map objectId "\<lambda>r. map_of (players r)" "run_insert Players" "run_erase Players"
  by unfold_locales (simp_all add: update_conv' delete_conv')

interpretation projectile_map: keyed_map objectId "\<lambda>r. map_of (projectiles r)"
    "run_insert Projectiles" "run_erase Projectiles"
  by unfold_locales (simp_all add: update_conv' delete_conv')

interpretation dust_map: keyed_map objectId "\<lambda>r. map_of (dusts r)" "run_insert Dusts" "run_erase Dusts"
  by unfold_locales (simp_all add: update_conv' delete_conv')

section \<open>The tables after Init\<close>

definition tables_ready :: "Room \<Rightarrow> bool" where
  "tables_ready r \<longleftrightarrow> insertObjectTable r = [None, Some Players, Some Projectiles]
     \<and> eraseObjectTable r = [None, Some Players, Some Projectiles]"

lemma Room_Init_new:
  "Room_Init new_Room = new_Room\<lparr>insertObjectTable := [None, Some Players, Some Projectiles],
     eraseObjectTable := [None, Some Players, Some Projectiles], table_faults := [3, 3], consumers := 1\<rparr>"
  by (simp add: Room_Init_def InitObjectTable_def set_insert_def set_erase_def new_Room_def
      CreateDust_def CreateObstacle_def CONSUMERS_PER_QUEUE_def)

lemma EnterObject_ready:
  assumes "tables_ready r"
  shows "EnterObject o1 r = (case otype o1 of
      OBJECT_TYPE_PLAYER \<Rightarrow> Inr (run_insert Players o1 r)
    | OBJECT_TYPE_PROJECTILE \<Rightarrow> Inr (run_insert Projectiles o1 r)
    | OBJECT_TYPE_DUST \<Rightarrow> Inl (Table_OOB 3)
    | OBJECT_TYPE_OBSTACLE \<Rightarrow> Inl (Table_OOB 4))"
  using assms by (cases "otype o1") (simp_all add: EnterObject_def call_table_def tables_ready_def)

lemma ExitObject_ready:
  assumes "tables_ready r"
  shows "ExitObject o1 r = (case otype o1 of
      OBJECT_TYPE_PLAYER \<Rightarrow> Inr (run_erase Players o1 r)
    | OBJECT_TYPE_PROJECTILE \<Rightarrow> Inr (run_erase Projectiles o1 r)
    | OBJECT_TYPE_DUST \<Rightarrow> Inl (Table_OOB 3)
    | OBJECT_TYPE_OBSTACLE \<Rightarrow> Inl (Table_OOB 4))"
  using assms by (cases "otype o1") (simp_all add: ExitObject_def call_table_def tables_ready_def)

section \<open>What a turn of the flush loop sends\<close>

text \<open>The message of a job, if it has one.\<close>

fun job_payload :: "Job \<Rightarrow> buf list" where
  "job_payload (Job None) = []"
| "job_payload (Job (Some (Call_BroadcastSerialized buffer))) = [buffer]"

definition payloads :: "Job list \<Rightarrow> buf list" where
  "payloads q = concat (map job_payload q)"

lemma payloads_simps [simp]:
  "payloads [] = []" "payloads (j # q) = job_payload j @ payloads q" "payloads (p @ q) = payloads p @ payloads q"
  by (simp_all add: payloads_def)

lemma Execute_eq: "Execute j r = r\<lparr>pendingMSG := pendingMSG r @ job_payload j\<rparr>"
  by (cases "(j, r)" rule: Execute.cases) (simp_all add: BroadcastSerialized_def)

lemma Flush_execute_eq: "Flush_execute q r = r\<lparr>pendingMSG := pendingMSG r @ payloads q\<rparr>"
  by (induction q r rule: Flush_execute.induct) (simp_all add: Execute_eq)

text \<open>The sessions that a snapshot names, in its order.\<close>

definition targets :: "(i32 \<Rightarrow> bool) \<Rightarrow> (u32 \<times> Object) list \<Rightarrow> i32 list" where
  "targets alive snapshot = List.map_filter (\<lambda>(_, player). GetSession alive player) snapshot"

lemma Flush_sends_eq: "Flush_sends alive msgs snapshot = map (\<lambda>s. (s, msgs)) (targets alive snapshot)"
  by (induction alive msgs snapshot rule: Flush_sends.induct)
    (simp_all add: targets_def List.map_filter_simps split: option.split)

lemma Flush_turn_eq:
  "Flush_turn alive r =
     (if ETCQueue r = [] then None
      else Some (map (\<lambda>s. (s, pendingMSG r @ payloads (ETCQueue r))) (targets alive (players r)),
                 r\<lparr>ETCQueue := [], pendingMSG := []\<rparr>))"
  by (simp add: Flush_turn_def Flush_take_def Flush_execute_eq Flush_snapshot_def Flush_sends_eq Let_def)

section \<open>Properties\<close>

text \<open>
  C11: one turn of the flush loop sends, to the session of every player of the room, the pending
  messages followed by the messages of all queued jobs, in the order in which they were
  queued; it empties both queues and changes nothing else.
\<close>

theorem flush_turn_sends:
  assumes "ETCQueue r \<noteq> []"
  shows "Flush_turn alive r =
    Some (map (\<lambda>s. (s, pendingMSG r @ concat (map job_payload (ETCQueue r)))) (targets alive (players r)),
          r\<lparr>ETCQueue := [], pendingMSG := []\<rparr>)"
  using assms by (simp add: Flush_turn_eq payloads_def)

theorem flush_turn_sends_witness:
  "Flush_turn (\<lambda>_. True)
     (new_Room\<lparr>ETCQueue := [Job (Some (Call_BroadcastSerialized [1])), Job None, Job (Some (Call_BroadcastSerialized [2]))],
        players := [(0, new_Player\<lparr>p_session := Some 7\<rparr>), (1, new_Player)]\<rparr>)
   = Some ([(7, [[1], [2]])], new_Room\<lparr>players := [(0, new_Player\<lparr>p_session := Some 7\<rparr>), (1, new_Player)]\<rparr>)"
proof -
  define r where "r = new_Room\<lparr>ETCQueue := [Job (Some (Call_BroadcastSerialized [1])), Job None,
      Job (Some (Call_BroadcastSerialized [2]))], players := [(0, new_Player\<lparr>p_session := Some 7\<rparr>), (1, new_Player)]\<rparr>"
  have "targets (\<lambda>_. True) (players r) = [7]" unfolding r_def by code_simp
  then have "Flush_turn (\<lambda>_. True) r
      = Some ([(7, [[1], [2]])], new_Room\<lparr>players := [(0, new_Player\<lparr>p_session := Some 7\<rparr>), (1, new_Player)]\<rparr>)"
    using flush_turn_sends [of r "\<lambda>_. True"] by (simp add: r_def new_Room_def)
  then show ?thesis by (simp only: r_def)
qed

text \<open>
  \<^verbatim>\<open>InitObjectTable\<close> writes the entries of \<^verbatim>\<open>OBJECT_TYPE_DUST\<close> behind the end of both tables of
  length 3, and leaves the entries of players and projectiles as intended; one consumer thread
  is started.
\<close>

theorem init_writes_behind_tables:
  "table_faults (Room_Init new_Room) = [3, 3] \<and> tables_ready (Room_Init new_Room)
   \<and> consumers (Room_Init new_Room) = 1 \<and> players (Room_Init new_Room) = []"
  by (simp add: Room_Init_new tables_ready_def) (simp add: new_Room_def)



end
