(* ===== verification/PacketHandler.thy ===== *)
theory PacketHandler
  imports RoundTrip Room
begin

text \<open>
  \<^verbatim>\<open>PacketHandler.h\<close> and \<^verbatim>\<open>PacketHandler.cpp\<close> of \<^verbatim>\<open>Server/TopViewServer\<close>: the table of packet
  handlers, the parse of a packet's body, the handler of \<^verbatim>\<open>C_Chat\<close>, which serializes the
  broadcast and queues it as a job of the room, and \<^verbatim>\<open>MakeSendBuffer\<close>.
\<close>

section \<open>Packet ids and the handler table\<close>

definition C_CHAT :: nat where
  "C_CHAT = 1"

definition S_CHAT :: nat where
  "S_CHAT = 2"

definition sizeof_PacketHeader :: nat where
  "sizeof_PacketHeader = 4"

definition UINT16_MAX :: nat where
  "UINT16_MAX = 65535"

text \<open>
  The one lambda that \<^verbatim>\<open>Init\<close> stores. \<^verbatim>\<open>Handler GPacketHandler[UINT16_MAX]\<close> has the indices
  below 65535; an entry that was not set is an empty \<^verbatim>\<open>std::function\<close>.
\<close>

datatype Handler = HandlePacket_C_Chat

type_synonym handler_table = "nat \<Rightarrow> Handler option"

definition GPacketHandler :: handler_table where
  "GPacketHandler = (\<lambda>_. None)"

definition PacketHandler_Init :: "handler_table \<Rightarrow> handler_table" where
  "PacketHandler_Init table = table(C_CHAT := Some HandlePacket_C_Chat)"

definition handler_at :: "handler_table \<Rightarrow> nat \<Rightarrow> fault + Handler option" where
  "handler_at table i = (if i < UINT16_MAX then Inr (table i) else Inl (Table_OOB i))"

section \<open>The handlers\<close>

text \<open>
  \<^verbatim>\<open>session->GetPlayer()\<close> is the argument \<open>player\<close>; the vector that \<^verbatim>\<open>resize\<close> makes is filled
  with zeros.
\<close>

definition Handle_C_CHAT :: "Object option \<Rightarrow> C_Chat \<Rightarrow> Room \<Rightarrow> fault + (bool \<times> Room)" where
  "Handle_C_CHAT player pkt r =
     (case player of
        None \<Rightarrow> Inl Null_Deref
      | Some p \<Rightarrow>
          (case GetRoom p of
             None \<Rightarrow> Inr (True, r)
           | Some room \<Rightarrow>
               let chat = S_Chat_set_message (C_Chat_get_message pkt) S_Chat_SharedCtor;
                   sz = S_Chat_ByteSizeLong chat;
                   sendBuffer = replicate (unat sz) 0
               in (case S_Chat_SerializeToArray chat sendBuffer (ucast sz) of
                     Ok (_, sendBuffer) \<Rightarrow>
                       Inr (True, PushETCJob (Job (Some (Call_BroadcastSerialized sendBuffer))) r)
                   | _ \<Rightarrow> Inl Runtime_Fault)))"

text \<open>\<^verbatim>\<open>HandlePacket<Protocol::C_Chat>(Handle_C_CHAT, session, buffer, len)\<close>.\<close>

definition HandlePacket :: "Object option \<Rightarrow> byte list \<Rightarrow> i32 \<Rightarrow> Room \<Rightarrow> fault + (bool \<times> Room)" where
  "HandlePacket player buffer len r =
     (case C_Chat_ParseFromArray C_Chat_SharedCtor buffer len of
        Ok None \<Rightarrow> Inr (False, r)
      | Ok (Some pkt) \<Rightarrow> Handle_C_CHAT player pkt r
      | _ \<Rightarrow> Inl Runtime_Fault)"

fun run_handler :: "Handler \<Rightarrow> Object option \<Rightarrow> byte list \<Rightarrow> i32 \<Rightarrow> Room \<Rightarrow> fault + (bool \<times> Room)" where
  "run_handler HandlePacket_C_Chat player buffer len r = HandlePacket player buffer len r"

text \<open>
  \<^verbatim>\<open>MakeSendBuffer(T& pkt, unsigned __int16 pktId)\<close> for \<^verbatim>\<open>S_Chat\<close>. Both sizes are cut to 16
  bits. The array comes from \<^verbatim>\<open>new BYTE[packetSize]\<close>, its bytes are undefined (\<open>fill\<close>); the
  result of \<^verbatim>\<open>SerializeToArray\<close> is ignored.
\<close>

definition MakeSendBuffer :: "byte \<Rightarrow> S_Chat \<Rightarrow> u16 \<Rightarrow> byte list pres" where
  "MakeSendBuffer fill pkt pktId =
     (let dataSize = (ucast (S_Chat_ByteSizeLong pkt) :: u16);
          packetSize = dataSize + of_nat sizeof_PacketHeader;
          header = le16_bytes packetSize @ le16_bytes pktId
      in (if unat packetSize < sizeof_PacketHeader then OOB
          else pbind (S_Chat_SerializeToArray pkt
                        (replicate (unat packetSize - sizeof_PacketHeader) fill) (ucast dataSize))
                 (\<lambda>(_, body). Ok (header @ body))))"

definition MakeSendBuffer_S_Chat :: "byte \<Rightarrow> S_Chat \<Rightarrow> byte list pres" where
  "MakeSendBuffer_S_Chat fill pkt = MakeSendBuffer fill pkt (of_nat S_CHAT)"

section \<open>What a parsed message can hold\<close>

lemma wp_string_length:
  "wp_string bs p = Ok (q, s) \<Longrightarrow> length s \<le> length bs"
  by (auto simp: wp_string_def pbind_eq_Ok split: if_splits)

lemma C_wp_message:
  "C_wp fuel bs d m p = Ok (q, m', t) \<Longrightarrow> valid_utf8 (C_message m) \<and> length (C_message m) \<le> length bs
     \<Longrightarrow> valid_utf8 (C_message m') \<and> length (C_message m') \<le> length bs"
proof (induction fuel arbitrary: m p)
  case 0
  then show ?case by (subst (asm) C_wp.simps) (auto split: if_splits)
next
  case (Suc fuel)
  show ?case
  proof (cases "length bs \<le> p")
    case True
    with Suc.prems show ?thesis by (subst (asm) C_wp.simps) auto
  next
    case False
    with Suc.prems(1) obtain tag p1 where "(if tag = 10 then
            pbind (wp_string bs p1) (\<lambda>(p, str).
              if valid_utf8 str then C_wp fuel bs d (m\<lparr>C_message := str\<rparr>) p else Null)
          else if tag = 0 \<or> tag AND 7 = 4 then Ok (p1, m, Some tag)
          else pbind (wp_field fuel bs d tag (C_unknown m) p1) (\<lambda>(p, u).
            C_wp fuel bs d (m\<lparr>C_unknown := u\<rparr>) p)) = Ok (q, m', t)"
      by (subst (asm) C_wp.simps) (auto simp: pbind_eq_Ok)
    then show ?thesis using Suc.prems(2)
      by (auto simp: pbind_eq_Ok split: if_splits dest!: wp_string_length Suc.IH)
  qed
qed

lemma C_parse_message:
  assumes "C_parse bs = Some m"
  shows "valid_utf8 (C_message m)" "length (C_message m) \<le> length bs"
proof -
  from assms obtain q where "C_wp (length bs) bs 100 C_Chat_SharedCtor 0 = Ok (q, m, None)"
    by (auto simp: C_parse_def split: pres.splits option.splits)
  from C_wp_message [OF this] show "valid_utf8 (C_message m)" "length (C_message m) \<le> length bs"
    by (simp_all add: C_Chat_SharedCtor_def valid_utf8_Nil)
qed

section \<open>The broadcast of a chat\<close>

definition chat_of :: "byte list \<Rightarrow> S_Chat" where
  "chat_of msg = \<lparr>S_message = msg, S_senderid = 0, S_unknown = []\<rparr>"

text \<open>The body of the packet that every client of the room gets.\<close>

definition chat_bytes :: "byte list \<Rightarrow> byte list" where
  "chat_bytes msg = S_bytes (chat_of msg)"

lemma chat_set_message: "S_Chat_set_message (C_Chat_get_message m) S_Chat_SharedCtor = chat_of (C_message m)"
  by (simp add: S_Chat_set_message_def C_Chat_get_message_def S_Chat_SharedCtor_def chat_of_def)

lemma length_chat_bytes: "length (chat_bytes msg) \<le> length msg + 6"
  using length_varint_enc_u32 [of "of_nat (length msg)"] length_tag1
  by (simp add: chat_bytes_def S_bytes_def chat_of_def string_field_def)

lemma chat_bytes_parse:
  "valid_utf8 msg \<Longrightarrow> length msg \<le> INT_MAX - kSlopBytes \<Longrightarrow> S_parse (chat_bytes msg) = Some (chat_of msg)"
  unfolding chat_bytes_def by (rule S_parse_bytes) (simp add: wf_S_def wf_string_def chat_of_def)

lemma Handle_C_CHAT_eq:
  assumes "length (C_message pkt) \<le> 2147483641" and "GetRoom p = Some GRoom"
  shows "Handle_C_CHAT (Some p) pkt r
    = Inr (True, PushETCJob (Job (Some (Call_BroadcastSerialized (chat_bytes (C_message pkt))))) r)"
proof -
  let ?n = "length (chat_bytes (C_message pkt))"
  have n: "?n < 2147483648" using length_chat_bytes [of "C_message pkt"] assms(1) by simp
  have b: "S_Chat_ByteSizeLong (chat_of (C_message pkt)) = of_nat ?n"
    by (simp add: S_ByteSize chat_bytes_def)
  have u: "unat (of_nat ?n :: u64) = ?n" using n by (intro unat_of_nat_u64) simp
  have "ucast (of_nat ?n :: u64) = (of_nat ?n :: i32)" by (rule ucast_of_nat_64_32)
  moreover have "sint (of_nat ?n :: i32) = int ?n" using n by (rule sint_of_nat_i32)
  ultimately have "S_Chat_SerializeToArray (chat_of (C_message pkt)) (replicate ?n 0) (ucast (of_nat ?n :: u64))
      = Ok (True, chat_bytes (C_message pkt))"
    using S_SerializeToArray_eq [of "chat_of (C_message pkt)" "replicate ?n 0" "of_nat ?n"]
    by (simp add: chat_bytes_def)
  then show ?thesis
    unfolding Handle_C_CHAT_def option.case assms(2) chat_set_message b Let_def u by simp
qed

text \<open>What a packet with the id of \<^verbatim>\<open>C_Chat\<close> and the body \<open>body\<close> does to the room.\<close>

definition chat_effect :: "byte list \<Rightarrow> Room \<Rightarrow> Room" where
  "chat_effect body r = (case C_parse body of
      None \<Rightarrow> r
    | Some m \<Rightarrow> PushETCJob (Job (Some (Call_BroadcastSerialized (chat_bytes (C_message m))))) r)"

lemma HandlePacket_eq:
  assumes "0 \<le> sint len" "nat (sint len) \<le> length buffer" "sint len \<le> 2147483641" "GetRoom p = Some GRoom"
  shows "HandlePacket (Some p) buffer len r
    = Inr (C_parse (take (nat (sint len)) buffer) \<noteq> None, chat_effect (take (nat (sint len)) buffer) r)"
proof (cases "C_parse (take (nat (sint len)) buffer)")
  case None
  then show ?thesis using C_ParseFromArray_eq [OF assms(1,2)] by (simp add: HandlePacket_def chat_effect_def)
next
  case (Some m)
  have "length (C_message m) \<le> 2147483641" using C_parse_message(2) [OF Some] assms(1-3) by simp
  from Handle_C_CHAT_eq [OF this assms(4)] show ?thesis
    using C_ParseFromArray_eq [OF assms(1,2)] Some by (simp add: HandlePacket_def chat_effect_def)
qed

lemma HandlePacket_negative: "sint len < 0 \<Longrightarrow> HandlePacket player buffer len r = Inr (False, r)"
  by (simp add: HandlePacket_def ParseFromArray_negative)

section \<open>Properties\<close>

text \<open>
  C12: a packet body that parses as a \<^verbatim>\<open>C_Chat\<close> queues exactly one job, which broadcasts an \<^verbatim>\<open>S_Chat\<close>
  with the same message: its bytes parse back to that message. Any other body queues nothing.
\<close>

theorem chat_packet_effect:
  assumes "0 \<le> sint len" and "nat (sint len) \<le> length buf" and "sint len \<le> 2147483631"
    and "GetRoom p = Some GRoom"
  shows "case C_parse (take (nat (sint len)) buf) of
      None \<Rightarrow> HandlePacket (Some p) buf len r = Inr (False, r)
    | Some m \<Rightarrow> (\<exists>body. HandlePacket (Some p) buf len r
          = Inr (True, r\<lparr>ETCQueue := ETCQueue r @ [Job (Some (Call_BroadcastSerialized body))]\<rparr>)
        \<and> S_parse body = Some \<lparr>S_message = C_message m, S_senderid = 0, S_unknown = []\<rparr>)"
proof (cases "C_parse (take (nat (sint len)) buf)")
  case None
  then show ?thesis using HandlePacket_eq [OF assms(1,2) _ assms(4), of r] assms(3)
    by (simp add: chat_effect_def)
next
  case (Some m)
  have "length (C_message m) \<le> INT_MAX - kSlopBytes"
    using C_parse_message(2) [OF Some] assms(2,3) by (simp add: INT_MAX_def kSlopBytes_def)
  with chat_bytes_parse [OF C_parse_message(1) [OF Some]] show ?thesis
    using Some HandlePacket_eq [OF assms(1,2) _ assms(4), of r] assms(3)
    by (simp add: chat_effect_def PushETCJob_def chat_of_def)
      (rule exI [of _ "chat_bytes (C_message m)"], simp)
qed

theorem chat_packet_effect_witness:
  "HandlePacket (Some (new_Player\<lparr>p_room := Some GRoom\<rparr>)) [0xFF, 0xFF] 2 new_Room = Inr (False, new_Room)"
proof -
  have "C_parse [0xFF, 0xFF] = None" by code_simp
  then show ?thesis
    using chat_packet_effect [of 2 "[0xFF, 0xFF]" "new_Player\<lparr>p_room := Some GRoom\<rparr>" new_Room]
    by (simp add: GetRoom_def)
qed

text \<open>
  \<^verbatim>\<open>MakeSendBuffer\<close> makes the packet of the message as long as header and body fit into 16 bits.
\<close>

theorem make_send_buffer:
  assumes "length (S_bytes m) \<le> 65531"
  shows "MakeSendBuffer_S_Chat fill m
    = Ok (le16_bytes (of_nat (length (S_bytes m) + 4)) @ le16_bytes 2 @ S_bytes m)"
proof -
  let ?n = "length (S_bytes m)"
  have u: "unat (of_nat n :: u16) = n" if "n < 65536" for n
    using that by (simp add: unsigned_of_nat take_bit_nat_eq_self)
  have d: "ucast (of_nat ?n :: u64) = (of_nat ?n :: u16)"
    by (simp add: word_unat_eq_iff unsigned_ucast_eq unsigned_of_nat take_bit_take_bit)
  have p: "(of_nat ?n :: u16) + of_nat sizeof_PacketHeader = of_nat (?n + 4)"
    by (simp add: sizeof_PacketHeader_def)
  have "ucast (of_nat ?n :: u16) = (of_nat ?n :: i32)"
    using assms u [of ?n] unat_of_nat_u32 [of ?n] by (simp add: word_unat_eq_iff unsigned_ucast_eq take_bit_nat_eq_self)
  moreover have "sint (of_nat ?n :: i32) = int ?n" using assms by (intro sint_of_nat_i32) simp
  ultimately have s: "S_Chat_SerializeToArray m (replicate ?n fill) (ucast (of_nat ?n :: u16)) = Ok (True, S_bytes m)"
    using S_SerializeToArray_eq [of m "replicate ?n fill"] by simp
  have v: "unat (of_nat (?n + 4) :: u16) = ?n + 4" using assms by (intro u) simp
  show ?thesis
    unfolding MakeSendBuffer_S_Chat_def MakeSendBuffer_def S_ByteSize d p Let_def v
    by (simp add: s sizeof_PacketHeader_def S_CHAT_def del: of_nat_add)
qed

theorem make_send_buffer_witness:
  "MakeSendBuffer_S_Chat 0 \<lparr>S_message = [0x68, 0x69], S_senderid = 0, S_unknown = []\<rparr>
     = Ok [8, 0, 2, 0, 0x0A, 2, 0x68, 0x69]"
proof -
  have b: "S_bytes \<lparr>S_message = [0x68, 0x69], S_senderid = 0, S_unknown = []\<rparr> = [0x0A, 2, 0x68, 0x69]"
    by code_simp
  have "le16_bytes 8 = [8, 0]" "le16_bytes 2 = [2, 0]" by (code_simp, code_simp)
  then show ?thesis
    using make_send_buffer [of "\<lparr>S_message = [0x68, 0x69], S_senderid = 0, S_unknown = []\<rparr>" 0] by (simp add: b)
qed

end
