(* ===== verification/RecvBuf.thy ===== *)
theory RecvBuf
  imports Prelude
begin

text \<open>
  The receive buffer of a session, \<^verbatim>\<open>Server/TopViewServer/RecvBuffer.h\<close>: a fixed array of
  40960 bytes with a read and a write position. The positions are \<^verbatim>\<open>size_t\<close> and keep its
  wrap-around; the sizes are returned as \<^verbatim>\<open>int\<close>. \<open>readable\<close> is the abstraction: the bytes
  received and not yet consumed.
\<close>

section \<open>State and operations\<close>

definition buffer_sizeof :: nat where
  "buffer_sizeof = 40960"

record recv_buffer =
  buffer :: "byte list"
  readPos :: u64
  writePos :: u64

text \<open>\<^verbatim>\<open>recvBuffer()\<close> in the constructor of \<^verbatim>\<open>Session\<close> is a value initialisation: the array is zeroed.\<close>

definition RecvBuffer_init :: recv_buffer where
  "RecvBuffer_init = \<lparr>buffer = replicate buffer_sizeof 0, readPos = 0, writePos = 0\<rparr>"

definition GetWritePos :: "recv_buffer \<Rightarrow> nat" where
  "GetWritePos rb = unat (writePos rb)"

definition GetReadPos :: "recv_buffer \<Rightarrow> nat" where
  "GetReadPos rb = unat (readPos rb)"

definition SetWritePos :: "u64 \<Rightarrow> recv_buffer \<Rightarrow> recv_buffer" where
  "SetWritePos pos rb =
     (if of_nat buffer_sizeof < writePos rb + pos then rb
      else rb\<lparr>writePos := writePos rb + pos\<rparr>)"

definition SetReadPos :: "u64 \<Rightarrow> recv_buffer \<Rightarrow> recv_buffer" where
  "SetReadPos pos rb =
     (if writePos rb < readPos rb + pos then rb
      else rb\<lparr>readPos := readPos rb + pos\<rparr>)"

definition GetWritableSize :: "recv_buffer \<Rightarrow> i32" where
  "GetWritableSize rb = ucast ((of_nat buffer_sizeof :: u64) - writePos rb)"

definition GetReadableSize :: "recv_buffer \<Rightarrow> i32" where
  "GetReadableSize rb = ucast (writePos rb - readPos rb)"

text \<open>
  \<^verbatim>\<open>memcpy(buffer + d, buffer + s, n)\<close> as the copy of one byte after another in ascending
  order. The C standard leaves the call undefined where the two ranges overlap; this
  order is the one that a copy towards lower addresses needs.
\<close>

fun memcpy_up :: "nat \<Rightarrow> nat \<Rightarrow> nat \<Rightarrow> byte list \<Rightarrow> byte list" where
  "memcpy_up d s 0 b = b"
| "memcpy_up d s (Suc n) b = memcpy_up (Suc d) (Suc s) n (b[d := b ! s])"

definition Clear :: "recv_buffer \<Rightarrow> recv_buffer" where
  "Clear rb =
     (if readPos rb = writePos rb then rb\<lparr>readPos := 0, writePos := 0\<rparr>
      else let remainedDataSize = (ucast (writePos rb - readPos rb) :: i32)
           in rb\<lparr>buffer := memcpy_up 0 (GetReadPos rb) (unat (scast remainedDataSize :: u64)) (buffer rb),
                 readPos := 0,
                 writePos := scast remainedDataSize\<rparr>)"

text \<open>The ranges of the \<^verbatim>\<open>memcpy\<close> in \<^verbatim>\<open>Clear\<close> overlap.\<close>

definition Clear_overlaps :: "recv_buffer \<Rightarrow> bool" where
  "Clear_overlaps rb \<longleftrightarrow> readPos rb \<noteq> writePos rb \<and> readPos rb < writePos rb - readPos rb"

section \<open>Invariant and abstraction\<close>

definition rb_inv :: "recv_buffer \<Rightarrow> bool" where
  "rb_inv rb \<longleftrightarrow> length (buffer rb) = buffer_sizeof \<and> readPos rb \<le> writePos rb
     \<and> unat (writePos rb) \<le> buffer_sizeof"

definition readable :: "recv_buffer \<Rightarrow> byte list" where
  "readable rb = take (unat (writePos rb) - unat (readPos rb)) (drop (unat (readPos rb)) (buffer rb))"

text \<open>
  What \<^verbatim>\<open>async_read_some\<close> does before its handler runs: it stores the received bytes from
  the write position on.
\<close>

definition store_bytes :: "byte list \<Rightarrow> recv_buffer \<Rightarrow> recv_buffer" where
  "store_bytes data rb =
     rb\<lparr>buffer := take (GetWritePos rb) (buffer rb) @ data
                    @ drop (GetWritePos rb + length data) (buffer rb)\<rparr>"

named_theorems rb_defs

lemmas [rb_defs] = rb_inv_def readable_def GetWritePos_def GetReadPos_def buffer_sizeof_def

lemma rb_inv_posD:
  assumes "rb_inv rb"
  shows "unat (readPos rb) \<le> unat (writePos rb)" "unat (writePos rb) \<le> 40960"
    "length (buffer rb) = 40960"
  using assms by (auto simp: rb_defs word_le_nat_alt)

lemma length_readable:
  assumes "rb_inv rb"
  shows "length (readable rb) = unat (writePos rb) - unat (readPos rb)"
  using rb_inv_posD [OF assms] by (simp add: readable_def)

lemma rb_inv_init: "rb_inv RecvBuffer_init"
  by (simp add: RecvBuffer_init_def rb_defs)

lemma readable_init: "readable RecvBuffer_init = []"
  by (simp add: RecvBuffer_init_def rb_defs)

lemma unat_readable_diff:
  assumes "rb_inv rb"
  shows "unat (writePos rb - readPos rb) = unat (writePos rb) - unat (readPos rb)"
  using assms by (simp add: rb_inv_def unat_sub)

lemma readable_size_word:
  assumes "rb_inv rb"
  shows "GetReadableSize rb = of_nat (length (readable rb))"
  using unat_readable_diff [OF assms] length_readable [OF assms]
  unfolding GetReadableSize_def ucast_u64_i32 by simp

lemma GetReadableSize_eq:
  assumes "rb_inv rb"
  shows "sint (GetReadableSize rb) = int (length (readable rb))"
    "unat (scast (GetReadableSize rb) :: u64) = length (readable rb)"
proof -
  have "length (readable rb) \<le> 40960"
    using rb_inv_posD [OF assms] length_readable [OF assms] by simp
  then show "sint (GetReadableSize rb) = int (length (readable rb))"
    "unat (scast (GetReadableSize rb) :: u64) = length (readable rb)"
    unfolding readable_size_word [OF assms]
    by (simp_all add: sint_of_nat_i32 scast_i32_u64 unat_of_nat_u64)
qed

section \<open>Functional behaviour of the operations\<close>

lemma GetWritableSize_eq:
  assumes "rb_inv rb"
  shows "sint (GetWritableSize rb) = 40960 - int (unat (writePos rb))"
proof -
  have w: "unat (writePos rb) \<le> 40960" using rb_inv_posD [OF assms] by simp
  then have "writePos rb \<le> 40960" by (simp add: word_le_nat_alt)
  then have "unat (40960 - writePos rb) = 40960 - unat (writePos rb)"
    by (simp add: unat_sub)
  then have "GetWritableSize rb = of_nat (40960 - unat (writePos rb))"
    unfolding GetWritableSize_def ucast_u64_i32 by (simp add: buffer_sizeof_def)
  then have "sint (GetWritableSize rb) = int (40960 - unat (writePos rb))"
    by (simp only:) (rule sint_of_nat_i32, simp)
  then show ?thesis using w by (simp add: of_nat_diff)
qed

lemma SetWritePos_ok:
  assumes "rb_inv rb" and "unat (writePos rb) + unat n \<le> buffer_sizeof"
  shows "SetWritePos n rb = rb\<lparr>writePos := writePos rb + n\<rparr>"
    "unat (writePos (SetWritePos n rb)) = unat (writePos rb) + unat n"
  using assms unat_add_u64 [of "writePos rb" n]
  by (auto simp: SetWritePos_def buffer_sizeof_def word_less_nat_alt)

lemma SetReadPos_ok:
  assumes "rb_inv rb" and "unat n \<le> length (readable rb)"
  shows "SetReadPos n rb = rb\<lparr>readPos := readPos rb + n\<rparr>"
    "unat (readPos rb + n) = unat (readPos rb) + unat n"
proof -
  have le: "unat (readPos rb) + unat n \<le> unat (writePos rb)" "unat (writePos rb) \<le> 40960"
    using rb_inv_posD [OF assms(1)] length_readable [OF assms(1)] assms(2) by simp_all
  then show u: "unat (readPos rb + n) = unat (readPos rb) + unat n"
    by (intro unat_add_u64) simp
  from le show "SetReadPos n rb = rb\<lparr>readPos := readPos rb + n\<rparr>"
    by (simp add: SetReadPos_def word_less_nat_alt u)
qed

lemma SetReadPos_inv: "rb_inv rb \<Longrightarrow> rb_inv (SetReadPos n rb)"
  by (auto simp: SetReadPos_def rb_inv_def not_less)

lemma SetWritePos_reject:
  "of_nat buffer_sizeof < writePos rb + n \<Longrightarrow> SetWritePos n rb = rb"
  by (simp add: SetWritePos_def)

text \<open>Copying towards lower addresses, byte by byte, moves the range whole.\<close>

lemma memcpy_up_eq:
  "d \<le> s \<Longrightarrow> s + n \<le> length b \<Longrightarrow>
     memcpy_up d s n b = take d b @ take n (drop s b) @ drop (d + n) b"
proof (induction n arbitrary: d s b)
  case 0
  then show ?case by simp
next
  case (Suc n)
  let ?b = "b[d := b ! s]"
  have "memcpy_up d s (Suc n) b = take (Suc d) ?b @ take n (drop (Suc s) ?b) @ drop (Suc d + n) ?b"
    using Suc by simp
  moreover have "take (Suc d) ?b = take d b @ [b ! s]"
    using Suc.prems by (simp add: take_Suc_conv_app_nth)
  moreover have "take (Suc n) (drop s b) = b ! s # take n (drop (Suc s) b)"
    using Suc.prems by (simp add: take_Suc Cons_nth_drop_Suc [symmetric])
  ultimately show ?case using Suc.prems by simp
qed

lemma Clear_inv:
  assumes "rb_inv rb"
  shows "rb_inv (Clear rb)" and "readPos (Clear rb) = 0" and "readable (Clear rb) = readable rb"
proof -
  note pos = rb_inv_posD [OF assms]
  let ?n = "unat (writePos rb) - unat (readPos rb)"
  have n: "unat (scast (ucast (writePos rb - readPos rb) :: i32) :: u64) = ?n"
    using GetReadableSize_eq(2) [OF assms] length_readable [OF assms]
    by (simp add: GetReadableSize_def)
  have "rb_inv (Clear rb) \<and> readPos (Clear rb) = 0 \<and> readable (Clear rb) = readable rb"
  proof (cases "readPos rb = writePos rb")
    case True
    then show ?thesis using pos by (simp add: Clear_def rb_defs)
  next
    case False
    have c: "memcpy_up 0 (unat (readPos rb)) ?n (buffer rb)
        = take ?n (drop (unat (readPos rb)) (buffer rb)) @ drop ?n (buffer rb)"
      using memcpy_up_eq [of 0 "unat (readPos rb)" ?n "buffer rb"] pos by simp
    show ?thesis
      using False pos n c by (simp add: Clear_def Let_def rb_defs)
  qed
  then show "rb_inv (Clear rb)" "readPos (Clear rb) = 0" "readable (Clear rb) = readable rb"
    by simp_all
qed

lemma readable_store_SetWritePos:
  assumes "rb_inv rb" and "unat (writePos rb) + length d \<le> buffer_sizeof"
  shows "rb_inv (SetWritePos (of_nat (length d)) (store_bytes d rb))"
    and "readable (SetWritePos (of_nat (length d)) (store_bytes d rb)) = readable rb @ d"
    and "readPos (SetWritePos (of_nat (length d)) (store_bytes d rb)) = readPos rb"
proof -
  note pos = rb_inv_posD [OF assms(1)]
  have inv: "rb_inv (store_bytes d rb)"
    using assms pos by (simp add: store_bytes_def rb_defs)
  have len: "unat (of_nat (length d) :: u64) = length d"
    using assms(2) by (simp add: buffer_sizeof_def unat_of_nat_u64)
  note sw = SetWritePos_ok [OF inv, of "of_nat (length d)"]
  have w: "unat (writePos (store_bytes d rb)) + unat (of_nat (length d) :: u64) \<le> buffer_sizeof"
    using assms(2) len by (simp add: store_bytes_def)
  note sw1 = sw(1) [OF w] and sw2 = sw(2) [OF w]
  have u: "unat (writePos rb + of_nat (length d)) = unat (writePos rb) + length d"
    using sw1 sw2 len by (simp add: store_bytes_def)
  have le: "readPos rb \<le> writePos rb + of_nat (length d)"
    using pos(1) u by (simp add: word_le_nat_alt)
  have split: "take (unat (writePos rb)) (buffer rb)
      = take (unat (readPos rb)) (buffer rb) @ readable rb"
    using pos by (simp add: readable_def take_add [symmetric])
  show "rb_inv (SetWritePos (of_nat (length d)) (store_bytes d rb))"
    using assms(2) inv le u sw1 by (simp add: rb_inv_def store_bytes_def)
  show "readPos (SetWritePos (of_nat (length d)) (store_bytes d rb)) = readPos rb"
    using sw1 by (simp add: store_bytes_def)
  show "readable (SetWritePos (of_nat (length d)) (store_bytes d rb)) = readable rb @ d"
    using sw1 u pos split length_readable [OF assms(1)]
    by (simp add: readable_def store_bytes_def GetWritePos_def)
qed

section \<open>The interface the session relies on\<close>

text \<open>
  A bounded queue of bytes: \<open>put\<close> appends, \<open>skip\<close> drops a prefix. The session's framing
  loop needs no more of the buffer than these laws.
\<close>

locale byte_queue =
  fixes qinv :: "'q \<Rightarrow> bool"
    and content :: "'q \<Rightarrow> byte list"
    and cap :: nat
    and put :: "byte list \<Rightarrow> 'q \<Rightarrow> 'q"
    and skip :: "nat \<Rightarrow> 'q \<Rightarrow> 'q"
  assumes put_inv: "qinv q \<Longrightarrow> length (content q) + length d \<le> cap \<Longrightarrow> qinv (put d q)"
    and put_content: "qinv q \<Longrightarrow> length (content q) + length d \<le> cap \<Longrightarrow> content (put d q) = content q @ d"
    and skip_inv: "qinv q \<Longrightarrow> n \<le> length (content q) \<Longrightarrow> qinv (skip n q)"
    and skip_content: "qinv q \<Longrightarrow> n \<le> length (content q) \<Longrightarrow> content (skip n q) = drop n (content q)"
    and bounded: "qinv q \<Longrightarrow> length (content q) \<le> cap"
begin

lemma skip_put_content:
  "qinv q \<Longrightarrow> length (content q) + length d \<le> cap \<Longrightarrow> n \<le> length (content q) + length d
     \<Longrightarrow> content (skip n (put d q)) = drop n (content q @ d)"
  using put_inv [of q d] put_content [of q d] skip_content [of "put d q" n] by simp

lemma put_put_content:
  "qinv q \<Longrightarrow> length (content q) + length d + length e \<le> cap
     \<Longrightarrow> content (put e (put d q)) = content q @ (d @ e) \<and> qinv (put e (put d q))"
  using put_inv [of q d] put_content [of q d] put_inv [of "put d q" e] put_content [of "put d q" e]
  by simp

lemma skips_content:
  "qinv q \<Longrightarrow> sum_list ns \<le> length (content q)
     \<Longrightarrow> content (fold skip ns q) = drop (sum_list ns) (content q) \<and> qinv (fold skip ns q)"
proof (induction ns arbitrary: q)
  case Nil
  then show ?case by simp
next
  case (Cons n ns)
  then have "qinv (skip n q)" "content (skip n q) = drop n (content q)"
    by (simp_all add: skip_inv skip_content)
  with Cons show ?case by (simp add: add.commute)
qed

end

text \<open>
  A receive of \<open>d\<close> is the store by the socket and \<^verbatim>\<open>SetWritePos\<close> (\<^verbatim>\<open>Session::RegisterRecv\<close>);
  consuming a packet is \<^verbatim>\<open>SetReadPos\<close> and \<^verbatim>\<open>Clear\<close> (\<^verbatim>\<open>Session::ProcessRecv\<close>, steps 5 and 6).
\<close>

definition RecvBuffer_receive :: "byte list \<Rightarrow> recv_buffer \<Rightarrow> recv_buffer" where
  "RecvBuffer_receive d rb = SetWritePos (of_nat (length d)) (store_bytes d rb)"

definition RecvBuffer_consume :: "u64 \<Rightarrow> recv_buffer \<Rightarrow> recv_buffer" where
  "RecvBuffer_consume n rb = Clear (SetReadPos n rb)"

text \<open>Between two receives the unread bytes start at position 0.\<close>

definition rb_compact :: "recv_buffer \<Rightarrow> bool" where
  "rb_compact rb \<longleftrightarrow> rb_inv rb \<and> readPos rb = 0"

lemma rb_compact_init: "rb_compact RecvBuffer_init"
  by (simp add: rb_compact_def rb_inv_init) (simp add: RecvBuffer_init_def)

lemma rb_compact_size:
  "rb_compact rb \<Longrightarrow> unat (writePos rb) = length (readable rb)"
  "rb_compact rb \<Longrightarrow> sint (GetWritableSize rb) = 40960 - int (length (readable rb))"
  by (simp_all add: rb_compact_def length_readable GetWritableSize_eq)

lemma consume_rb:
  assumes "rb_inv rb" and "unat n \<le> length (readable rb)"
  shows "rb_compact (RecvBuffer_consume n rb)"
    and "readable (RecvBuffer_consume n rb) = drop (unat n) (readable rb)"
proof -
  note pos = rb_inv_posD [OF assms(1)] length_readable [OF assms(1)]
  note sr = SetReadPos_ok [OF assms]
  have inv: "rb_inv (SetReadPos n rb)" by (rule SetReadPos_inv [OF assms(1)])
  then show "rb_compact (RecvBuffer_consume n rb)"
    by (simp add: RecvBuffer_consume_def rb_compact_def Clear_inv)
  have "readable (SetReadPos n rb) = drop (unat n) (readable rb)"
    using sr pos assms(2) by (simp add: readable_def drop_take add.commute)
  then show "readable (RecvBuffer_consume n rb) = drop (unat n) (readable rb)"
    by (simp add: RecvBuffer_consume_def Clear_inv [OF inv])
qed

interpretation rbq: byte_queue rb_compact readable buffer_sizeof RecvBuffer_receive
    "\<lambda>n. RecvBuffer_consume (of_nat n)"
proof
  fix rb d
  assume rb: "rb_compact rb" and len: "length (readable rb) + length (d :: byte list) \<le> buffer_sizeof"
  from rb len have r: "rb_inv rb" "unat (writePos rb) + length d \<le> buffer_sizeof"
    by (simp add: rb_compact_def, simp add: rb_compact_size(1) [OF rb])
  show "rb_compact (RecvBuffer_receive d rb)"
    "readable (RecvBuffer_receive d rb) = readable rb @ d"
    using readable_store_SetWritePos [OF r] rb by (simp_all add: RecvBuffer_receive_def rb_compact_def)
next
  fix rb n
  assume rb: "rb_compact rb" and n: "n \<le> length (readable rb)"
  then have "length (readable rb) \<le> 40960"
    using rb_inv_posD [of rb] by (simp add: rb_compact_def length_readable)
  with n have u: "unat (of_nat n :: u64) = n" by (simp add: unat_of_nat_u64)
  show "rb_compact (RecvBuffer_consume (of_nat n) rb)"
    "readable (RecvBuffer_consume (of_nat n) rb) = drop n (readable rb)"
    using consume_rb [of rb "of_nat n"] rb n u by (simp_all add: rb_compact_def)
next
  fix rb
  assume "rb_compact rb"
  then show "length (readable rb) \<le> buffer_sizeof"
    using rb_inv_posD [of rb] by (simp add: rb_compact_def length_readable buffer_sizeof_def)
qed

section \<open>Properties\<close>

text \<open>
  C15: from a buffer between two receives, taking in bytes that fit and consuming packets that
  are there behaves like a queue of bytes of capacity 40960: the unread bytes are the old ones
  followed by the new ones, less the consumed prefix, and they start at position 0 again.
\<close>

theorem recv_buffer_is_queue:
  assumes "rb_compact rb" and "length (readable rb) + length d \<le> buffer_sizeof"
    and "sum_list ns \<le> length (readable rb) + length d"
  shows "readable (fold (\<lambda>n. RecvBuffer_consume (of_nat n)) ns (RecvBuffer_receive d rb))
           = drop (sum_list ns) (readable rb @ d)
       \<and> rb_compact (fold (\<lambda>n. RecvBuffer_consume (of_nat n)) ns (RecvBuffer_receive d rb))"
proof -
  note p = rbq.put_inv [OF assms(1,2)] rbq.put_content [OF assms(1,2)]
  show ?thesis using rbq.skips_content [OF p(1), of ns] p(2) assms(3) by simp
qed

theorem recv_buffer_is_queue_witness:
  "readable (fold (\<lambda>n. RecvBuffer_consume (of_nat n)) [2, 1] (RecvBuffer_receive [1, 2, 3, 4, 5] RecvBuffer_init)) = [4, 5]"
  using recv_buffer_is_queue [of RecvBuffer_init "[1, 2, 3, 4, 5]" "[2, 1]"]
  by (simp add: rb_compact_init readable_init buffer_sizeof_def)

text \<open>
  The guards of \<^verbatim>\<open>SetWritePos\<close> and \<^verbatim>\<open>SetReadPos\<close> keep the positions inside the array
  whatever the argument is, as long as the addition does not wrap around, and \<^verbatim>\<open>Clear\<close> keeps
  the unread bytes.
\<close>

theorem recv_buffer_guards:
  assumes "rb_inv rb" and "unat (writePos rb) + unat n < 2 ^ 64"
  shows "rb_inv (SetWritePos n rb) \<and> rb_inv (SetReadPos n rb) \<and> rb_inv (Clear rb)
    \<and> readable (Clear rb) = readable rb \<and> readPos (Clear rb) = 0"
proof -
  have "unat (writePos rb + n) = unat (writePos rb) + unat n"
    using assms(2) by (intro unat_add_u64) simp
  then have "rb_inv (SetWritePos n rb)"
    using assms(1) by (auto simp: SetWritePos_def rb_inv_def word_le_nat_alt word_less_nat_alt buffer_sizeof_def)
  then show ?thesis using SetReadPos_inv [OF assms(1)] Clear_inv [OF assms(1)] by simp
qed

theorem recv_buffer_guards_witness: "rb_inv (SetWritePos 50000 RecvBuffer_init)"
  using recv_buffer_guards [OF rb_inv_init, of 50000] by (simp add: RecvBuffer_init_def)

end
