(* ===== verification/Framing.thy ===== *)
theory Framing
  imports RecvBuf
begin

text \<open>
  What the framing loop of \<^verbatim>\<open>Session::ProcessRecv\<close> promises: the packets that a byte stream
  holds. A packet starts with its size, header included, and its id, 16 bits each. The loop
  stops where the next packet is not complete; it never stops on a packet of size 0, and an
  id of 65535 indexes the handler table behind its end.
\<close>

section \<open>Packets of a stream\<close>

datatype packet = Packet (pkt_id: nat) (pkt_size: nat) (pkt_body: "byte list")

datatype stream_end = Rest "byte list" | Zero_size "byte list" | Wild_id "byte list"

definition hdr_size :: "byte list \<Rightarrow> nat" where
  "hdr_size bs = unat (le16_load (bs ! 0) (bs ! 1))"

definition hdr_id :: "byte list \<Rightarrow> nat" where
  "hdr_id bs = unat (le16_load (bs ! 2) (bs ! 3))"

function frames :: "byte list \<Rightarrow> packet list \<times> stream_end" where
  "frames bs =
     (if length bs < 4 \<or> length bs < hdr_size bs then ([], Rest bs)
      else if hdr_id bs = 65535 then ([], Wild_id bs)
      else if hdr_size bs = 0 then ([], Zero_size bs)
      else let (ps, e) = frames (drop (hdr_size bs) bs)
           in (Packet (hdr_id bs) (hdr_size bs) (drop 4 (take (hdr_size bs) bs)) # ps, e))"
  by pat_completeness auto
termination
  by (relation "measure length") auto

declare frames.simps [simp del]

fun extend_end :: "stream_end \<Rightarrow> byte list \<Rightarrow> stream_end" where
  "extend_end (Rest r) b = Rest (r @ b)"
| "extend_end (Zero_size r) b = Zero_size (r @ b)"
| "extend_end (Wild_id r) b = Wild_id (r @ b)"

lemma hdr_append:
  "4 \<le> length a \<Longrightarrow> hdr_size (a @ b) = hdr_size a" "4 \<le> length a \<Longrightarrow> hdr_id (a @ b) = hdr_id a"
  by (auto simp: hdr_size_def hdr_id_def nth_append)

text \<open>Bytes that arrive later extend the stream: what was framed stays framed.\<close>

lemma frames_append:
  "frames a = (ps, e) \<Longrightarrow> frames (a @ b) =
     (case e of Rest r \<Rightarrow> (ps @ fst (frames (r @ b)), snd (frames (r @ b))) | _ \<Rightarrow> (ps, extend_end e b))"
proof (induction a arbitrary: ps rule: frames.induct)
  case (1 a)
  consider (rest) "length a < 4 \<or> length a < hdr_size a"
    | (wild) "4 \<le> length a" "hdr_size a \<le> length a" "hdr_id a = 65535"
    | (zero) "4 \<le> length a" "hdr_size a \<le> length a" "hdr_id a \<noteq> 65535" "hdr_size a = 0"
    | (pkt) "4 \<le> length a" "hdr_size a \<le> length a" "hdr_id a \<noteq> 65535" "hdr_size a \<noteq> 0"
    by linarith
  then show ?case
  proof cases
    case rest
    then have "ps = [] \<and> e = Rest a" using 1(2) by (subst (asm) frames.simps) auto
    then show ?thesis by simp
  next
    case wild
    then have "ps = [] \<and> e = Wild_id a" using 1(2) by (subst (asm) frames.simps) auto
    then show ?thesis using wild by (subst frames.simps) (simp add: hdr_append)
  next
    case zero
    then have "ps = [] \<and> e = Zero_size a" using 1(2) by (subst (asm) frames.simps) auto
    then show ?thesis using zero by (subst frames.simps) (simp add: hdr_append)
  next
    case pkt
    obtain qs e' where f: "frames (drop (hdr_size a) a) = (qs, e')" by fastforce
    let ?p = "Packet (hdr_id a) (hdr_size a) (drop 4 (take (hdr_size a) a))"
    have eq: "ps = ?p # qs" "e = e'" using 1(2) pkt f by (subst (asm) frames.simps, simp)+
    have "frames (drop (hdr_size a) a @ b) =
        (case e of Rest r \<Rightarrow> (qs @ fst (frames (r @ b)), snd (frames (r @ b))) | _ \<Rightarrow> (qs, extend_end e b))"
      using 1(1) pkt f eq by auto
    moreover have "frames (a @ b) = (let (ps, e) = frames (drop (hdr_size a) a @ b) in (?p # ps, e))"
      using pkt by (subst frames.simps) (simp add: hdr_append)
    ultimately show ?thesis using eq by (simp split: stream_end.split)
  qed
qed

lemma frames_cases:
  obtains (rest) "frames bs = ([], Rest bs)" "length bs < 4 \<or> length bs < hdr_size bs"
    | (wild) "frames bs = ([], Wild_id bs)" "4 \<le> length bs" "hdr_size bs \<le> length bs" "hdr_id bs = 65535"
    | (zero) "frames bs = ([], Zero_size bs)" "4 \<le> length bs" "hdr_id bs \<noteq> 65535" "hdr_size bs = 0"
    | (pkt) qs e where "frames (drop (hdr_size bs) bs) = (qs, e)"
        "frames bs = (Packet (hdr_id bs) (hdr_size bs) (drop 4 (take (hdr_size bs) bs)) # qs, e)"
        "4 \<le> length bs" "hdr_size bs \<le> length bs" "hdr_id bs \<noteq> 65535" "hdr_size bs \<noteq> 0"
proof (cases "length bs < 4 \<or> length bs < hdr_size bs")
  case True
  then have "frames bs = ([], Rest bs)" by (subst frames.simps) auto
  then show thesis using rest True by blast
next
  case len: False
  show thesis
  proof (cases "hdr_id bs = 65535 \<or> hdr_size bs = 0")
    case True
    with len have "frames bs = (if hdr_id bs = 65535 then ([], Wild_id bs) else ([], Zero_size bs))"
      by (subst frames.simps) auto
    then show thesis using len True wild zero by (auto split: if_splits)
  next
    case False
    obtain qs e where f: "frames (drop (hdr_size bs) bs) = (qs, e)" by fastforce
    with len False have "frames bs = (Packet (hdr_id bs) (hdr_size bs) (drop 4 (take (hdr_size bs) bs)) # qs, e)"
      by (subst frames.simps) simp
    then show thesis using len False f pkt by auto
  qed
qed

lemma frames_rest:
  "frames bs = (ps, Rest r) \<Longrightarrow>
     (length r < 4 \<or> length r < hdr_size r) \<and> sum_list (map pkt_size ps) \<le> length bs
       \<and> r = drop (sum_list (map pkt_size ps)) bs"
proof (induction "length bs" arbitrary: bs ps rule: less_induct)
  case less
  show ?case
  proof (cases bs rule: frames_cases)
    case (pkt qs e)
    have "length (drop (hdr_size bs) bs) < length bs" using pkt by simp
    moreover have eq: "ps = Packet (hdr_id bs) (hdr_size bs) (drop 4 (take (hdr_size bs) bs)) # qs" "e = Rest r"
      using less.prems pkt(2) by simp_all
    ultimately have IH: "length r < 4 \<or> length r < hdr_size r"
      "sum_list (map pkt_size qs) \<le> length (drop (hdr_size bs) bs)"
      "r = drop (sum_list (map pkt_size qs)) (drop (hdr_size bs) bs)"
      using less.hyps pkt(1) by blast+
    moreover have "r = drop (sum_list (map pkt_size ps)) bs" using IH(3) eq(1) by (simp add: add.commute)
    ultimately show ?thesis using pkt(4) eq(1) by auto
  qed (use less.prems in auto)
qed

section \<open>The stream a sender makes\<close>

definition packet_bytes :: "nat \<Rightarrow> byte list \<Rightarrow> byte list" where
  "packet_bytes i body = le16_bytes (of_nat (length body + 4)) @ le16_bytes (of_nat i) @ body"

lemma length_packet_bytes [simp]: "length (packet_bytes i body) = length body + 4"
  by (simp add: packet_bytes_def)

lemma unat_of_nat_u16: "n < 65536 \<Longrightarrow> unat (of_nat n :: u16) = n"
  by (simp add: unsigned_of_nat take_bit_nat_eq_self)

lemma hdr_packet_bytes:
  assumes "length body \<le> 65531" and "i < 65536"
  shows "hdr_size (packet_bytes i body @ rest) = length body + 4" "hdr_id (packet_bytes i body @ rest) = i"
proof -
  have "unat (of_nat (length body + 4) :: u16) = length body + 4" "unat (of_nat i :: u16) = i"
    using assms by (intro unat_of_nat_u16, simp)+
  moreover have "packet_bytes i body @ rest = ucast (of_nat (length body + 4) :: u16)
      # ucast (drop_bit 8 (of_nat (length body + 4) :: u16)) # ucast (of_nat i :: u16)
      # ucast (drop_bit 8 (of_nat i :: u16)) # body @ rest"
    by (simp only: packet_bytes_def le16_bytes_def append.simps)
  ultimately show "hdr_size (packet_bytes i body @ rest) = length body + 4"
    "hdr_id (packet_bytes i body @ rest) = i"
    by (simp_all only: hdr_size_def hdr_id_def nth_Cons_0 nth_Cons_Suc One_nat_def numeral_2_eq_2 numeral_3_eq_3
        le16_load_bytes)
qed

lemma frames_packet:
  assumes "length body \<le> 65531" and "i < 65535"
  shows "frames (packet_bytes i body @ rest)
    = (Packet i (length body + 4) body # fst (frames rest), snd (frames rest))"
proof -
  have "drop 4 (take (length body + 4) (packet_bytes i body @ rest)) = body"
    by (simp add: packet_bytes_def le16_bytes_def eval_nat_numeral)
  moreover have "drop (length body + 4) (packet_bytes i body @ rest) = rest" by simp
  ultimately show ?thesis
    using hdr_packet_bytes [OF assms(1), of i rest] assms(2)
    by (subst frames.simps) (simp add: case_prod_unfold Let_def)
qed

lemma frames_packets:
  assumes "\<forall>b \<in> set bodies. length b \<le> 65531" and "i < 65535"
  shows "frames (concat (map (packet_bytes i) bodies)) = (map (\<lambda>b. Packet i (length b + 4) b) bodies, Rest [])"
  using assms(1)
proof (induction bodies)
  case Nil
  show ?case by (subst frames.simps) simp
qed (simp add: frames_packet assms(2))

section \<open>Over a queue of bytes\<close>

context byte_queue
begin

text \<open>Skipping the framed packets one after another leaves the incomplete rest.\<close>

lemma skip_frames:
  assumes "qinv q" and "frames (content q) = (ps, Rest r)"
  shows "content (fold skip (map pkt_size ps) q) = r" "qinv (fold skip (map pkt_size ps) q)"
  using skips_content [OF assms(1), of "map pkt_size ps"] frames_rest [OF assms(2)] by simp_all

text \<open>Receiving in two pieces frames the same packets as receiving at once.\<close>

lemma frames_put:
  assumes "qinv q" and "frames (content q) = (ps, Rest r)" and "length (content q) + length d \<le> cap"
  shows "frames (content (put d (fold skip (map pkt_size ps) q))) = frames (r @ d)"
    and "fst (frames (content (put d q))) = ps @ fst (frames (r @ d))"
proof -
  note s = skip_frames [OF assms(1,2)]
  have "length r \<le> length (content q)" using frames_rest [OF assms(2)] by simp
  then show "frames (content (put d (fold skip (map pkt_size ps) q))) = frames (r @ d)"
    using put_content [OF s(2), of d] s(1) assms(3) by simp
  show "fst (frames (content (put d q))) = ps @ fst (frames (r @ d))"
    using put_content [OF assms(1,3)] frames_append [OF assms(2), of d] by simp
qed

end

end
