(* ===== verification/Session.thy ===== *)
theory Session
  imports PacketHandler Framing
begin

text \<open>
  A session, \<^verbatim>\<open>Session.h\<close> and \<^verbatim>\<open>Session.cpp\<close> of \<^verbatim>\<open>Server/TopViewServer\<close>: it owns a socket and a
  receive buffer, cuts the received bytes into packets, hands them to the packet handlers,
  and frames the messages of a broadcast into one buffer for the socket.

  The socket is what the session does to it: whether it is open, whether a read was started
  (\<open>reading\<close>, with the space it was given), and the buffers passed to \<^verbatim>\<open>async_write\<close>. What the
  network does is the argument of the completion handler \<open>on_recv\<close>. The shared state that a
  handler changes, the room, is passed along.
\<close>

section \<open>State\<close>

record Socket =
  is_open :: bool
  reading :: "nat option"
  written :: "byte list list"

record Session =
  sessionId :: i32
  s_player :: "Object option"
  s_socket :: "Socket option"
  recvBuffer :: recv_buffer

definition new_Session :: "i32 \<Rightarrow> Session" where
  "new_Session i = \<lparr>sessionId = i, s_player = None, s_socket = None, recvBuffer = RecvBuffer_init\<rparr>"

definition new_Socket :: Socket where
  "new_Socket = \<lparr>is_open = True, reading = None, written = []\<rparr>"

definition GetSessionId :: "Session \<Rightarrow> i32" where
  "GetSessionId s = sessionId s"

definition GetPlayer :: "Session \<Rightarrow> Object option" where
  "GetPlayer s = s_player s"

section \<open>Operations\<close>

definition Close :: "Session \<Rightarrow> Session" where
  "Close s =
     (case s_socket s of
        None \<Rightarrow> s
      | Some k \<Rightarrow> if is_open k then s\<lparr>s_socket := Some (k\<lparr>is_open := False\<rparr>)\<rparr> else s)"

definition RegisterRecv :: "Session \<Rightarrow> Session" where
  "RegisterRecv s =
     (case s_socket s of
        None \<Rightarrow> s
      | Some k \<Rightarrow>
          if \<not> is_open k then s
          else s\<lparr>s_socket := Some (k\<lparr>reading := Some (nat (sint (GetWritableSize (recvBuffer s))))\<rparr>)\<rparr>)"

text \<open>\<^verbatim>\<open>EnterRoom\<close>; \<open>nextId\<close> is the static counter of \<^verbatim>\<open>Object\<close>.\<close>

definition EnterRoom :: "i32 \<Rightarrow> Room \<Rightarrow> Session \<Rightarrow> fault + (i32 \<times> Room \<times> Session)" where
  "EnterRoom nextId r s =
     (if GetPlayer s \<noteq> None then Inr (nextId, r, s)
      else let (_, p, nextId) = SetId nextId new_Player;
               p = p\<lparr>otype := OBJECT_TYPE_PLAYER\<rparr>;
               p = SetRoom (Some GRoom) p;
               p = SetSession (Some (sessionId s)) p;
               s = s\<lparr>s_player := Some p\<rparr>
           in (case EnterObject p r of Inl e \<Rightarrow> Inl e | Inr r \<Rightarrow> Inr (nextId, r, s)))"

definition Start :: "Socket \<Rightarrow> i32 \<Rightarrow> Room \<Rightarrow> Session \<Rightarrow> fault + (i32 \<times> Room \<times> Session)" where
  "Start sock nextId r s =
     (case EnterRoom nextId r (s\<lparr>s_socket := Some sock\<rparr>) of
        Inl e \<Rightarrow> Inl e | Inr (nextId, r, s) \<Rightarrow> Inr (nextId, r, RegisterRecv s))"

text \<open>
  The loop that fills the send buffer. \<open>pos\<close> is \<^verbatim>\<open>writePos\<close> as an offset; the sizes are cut to
  16 bits as in the code.
\<close>

fun Send_loop :: "nat \<Rightarrow> byte list \<Rightarrow> buf list \<Rightarrow> byte list" where
  "Send_loop pos sendBuffer [] = sendBuffer"
| "Send_loop pos sendBuffer (payload # packetList) =
     (let payloadSize = (of_nat (length payload) :: u16);
          packetSize = payloadSize + 4;
          packetId = (of_nat S_CHAT :: u16);
          sendBuffer = store_at pos (le16_bytes packetSize) sendBuffer;
          sendBuffer = store_at (pos + 2) (le16_bytes packetId) sendBuffer;
          sendBuffer = store_at (pos + 4) (take (unat payloadSize) payload) sendBuffer
      in Send_loop (pos + 4 + unat payloadSize) sendBuffer packetList)"

definition Send_buffer :: "buf list \<Rightarrow> byte list" where
  "Send_buffer packetList =
     (let totalSize = sum_list (map (\<lambda>payload. length payload + 4) packetList)
      in Send_loop 0 (replicate totalSize 0) packetList)"

definition Send :: "buf list \<Rightarrow> Session \<Rightarrow> fault + Session" where
  "Send packetList s =
     (if length packetList = 0 then Inr s
      else (case s_socket s of
              None \<Rightarrow> Inl Null_Deref
            | Some k \<Rightarrow> Inr (s\<lparr>s_socket := Some (k\<lparr>written := written k @ [Send_buffer packetList]\<rparr>)\<rparr>)))"

section \<open>The framing loop\<close>

definition load16 :: "byte list \<Rightarrow> nat \<Rightarrow> u16 pres" where
  "load16 b i = pbind (rd b i) (\<lambda>lo. pbind (rd b (i + 1)) (\<lambda>hi. Ok (le16_load lo hi)))"

text \<open>
  One turn of \<^verbatim>\<open>while (true)\<close>; the flag says whether the loop goes on. \<^verbatim>\<open>GetReadableSize()\<close> is an
  \<^verbatim>\<open>int\<close>: it is compared with the \<^verbatim>\<open>size_t\<close> \<^verbatim>\<open>sizeof(PacketHeader)\<close> as an unsigned number, with
  \<^verbatim>\<open>pktSize\<close> as a signed one. The third argument of the handler, \<^verbatim>\<open>pktSize - sizeof(PacketHeader)\<close>,
  is a \<^verbatim>\<open>size_t\<close> cut to \<^verbatim>\<open>int\<close>; the second is a pointer, so the handler gets all the bytes of the
  buffer behind the header.
\<close>

definition ProcessRecv_turn :: "handler_table \<Rightarrow> Session \<Rightarrow> Room \<Rightarrow> fault + (bool \<times> Session \<times> Room)" where
  "ProcessRecv_turn table s r =
     (let rb = recvBuffer s
      in if unat (scast (GetReadableSize rb) :: u64) < sizeof_PacketHeader then Inr (False, s, r)
         else (case (load16 (buffer rb) (GetReadPos rb), load16 (buffer rb) (GetReadPos rb + 2)) of
             (Ok pktSize, Ok pktId) \<Rightarrow>
               if sint (GetReadableSize rb) < int (unat pktSize) then Inr (False, s, r)
               else let pktData = drop (GetReadPos rb + sizeof_PacketHeader) (buffer rb);
                        len = ucast ((ucast pktSize :: u64) - of_nat sizeof_PacketHeader) :: i32;
                        s' = s\<lparr>recvBuffer := Clear (SetReadPos (ucast pktSize) rb)\<rparr>
                    in (case handler_at table (unat pktId) of
                          Inl e \<Rightarrow> Inl e
                        | Inr None \<Rightarrow> Inr (True, s', r)
                        | Inr (Some h) \<Rightarrow>
                            (case run_handler h (GetPlayer s) pktData len r of
                               Inl e \<Rightarrow> Inl e
                             | Inr (_, r) \<Rightarrow> Inr (True, s', r)))
           | _ \<Rightarrow> Inl Read_OOB))"

partial_function (option) ProcessRecv_loop ::
  "handler_table \<Rightarrow> Session \<Rightarrow> Room \<Rightarrow> (fault + (Session \<times> Room)) option" where
  "ProcessRecv_loop table s r =
     (case ProcessRecv_turn table s r of
        Inl e \<Rightarrow> Some (Inl e)
      | Inr (again, s, r) \<Rightarrow> if again then ProcessRecv_loop table s r else Some (Inr (s, r)))"

definition ProcessRecv :: "handler_table \<Rightarrow> nat \<Rightarrow> Session \<Rightarrow> Room \<Rightarrow> (fault + (Session \<times> Room)) option" where
  "ProcessRecv table n s r =
     (if n = 0 then Some (Inr (Close s, r)) else ProcessRecv_loop table s r)"

text \<open>
  The completion handler of \<^verbatim>\<open>async_read_some\<close>: the socket has stored the bytes \<open>data\<close> at the
  write position, or failed (\<open>None\<close>).
\<close>

definition on_recv :: "handler_table \<Rightarrow> byte list option \<Rightarrow> Session \<Rightarrow> Room \<Rightarrow> (fault + (Session \<times> Room)) option" where
  "on_recv table result s r =
     (case result of
        None \<Rightarrow> Some (Inr (Close s, r))
      | Some data \<Rightarrow>
          let s = s\<lparr>recvBuffer := SetWritePos (of_nat (length data)) (store_bytes data (recvBuffer s))\<rparr>
          in (case ProcessRecv table (length data) s r of
                None \<Rightarrow> None
              | Some (Inl e) \<Rightarrow> Some (Inl e)
              | Some (Inr (s, r)) \<Rightarrow> Some (Inr (RegisterRecv s, r))))"

section \<open>The framing loop delivers the packets of the stream\<close>

text \<open>The table after \<^verbatim>\<open>PacketHandler::Init\<close>.\<close>

definition server_table :: handler_table where
  "server_table = PacketHandler_Init GPacketHandler"

text \<open>A session between two receives, with its player in the room.\<close>

definition session_ok :: "Session \<Rightarrow> bool" where
  "session_ok s \<longleftrightarrow> rb_compact (recvBuffer s) \<and> (\<exists>p. s_player s = Some p \<and> GetRoom p = Some GRoom)"

definition consume :: "nat \<Rightarrow> Session \<Rightarrow> Session" where
  "consume n s = s\<lparr>recvBuffer := RecvBuffer_consume (of_nat n) (recvBuffer s)\<rparr>"

text \<open>Only complete \<^verbatim>\<open>C_Chat\<close> packets have an effect.\<close>

definition deliver :: "packet \<Rightarrow> Room \<Rightarrow> Room" where
  "deliver p r = (if pkt_id p = C_CHAT \<and> 4 \<le> pkt_size p then chat_effect (pkt_body p) r else r)"

lemma load16_readable:
  assumes "rb_compact rb" and "i + 1 < length (readable rb)"
  shows "load16 (buffer rb) (GetReadPos rb + i) = Ok (le16_load (readable rb ! i) (readable rb ! (i + 1)))"
proof -
  have inv: "rb_inv rb" and z: "readPos rb = 0" using assms(1) by (simp_all add: rb_compact_def)
  note pos = rb_inv_posD [OF inv] length_readable [OF inv]
  have n: "readable rb ! j = buffer rb ! j" if "j < length (readable rb)" for j
    using that z pos by (simp add: readable_def)
  show ?thesis
    using assms(2) n pos z by (simp add: load16_def GetReadPos_def)
qed

lemma handler_len:
  assumes "n < 65536"
  shows "sint (ucast ((of_nat n :: u64) - of_nat sizeof_PacketHeader) :: i32) = int n - 4"
proof (cases "n < 4")
  case True
  have "\<forall>n \<in> set [0..<4]. sint (ucast ((of_nat n :: u64) - of_nat sizeof_PacketHeader) :: i32) = int n - 4"
    by code_simp
  then show ?thesis using True by simp
next
  case False
  then have "(of_nat n :: u64) - of_nat sizeof_PacketHeader = of_nat (n - 4)"
    by (simp add: sizeof_PacketHeader_def)
  moreover have "sint (of_nat (n - 4) :: i32) = int n - 4"
    using False assms by (subst sint_of_nat_i32) auto
  ultimately show ?thesis by (simp only: ucast_of_nat_64_32)
qed

text \<open>The handler of \<^verbatim>\<open>C_Chat\<close>, called with the buffer behind the header and the length of the body.\<close>

lemma handler_delivers:
  assumes "rb_compact rb" and "GetRoom p = Some GRoom" and "4 \<le> length (readable rb)"
    and "n \<le> length (readable rb)" and "sint len = int n - 4"
  shows "\<exists>b. HandlePacket (Some p) (drop 4 (buffer rb)) len r
     = Inr (b, deliver (Packet C_CHAT n (drop 4 (take n (readable rb)))) r)"
proof (cases "n < 4")
  case True
  then show ?thesis using HandlePacket_negative [of len] assms(5) by (auto simp: deliver_def)
next
  case False
  have inv: "rb_inv rb" and z: "readPos rb = 0" using assms(1) by (simp_all add: rb_compact_def)
  note b = rb_inv_posD [OF inv] length_readable [OF inv]
  have "take (n - 4) (drop 4 (buffer rb)) = drop 4 (take n (readable rb))"
    using assms(4) False z b by (simp add: readable_def drop_take min_absorb1)
  moreover have "nat (int n - 4) = n - 4" by simp
  ultimately show ?thesis
    using HandlePacket_eq [of len "drop 4 (buffer rb)" p r] False assms b by (simp add: deliver_def)
qed

lemma turn_eq:
  assumes "session_ok s"
  shows "ProcessRecv_turn server_table s r =
    (let bs = readable (recvBuffer s) in
     if length bs < 4 \<or> length bs < hdr_size bs then Inr (False, s, r)
     else if hdr_id bs = 65535 then Inl (Table_OOB 65535)
     else Inr (True, consume (hdr_size bs) s, deliver (Packet (hdr_id bs) (hdr_size bs) (drop 4 (take (hdr_size bs) bs))) r))"
proof -
  define rb where "rb = recvBuffer s"
  define bs where "bs = readable rb"
  from assms obtain p where rbc: "rb_compact rb" and p: "s_player s = Some p" "GetRoom p = Some GRoom"
    by (auto simp: session_ok_def rb_def)
  then have inv: "rb_inv rb" and z: "GetReadPos rb = 0" by (simp_all add: rb_compact_def GetReadPos_def)
  have sz: "sint (GetReadableSize rb) = int (length bs)" "unat (scast (GetReadableSize rb) :: u64) = length bs"
    using GetReadableSize_eq [OF inv] by (simp_all add: bs_def)
  show ?thesis
  proof (cases "length bs < 4")
    case True
    then show ?thesis
      unfolding ProcessRecv_turn_def by (simp add: sz sizeof_PacketHeader_def flip: rb_def bs_def)
  next
    case False
    define w i where "w = le16_load (bs ! 0) (bs ! 1)" and "i = le16_load (bs ! 2) (bs ! 3)"
    have wi: "unat w = hdr_size bs" "unat i = hdr_id bs" by (simp_all add: w_def i_def hdr_size_def hdr_id_def)
    have "unat w < 65536" "unat i < 65536"
      using unsigned_less [of w, where ?'a = nat] unsigned_less [of i, where ?'a = nat] by simp_all
    then have lt: "hdr_size bs < 65536" "hdr_id bs < 65536" by (simp_all only: wi)
    have l: "load16 (buffer rb) (GetReadPos rb) = Ok w" "load16 (buffer rb) (GetReadPos rb + 2) = Ok i"
      using load16_readable [OF rbc, of 0] load16_readable [OF rbc, of 2] False
      by (simp_all add: w_def i_def bs_def)
    have uw: "ucast w = (of_nat (hdr_size bs) :: u64)" by (simp flip: wi(1))
    let ?len = "ucast ((ucast w :: u64) - of_nat sizeof_PacketHeader) :: i32"
    have len: "sint ?len = int (hdr_size bs) - 4" unfolding uw by (rule handler_len [OF lt(1)])
    have c: "s\<lparr>recvBuffer := Clear (SetReadPos (ucast w) rb)\<rparr> = consume (hdr_size bs) s"
      by (simp add: consume_def RecvBuffer_consume_def uw rb_def)
    have d: "drop (GetReadPos rb + sizeof_PacketHeader) (buffer rb) = drop 4 (buffer rb)"
      by (simp add: z sizeof_PacketHeader_def)
    have T: "ProcessRecv_turn server_table s r =
        (if length bs < hdr_size bs then Inr (False, s, r)
         else case handler_at server_table (hdr_id bs) of
             Inl e \<Rightarrow> Inl e
           | Inr None \<Rightarrow> Inr (True, consume (hdr_size bs) s, r)
           | Inr (Some h) \<Rightarrow> (case run_handler h (GetPlayer s) (drop 4 (buffer rb)) ?len r of
                 Inl e \<Rightarrow> Inl e | Inr (_, r) \<Rightarrow> Inr (True, consume (hdr_size bs) s, r)))"
      unfolding ProcessRecv_turn_def Let_def rb_def [symmetric] l sz pres.case prod.case c d wi
      using False by (simp add: sizeof_PacketHeader_def)
    have "\<exists>b. HandlePacket (Some p) (drop 4 (buffer rb)) ?len r
        = Inr (b, deliver (Packet C_CHAT (hdr_size bs) (drop 4 (take (hdr_size bs) bs))) r)"
      if "hdr_size bs \<le> length bs"
      using handler_delivers [OF rbc p(2) _ _ len] that False by (simp add: bs_def)
    then show ?thesis
      using lt(2) False p(1) unfolding T
      by (auto simp: handler_at_def server_table_def PacketHandler_Init_def GPacketHandler_def UINT16_MAX_def
          deliver_def C_CHAT_def GetPlayer_def Let_def simp flip: rb_def bs_def)
  qed
qed

lemma consume_ok:
  assumes "session_ok s" and "n \<le> length (readable (recvBuffer s))"
  shows "session_ok (consume n s)" "readable (recvBuffer (consume n s)) = drop n (readable (recvBuffer s))"
  using rbq.skip_inv [OF _ assms(2)] rbq.skip_content [OF _ assms(2)] assms(1)
  by (auto simp: session_ok_def consume_def)

text \<open>A packet whose header says size 0 is handled again and again.\<close>

lemma loop_zero:
  assumes "session_ok s" and "frames (readable (recvBuffer s)) = ([], Zero_size bs)"
  shows "ProcessRecv_loop server_table s r = None"
proof -
  define stuck where "stuck = (\<lambda>table s. table = server_table \<and> session_ok s
      \<and> (\<exists>bs. frames (readable (recvBuffer s)) = ([], Zero_size bs)))"
  have "\<not> stuck server_table s" if "ProcessRecv_loop server_table s r = Some y" for y
    using that
  proof (rule ProcessRecv_loop.raw_induct [where P = "\<lambda>table s r y. \<not> stuck table s", rotated])
    fix loop table s r y
    assume IH: "\<And>table s r y. loop table s r = Some y \<Longrightarrow> \<not> stuck table s"
      and body: "(case ProcessRecv_turn table s r of Inl e \<Rightarrow> Some (Inl e)
        | Inr (again, s, r) \<Rightarrow> if again then loop table s r else Some (Inr (s, r))) = Some y"
    let ?bs = "readable (recvBuffer s)"
    show "\<not> stuck table s"
    proof
      assume st: "stuck table s"
      then obtain bs where bs: "table = server_table" "session_ok s" "frames ?bs = ([], Zero_size bs)"
        by (auto simp: stuck_def)
      have z: "4 \<le> length ?bs \<and> hdr_size ?bs = 0 \<and> hdr_id ?bs \<noteq> 65535"
      proof (cases ?bs rule: frames_cases)
        case zero
        then show ?thesis by simp
      qed (use bs(3) in simp_all)
      have "stuck table (consume 0 s)" using consume_ok [OF bs(2), of 0] bs by (auto simp: stuck_def)
      moreover have "ProcessRecv_turn table s r = Inr (True, consume 0 s, r)"
        using turn_eq [OF bs(2), of r] z bs(1) by (simp add: deliver_def)
      ultimately show False using body IH by auto
    qed
  qed
  then show ?thesis using assms by (cases "ProcessRecv_loop server_table s r") (auto simp: stuck_def)
qed

lemma loop_frames:
  "session_ok s \<Longrightarrow> frames (readable (recvBuffer s)) = (ps, e) \<Longrightarrow>
     ProcessRecv_loop server_table s r = (case e of
        Rest _ \<Rightarrow> Some (Inr (fold consume (map pkt_size ps) s, fold deliver ps r))
      | Wild_id _ \<Rightarrow> Some (Inl (Table_OOB 65535))
      | Zero_size _ \<Rightarrow> None)"
proof (induction ps arbitrary: s r)
  case Nil
  let ?bs = "readable (recvBuffer s)"
  show ?case
  proof (cases ?bs rule: frames_cases)
    case zero
    then show ?thesis using loop_zero [OF Nil(1), of ?bs r] Nil(2) by simp
  next
    case rest
    then show ?thesis using Nil turn_eq [OF Nil(1), of r]
      by (subst ProcessRecv_loop.simps) (auto simp: Let_def)
  next
    case wild
    then show ?thesis using Nil turn_eq [OF Nil(1), of r]
      by (subst ProcessRecv_loop.simps) (auto simp: Let_def)
  qed (use Nil in simp)
next
  case (Cons p ps)
  let ?bs = "readable (recvBuffer s)"
  from Cons(3) have f: "frames (drop (hdr_size ?bs) ?bs) = (ps, e)" "4 \<le> length ?bs" "hdr_size ?bs \<le> length ?bs"
      "hdr_id ?bs \<noteq> 65535" "p = Packet (hdr_id ?bs) (hdr_size ?bs) (drop 4 (take (hdr_size ?bs) ?bs))"
    by (cases ?bs rule: frames_cases; simp)+
  note c = consume_ok [OF Cons(2) f(3)]
  have "ProcessRecv_turn server_table s r = Inr (True, consume (pkt_size p) s, deliver p r)"
    using turn_eq [OF Cons(2), of r] f(2-5) by (simp add: Let_def)
  then have "ProcessRecv_loop server_table s r = ProcessRecv_loop server_table (consume (pkt_size p) s) (deliver p r)"
    by (subst ProcessRecv_loop.simps) simp
  moreover have "pkt_size p = hdr_size ?bs" using f(5) by simp
  ultimately show ?case
    using Cons.IH [OF c(1), of "deliver p r"] c(2) f(1) by (cases e) simp_all
qed

lemma consumes_ok:
  assumes "session_ok s" and "frames (readable (recvBuffer s)) = (ps, Rest rest)"
  shows "session_ok (fold consume (map pkt_size ps) s)"
    "readable (recvBuffer (fold consume (map pkt_size ps) s)) = rest"
proof -
  have f: "fold consume ns s = s\<lparr>recvBuffer := fold (\<lambda>n. RecvBuffer_consume (of_nat n)) ns (recvBuffer s)\<rparr>" for ns
    by (induction ns arbitrary: s) (simp_all add: consume_def)
  show "session_ok (fold consume (map pkt_size ps) s)"
    "readable (recvBuffer (fold consume (map pkt_size ps) s)) = rest"
    using rbq.skip_frames [OF _ assms(2)] assms(1) unfolding f by (auto simp: session_ok_def)
qed

section \<open>Sending\<close>

lemma store_at_end:
  "length bs \<le> length rest \<Longrightarrow> store_at (length pre) bs (pre @ rest) = pre @ bs @ drop (length bs) rest"
  by (simp add: store_at_def)

lemma Send_loop_eq:
  "\<forall>payload \<in> set ps. length payload \<le> 65531 \<Longrightarrow>
     length (concat (map (packet_bytes S_CHAT) ps)) \<le> length rest \<Longrightarrow>
     Send_loop (length pre) (pre @ rest) ps
       = pre @ concat (map (packet_bytes S_CHAT) ps) @ drop (length (concat (map (packet_bytes S_CHAT) ps))) rest"
proof (induction ps arbitrary: pre rest)
  case (Cons payload ps)
  let ?h1 = "le16_bytes (of_nat (length payload) + 4)" and ?h2 = "le16_bytes (of_nat S_CHAT)"
  let ?p = "packet_bytes S_CHAT payload"
  have p: "?p = ?h1 @ ?h2 @ payload" by (simp add: packet_bytes_def)
  have u: "unat (of_nat (length payload) :: u16) = length payload"
    using Cons.prems(1) by (intro unat_of_nat_u16) simp
  have len: "length payload + 4 \<le> length rest" using Cons.prems(2) by simp
  have s1: "store_at (length pre) ?h1 (pre @ rest) = (pre @ ?h1) @ drop 2 rest"
    using store_at_end [of ?h1 rest pre] len by simp
  have s2: "store_at (length pre + 2) ?h2 ((pre @ ?h1) @ drop 2 rest) = (pre @ ?h1 @ ?h2) @ drop 4 rest"
    using store_at_end [of ?h2 "drop 2 rest" "pre @ ?h1"] len by simp
  have s3: "store_at (length pre + 4) payload ((pre @ ?h1 @ ?h2) @ drop 4 rest)
      = (pre @ ?p) @ drop (length payload + 4) rest"
    using store_at_end [of payload "drop 4 rest" "pre @ ?h1 @ ?h2"] len by (simp add: p add.commute)
  have "Send_loop (length pre) (pre @ rest) (payload # ps)
      = Send_loop (length (pre @ ?p)) ((pre @ ?p) @ drop (length payload + 4) rest) ps"
    using s1 s2 s3 by (simp add: u Let_def ac_simps)
  also have "\<dots> = (pre @ ?p) @ concat (map (packet_bytes S_CHAT) ps)
      @ drop (length (concat (map (packet_bytes S_CHAT) ps))) (drop (length payload + 4) rest)"
    using Cons.prems by (intro Cons.IH) simp_all
  finally show ?case by (simp add: add.commute)
qed simp

lemma length_packets: "length (concat (map (packet_bytes i) ps)) = sum_list (map (\<lambda>p. length p + 4) ps)"
  by (induction ps) simp_all

lemma Send_buffer_eq:
  assumes "\<forall>payload \<in> set ps. length payload \<le> 65531"
  shows "Send_buffer ps = concat (map (packet_bytes S_CHAT) ps)"
  using Send_loop_eq [OF assms, of "replicate (sum_list (map (\<lambda>p. length p + 4) ps)) 0" "[]"]
  by (simp add: Send_buffer_def length_packets)

section \<open>Receiving in pieces\<close>

text \<open>A sequence of receives, each the completion of the read that the previous one started.\<close>

fun recv_chunks :: "handler_table \<Rightarrow> byte list list \<Rightarrow> Session \<Rightarrow> Room \<Rightarrow> (fault + (Session \<times> Room)) option" where
  "recv_chunks table [] s r = Some (Inr (s, r))"
| "recv_chunks table (c # cs) s r =
     (case on_recv table (Some c) s r of
        Some (Inr (s, r)) \<Rightarrow> recv_chunks table cs s r | x \<Rightarrow> x)"

text \<open>Every chunk is not empty and fits into the space of the read it completes.\<close>

fun fits :: "byte list \<Rightarrow> byte list list \<Rightarrow> bool" where
  "fits rest [] = True"
| "fits rest (c # cs) \<longleftrightarrow> c \<noteq> [] \<and> length rest + length c \<le> buffer_sizeof
     \<and> (case snd (frames (rest @ c)) of Rest rest' \<Rightarrow> fits rest' cs | _ \<Rightarrow> True)"

lemma RegisterRecv_keeps [simp]:
  "recvBuffer (RegisterRecv s) = recvBuffer s" "s_player (RegisterRecv s) = s_player s"
  "sessionId (RegisterRecv s) = sessionId s"
  by (simp_all add: RegisterRecv_def split: option.split)

lemma session_ok_RegisterRecv [simp]: "session_ok (RegisterRecv s) = session_ok s"
  by (simp add: session_ok_def)

definition receive :: "byte list \<Rightarrow> Session \<Rightarrow> Session" where
  "receive data s = s\<lparr>recvBuffer := RecvBuffer_receive data (recvBuffer s)\<rparr>"

lemma receive_ok:
  assumes "session_ok s" and "length (readable (recvBuffer s)) + length data \<le> buffer_sizeof"
  shows "session_ok (receive data s)" "readable (recvBuffer (receive data s)) = readable (recvBuffer s) @ data"
  using rbq.put_inv [OF _ assms(2)] rbq.put_content [OF _ assms(2)] assms(1)
  by (auto simp: session_ok_def receive_def)

lemma on_recv_frames:
  assumes "session_ok s" and "length (readable (recvBuffer s)) + length data \<le> buffer_sizeof"
    and "data \<noteq> []" and "frames (readable (recvBuffer s) @ data) = (ps, e)"
  shows "on_recv server_table (Some data) s r = (case e of
      Rest _ \<Rightarrow> Some (Inr (RegisterRecv (fold consume (map pkt_size ps) (receive data s)), fold deliver ps r))
    | Wild_id _ \<Rightarrow> Some (Inl (Table_OOB 65535))
    | Zero_size _ \<Rightarrow> None)"
proof -
  note r = receive_ok [OF assms(1,2)]
  have "s\<lparr>recvBuffer := SetWritePos (of_nat (length data)) (store_bytes data (recvBuffer s))\<rparr> = receive data s"
    by (simp add: receive_def RecvBuffer_receive_def)
  then show ?thesis
    using loop_frames [OF r(1), of ps e] assms(3,4) r(2)
    by (cases e) (simp_all add: on_recv_def ProcessRecv_def Let_def)
qed

text \<open>Between two receives no complete packet is left in the buffer.\<close>

definition session_idle :: "Session \<Rightarrow> bool" where
  "session_idle s \<longleftrightarrow> session_ok s
     \<and> frames (readable (recvBuffer s)) = ([], Rest (readable (recvBuffer s)))"

lemma frames_idle: "frames bs = (ps, Rest r) \<Longrightarrow> frames r = ([], Rest r)"
  using frames_rest [of bs ps r] by (subst frames.simps) auto

lemma recv_chunks_eq:
  "session_idle s \<Longrightarrow> fits (readable (recvBuffer s)) chunks \<Longrightarrow>
     frames (readable (recvBuffer s) @ concat chunks) = (ps, Rest rest) \<Longrightarrow>
     \<exists>s'. recv_chunks server_table chunks s r = Some (Inr (s', fold deliver ps r))
        \<and> session_idle s' \<and> readable (recvBuffer s') = rest"
proof (induction chunks arbitrary: s r ps)
  case Nil
  then show ?case by (auto simp: session_idle_def)
next
  case (Cons c cs)
  let ?bs = "readable (recvBuffer s)"
  obtain qs e where f: "frames (?bs @ c) = (qs, e)" by fastforce
  have all: "frames (?bs @ c @ concat cs) = (ps, Rest rest)" using Cons.prems(3) by simp
  from frames_append [OF f, of "concat cs"] all obtain r1 where e: "e = Rest r1"
    "ps = qs @ fst (frames (r1 @ concat cs))" "snd (frames (r1 @ concat cs)) = Rest rest"
    by (cases e) auto
  have fit: "c \<noteq> []" "length ?bs + length c \<le> buffer_sizeof" "fits r1 cs" and ok: "session_ok s"
    using Cons.prems(1,2) f e(1) by (simp_all add: session_idle_def)
  note r = receive_ok [OF ok fit(2)]
  let ?s = "RegisterRecv (fold consume (map pkt_size qs) (receive c s))"
  have o: "on_recv server_table (Some c) s r = Some (Inr (?s, fold deliver qs r))"
    using on_recv_frames [OF ok fit(2,1) f, of r] e(1) by simp
  have s: "session_ok ?s" "readable (recvBuffer ?s) = r1"
    using consumes_ok [OF r(1), of qs r1] r(2) f e(1) by simp_all
  then have "session_idle ?s" using frames_idle f e(1) by (simp add: session_idle_def)
  from Cons.IH [OF this, of "fst (frames (r1 @ concat cs))" "fold deliver qs r"] s(2) fit(3) e
  show ?case using o by (auto simp: prod_eq_iff)
qed

section \<open>Entering the room\<close>

definition player_of :: "i32 \<Rightarrow> i32 \<Rightarrow> Object" where
  "player_of i sid = \<lparr>objectId = i, otype = OBJECT_TYPE_PLAYER, p_room = Some GRoom, p_session = Some sid\<rparr>"

lemma Start_eq:
  assumes "tables_ready r" and "s_player s = None"
  shows "Start sock nextId r s = Inr (nextId + 1, run_insert Players (player_of nextId (sessionId s)) r,
    RegisterRecv (s\<lparr>s_socket := Some sock, s_player := Some (player_of nextId (sessionId s))\<rparr>))"
  using assms
  by (simp add: Start_def EnterRoom_def GetPlayer_def SetId_def new_Player_def SetRoom_def SetSession_def
      EnterObject_ready player_of_def Let_def)

lemma session_idle_start:
  "session_idle (RegisterRecv ((new_Session i)\<lparr>s_socket := Some sock, s_player := Some (player_of n i)\<rparr>))"
proof -
  have "frames [] = ([], Rest [])" by (subst frames.simps) simp
  then show ?thesis
    by (simp add: session_idle_def session_ok_def new_Session_def player_of_def GetRoom_def
        rb_compact_init readable_init)
qed

section \<open>The size of a packet\<close>

text \<open>A packet that fits into the buffer always leaves space for its missing bytes.\<close>

lemma idle_space:
  assumes "session_idle s" and "4 \<le> length (readable (recvBuffer s)) \<longrightarrow> hdr_size (readable (recvBuffer s)) \<le> buffer_sizeof"
  shows "0 < sint (GetWritableSize (recvBuffer s))"
proof -
  have "rb_compact (recvBuffer s)" using assms(1) by (simp add: session_idle_def session_ok_def)
  moreover have "length (readable (recvBuffer s)) < 40960"
    using frames_rest [of "readable (recvBuffer s)" "[]" "readable (recvBuffer s)"] assms
    by (auto simp: session_idle_def buffer_sizeof_def)
  ultimately show ?thesis by (simp add: rb_compact_size)
qed

text \<open>A larger one fills it; the read of no bytes that follows closes the session.\<close>

lemma full_closes:
  assumes "session_ok s" and "length (readable (recvBuffer s)) = buffer_sizeof" and "s_socket s = Some k" "is_open k"
  shows "sint (GetWritableSize (recvBuffer s)) = 0"
    and "\<exists>s'. on_recv server_table (Some []) s r = Some (Inr (s', r)) \<and> s_socket s' = Some (k\<lparr>is_open := False\<rparr>)"
proof -
  have "rb_compact (recvBuffer s)" using assms(1) by (simp add: session_ok_def)
  then show "sint (GetWritableSize (recvBuffer s)) = 0"
    using assms(2) by (simp add: rb_compact_size buffer_sizeof_def)
  show "\<exists>s'. on_recv server_table (Some []) s r = Some (Inr (s', r)) \<and> s_socket s' = Some (k\<lparr>is_open := False\<rparr>)"
    using assms(3,4) by (auto simp: on_recv_def ProcessRecv_def Close_def RegisterRecv_def Let_def)
qed

text \<open>A session whose player has entered the room and that has stored \<open>data\<close>.\<close>

definition started :: "byte list \<Rightarrow> Session" where
  "started data = receive data (RegisterRecv ((new_Session 0)\<lparr>s_socket := Some new_Socket, s_player := Some (player_of 0 0)\<rparr>))"

lemma started_ok:
  assumes "length data \<le> buffer_sizeof"
  shows "session_ok (started data)" "readable (recvBuffer (started data)) = data"
    "data = [] \<Longrightarrow> session_idle (started data)"
    "s_socket (started data) = Some (new_Socket\<lparr>reading := Some 40960\<rparr>)"
proof -
  let ?s = "RegisterRecv ((new_Session 0)\<lparr>s_socket := Some new_Socket, s_player := Some (player_of 0 0)\<rparr>)"
  have s: "session_idle ?s" by (rule session_idle_start)
  have r: "readable (recvBuffer ?s) = []" by (simp add: new_Session_def readable_init)
  then show ok: "session_ok (started data)" and rd: "readable (recvBuffer (started data)) = data"
    using receive_ok [of ?s data] s assms by (simp_all add: started_def session_idle_def)
  show "session_idle (started data)" if "data = []"
    using ok rd that s r by (simp add: session_idle_def)
  show "s_socket (started data) = Some (new_Socket\<lparr>reading := Some 40960\<rparr>)"
    using rb_compact_size(2) [OF rb_compact_init] readable_init
    by (simp add: started_def receive_def RegisterRecv_def new_Socket_def new_Session_def)
qed

section \<open>Properties\<close>

text \<open>
  C7: \<^verbatim>\<open>ProcessRecv\<close> delivers to the room exactly the packets that the bytes in the buffer hold, in
  their order, and keeps the bytes of the incomplete rest. On a packet of size 0 it never
  returns; on a packet with id 65535 it reads the handler table behind its end.
\<close>

theorem process_recv_frames:
  assumes "session_ok s" and "n \<noteq> 0" and "frames (readable (recvBuffer s)) = (ps, e)"
  shows "case e of
      Rest rest \<Rightarrow> (\<exists>s'. ProcessRecv server_table n s r = Some (Inr (s', fold deliver ps r))
         \<and> session_ok s' \<and> readable (recvBuffer s') = rest \<and> s_socket s' = s_socket s)
    | Zero_size _ \<Rightarrow> ProcessRecv server_table n s r = None
    | Wild_id _ \<Rightarrow> ProcessRecv server_table n s r = Some (Inl (Table_OOB 65535))"
proof -
  have k: "s_socket (fold consume ns s) = s_socket s" for ns
    by (induction ns arbitrary: s) (simp_all add: consume_def)
  show ?thesis
    using loop_frames [OF assms(1,3), of r] assms(2) consumes_ok [OF assms(1), of ps] assms(3) k
    by (cases e) (auto simp: ProcessRecv_def)
qed

theorem process_recv_frames_witness:
  "ProcessRecv server_table 4 (started [0, 0, 1, 0]) new_Room = None"
proof -
  have ok: "session_ok (started [0, 0, 1, 0])" "readable (recvBuffer (started [0, 0, 1, 0])) = [0, 0, 1, 0]"
    using started_ok [of "[0, 0, 1, 0]"] by (simp_all add: buffer_sizeof_def)
  have "frames [0, 0, 1, 0] = ([], Zero_size [0, 0, 1, 0])" by code_simp
  then show ?thesis using process_recv_frames [OF ok(1), of 4 "[]" "Zero_size [0, 0, 1, 0]" new_Room] ok(2) by simp
qed

text \<open>
  C8: how the network cuts the stream into pieces makes no difference: receiving the chunks one
  after another delivers the packets of the whole stream, once each and in order, and leaves
  the same rest in the buffer.
\<close>

theorem recv_chunking:
  assumes "session_idle s" and "fits (readable (recvBuffer s)) chunks"
    and "frames (readable (recvBuffer s) @ concat chunks) = (ps, Rest rest)"
  shows "\<exists>s'. recv_chunks server_table chunks s r = Some (Inr (s', fold deliver ps r))
    \<and> session_idle s' \<and> readable (recvBuffer s') = rest"
  by (rule recv_chunks_eq [OF assms])

theorem recv_chunking_witness:
  "\<exists>s'. recv_chunks server_table [[5, 0], [9, 0, 1]] (started []) new_Room = Some (Inr (s', new_Room))
     \<and> readable (recvBuffer s') = []"
proof -
  have ok: "session_idle (started [])" "readable (recvBuffer (started [])) = []"
    using started_ok [of "[]"] by (simp_all add: buffer_sizeof_def)
  have h: "hdr_size [5, 0, 9, 0, 1] = 5" "hdr_id [5, 0, 9, 0, 1] = 9" by (code_simp, code_simp)
  have e: "frames [5, 0] = ([], Rest [5, 0])" "frames [] = ([], Rest [])"
    by (simp_all add: frames.simps)
  then have f: "frames [5, 0, 9, 0, 1] = ([Packet 9 5 [1]], Rest [])"
    by (subst frames.simps) (simp add: h)
  show ?thesis
    using recv_chunking [OF ok(1), of "[[5, 0], [9, 0, 1]]" "[Packet 9 5 [1]]" "[]" new_Room] ok(2) e f
    by (simp add: deliver_def C_CHAT_def buffer_sizeof_def) blast
qed

text \<open>
  C13: \<^verbatim>\<open>Send\<close> writes one buffer that frames back into the messages it was given, as packets with
  the id \<^verbatim>\<open>S_CHAT\<close>, as long as every message is short enough for the 16-bit size field.
\<close>

theorem send_frames_back:
  assumes "s_socket s = Some k" and "msgs \<noteq> []" and "\<forall>m \<in> set msgs. length m \<le> 65531"
  shows "\<exists>out. Send msgs s = Inr (s\<lparr>s_socket := Some (k\<lparr>written := written k @ [out]\<rparr>)\<rparr>)
    \<and> frames out = (map (\<lambda>m. Packet S_CHAT (length m + 4) m) msgs, Rest [])"
  using assms Send_buffer_eq [OF assms(3)] frames_packets [OF assms(3), of S_CHAT]
  by (intro exI [of _ "Send_buffer msgs"]) (simp add: Send_def S_CHAT_def)

theorem send_frames_back_witness:
  "\<exists>out. Send [[7], [8, 9]] ((new_Session 3)\<lparr>s_socket := Some new_Socket\<rparr>)
      = Inr ((new_Session 3)\<lparr>s_socket := Some (new_Socket\<lparr>written := [out]\<rparr>)\<rparr>)
    \<and> frames out = ([Packet 2 5 [7], Packet 2 6 [8, 9]], Rest [])"
  using send_frames_back [of "(new_Session 3)\<lparr>s_socket := Some new_Socket\<rparr>" new_Socket "[[7], [8, 9]]"]
  by (simp add: new_Session_def new_Socket_def S_CHAT_def)









end
