(* ===== verification/SessionManager.thy ===== *)
theory SessionManager
  imports Session
begin

text \<open>
  \<^verbatim>\<open>SessionManager.h\<close> and \<^verbatim>\<open>SessionManager.cpp\<close> of \<^verbatim>\<open>Server/TopViewServer\<close>: the sessions by id. The
  map owns the sessions, so it is also where the model keeps their state; players and
  completion handlers name a session by its id, and \<open>put_session\<close> writes back what a method
  of the session changed. Nothing calls \<^verbatim>\<open>RemoveSession\<close>.
\<close>

record SessionManager =
  ClientNo :: i32
  sessions :: "(i32 \<times> Session) list"

definition new_SessionManager :: SessionManager where
  "new_SessionManager = \<lparr>ClientNo = 0, sessions = []\<rparr>"

text \<open>
  \<^verbatim>\<open>emplace\<close> does not replace an entry: should the id be taken, because the counter has
  wrapped around, the session of that id is returned and the new one is dropped.
\<close>

definition AddSession :: "SessionManager \<Rightarrow> Session \<times> SessionManager" where
  "AddSession m =
     (let i = ClientNo m;
          session = new_Session i;
          m = m\<lparr>ClientNo := i + 1\<rparr>
      in (case map_of (sessions m) i of
            Some old \<Rightarrow> (old, m)
          | None \<Rightarrow> (session, m\<lparr>sessions := sessions m @ [(i, session)]\<rparr>)))"

definition RemoveSession :: "i32 \<Rightarrow> SessionManager \<Rightarrow> SessionManager" where
  "RemoveSession i m = m\<lparr>sessions := AList.delete i (sessions m)\<rparr>"

definition FindSession :: "i32 \<Rightarrow> SessionManager \<Rightarrow> Session option" where
  "FindSession i m = map_of (sessions m) i"

definition Broadcast :: "byte list \<Rightarrow> i32 \<Rightarrow> SessionManager \<Rightarrow> SessionManager" where
  "Broadcast msg sz m = fold (\<lambda>pair m. m) (sessions m) m"

definition put_session :: "Session \<Rightarrow> SessionManager \<Rightarrow> SessionManager" where
  "put_session s m = m\<lparr>sessions := AList.update (sessionId s) s (sessions m)\<rparr>"

interpretation session_map: keyed_map sessionId "\<lambda>m i. FindSession i m" put_session "\<lambda>s. RemoveSession (sessionId s)"
  by unfold_locales
    (simp_all add: FindSession_def put_session_def RemoveSession_def update_conv' delete_conv')

interpretation session_ids: ticket_counter "\<lambda>m. (ClientNo m, snd (AddSession m))" ClientNo
  by unfold_locales (simp_all add: AddSession_def Let_def split: option.split)

lemma Broadcast_eq: "Broadcast msg sz m = m"
proof -
  have "fold (\<lambda>pair m. m) xs m = m" for xs :: "(i32 \<times> Session) list" by (induction xs) simp_all
  then show ?thesis by (simp add: Broadcast_def)
qed

lemma AddSession_fresh:
  "FindSession (ClientNo m) m = None \<Longrightarrow> AddSession m = (new_Session (ClientNo m),
     \<lparr>ClientNo = ClientNo m + 1, sessions = sessions m @ [(ClientNo m, new_Session (ClientNo m))]\<rparr>)"
  by (simp add: AddSession_def FindSession_def Let_def)

lemma AddSession_find:
  assumes "AddSession m = (s, m')"
  shows "FindSession (ClientNo m) m' = Some s"
    and "FindSession i m = Some t \<Longrightarrow> FindSession i m' = Some t"
proof -
  show "FindSession (ClientNo m) m' = Some s"
    using assms by (auto simp: AddSession_def FindSession_def map_add_def Let_def split: option.splits)
  show "FindSession i m' = Some t" if "FindSession i m = Some t"
    using assms that by (auto simp: AddSession_def FindSession_def map_add_def Let_def split: option.splits)
qed

section \<open>Properties\<close>

text \<open>
  The ids of the first \<open>2 ^ 32\<close> sessions differ, each session is found under its id right after
  it was added, and adding another one does not change what is found under the old ids.
\<close>

theorem session_ids_unique:
  assumes "n \<le> 4294967296" and "AddSession m = (s, m')"
  shows "distinct (fst (session_ids.tickets n m0)) \<and> FindSession (ClientNo m) m' = Some s
    \<and> (\<forall>i t. FindSession i m = Some t \<longrightarrow> FindSession i m' = Some t)"
  using session_ids.tickets_distinct [OF assms(1)] AddSession_find [OF assms(2)] by simp

theorem session_ids_unique_witness:
  "FindSession 0 (snd (AddSession new_SessionManager)) = Some (new_Session 0)"
  using session_ids_unique [of 2 new_SessionManager "new_Session 0" "snd (AddSession new_SessionManager)"]
  by (simp add: AddSession_def new_SessionManager_def Let_def)

text \<open>
  Should the counter have wrapped around to an id in use, the session of that id is returned
  again, not a new one.
\<close>

theorem add_session_after_wrap:
  assumes "FindSession (ClientNo m) m = Some old"
  shows "fst (AddSession m) = old \<and> sessions (snd (AddSession m)) = sessions m
    \<and> ClientNo (snd (AddSession m)) = ClientNo m + 1"
  using assms by (simp add: AddSession_def FindSession_def)

theorem add_session_after_wrap_witness:
  "fst (AddSession \<lparr>ClientNo = 7, sessions = [(7, (new_Session 7)\<lparr>s_socket := Some new_Socket\<rparr>)]\<rparr>)
     = (new_Session 7)\<lparr>s_socket := Some new_Socket\<rparr>"
  by (rule add_session_after_wrap [THEN conjunct1]) (simp add: FindSession_def)

end
