(* ===== verification/Server.thy ===== *)
theory Server
  imports SessionManager
begin

text \<open>
  The running server: \<^verbatim>\<open>main.cpp\<close>, \<^verbatim>\<open>Listener.cpp\<close>, the completion handlers of the sessions on
  the worker threads, and the flush thread of the room, as a step function on one state. A
  step is what a thread does between two points where another thread can come in: the accept
  handler, the completion of a read, one turn of the framing loop (which takes the room's lock
  once, to push a job), and the critical sections of \<^verbatim>\<open>Room::Flush\<close>. The network chooses
  the next step and the received bytes.

  \<open>reachable\<close> also collects the history that the theorems speak of: for every accepted
  connection, how many batches there were before it; the messages in the order in which their
  jobs were pushed; and the batches that the flush thread took.
\<close>

section \<open>State\<close>

datatype flush_pc = Waiting | Executing "Job list" | Sending "buf list" "(u32 \<times> Object) list"

record Server =
  room :: Room
  manager :: SessionManager
  nextId :: i32
  handlers :: handler_table
  flush_at :: flush_pc
  working :: "i32 list"

text \<open>\<^verbatim>\<open>main\<close> up to the start of the worker threads.\<close>

definition main_init :: Server where
  "main_init = \<lparr>room = Room_Init new_Room, manager = new_SessionManager, nextId = 0,
     handlers = PacketHandler_Init GPacketHandler, flush_at = Waiting, working = []\<rparr>"

datatype event =
    Accept | Accept_error | Recv i32 "byte list" | Recv_error i32 | Turn i32 | Flush_step

section \<open>Steps\<close>

text \<open>\<^verbatim>\<open>DoAccept\<close>: the handler of \<^verbatim>\<open>async_accept\<close> without an error.\<close>

definition DoAccept :: "Server \<Rightarrow> fault + Server" where
  "DoAccept \<sigma> =
     (let (session, m) = AddSession (manager \<sigma>)
      in (case Start new_Socket (nextId \<sigma>) (room \<sigma>) session of
            Inl e \<Rightarrow> Inl e
          | Inr (n, r, session) \<Rightarrow>
              Inr (\<sigma>\<lparr>manager := put_session session m, nextId := n, room := r\<rparr>)))"

text \<open>
  A read completes with at most as many bytes as it asked for; it reads nothing only if it
  asked for nothing, because the end of the stream is an error.
\<close>

definition read_completes :: "Session \<Rightarrow> byte list \<Rightarrow> bool" where
  "read_completes s data =
     (case s_socket s of
        None \<Rightarrow> False
      | Some k \<Rightarrow> (case reading k of
            None \<Rightarrow> False | Some n \<Rightarrow> is_open k \<and> length data \<le> n \<and> (data = [] \<longleftrightarrow> n = 0)))"

definition read_pending :: "Session \<Rightarrow> bool" where
  "read_pending s = (case s_socket s of None \<Rightarrow> False | Some k \<Rightarrow> reading k \<noteq> None)"

definition read_done :: "Session \<Rightarrow> Session" where
  "read_done s = (case s_socket s of None \<Rightarrow> s | Some k \<Rightarrow> s\<lparr>s_socket := Some (k\<lparr>reading := None\<rparr>)\<rparr>)"

text \<open>\<^verbatim>\<open>SetWritePos(length)\<close> and the test for 0 of \<^verbatim>\<open>ProcessRecv\<close>; the flag says whether the loop is entered.\<close>

definition begin_recv :: "byte list \<Rightarrow> Session \<Rightarrow> bool \<times> Session" where
  "begin_recv data s =
     (let s = read_done s;
          s = s\<lparr>recvBuffer := SetWritePos (of_nat (length data)) (store_bytes data (recvBuffer s))\<rparr>
      in if length data = 0 then (False, RegisterRecv (Close s)) else (True, s))"

text \<open>One critical section or one call of \<^verbatim>\<open>Send\<close> of the flush thread.\<close>

definition Flush_advance :: "Server \<Rightarrow> (fault + Server) option" where
  "Flush_advance \<sigma> =
     (case flush_at \<sigma> of
        Waiting \<Rightarrow>
          (case Flush_take (room \<sigma>) of
             None \<Rightarrow> None
           | Some (q, r) \<Rightarrow> Some (Inr (\<sigma>\<lparr>room := r, flush_at := Executing q\<rparr>)))
      | Executing (job # q) \<Rightarrow> Some (Inr (\<sigma>\<lparr>room := Execute job (room \<sigma>), flush_at := Executing q\<rparr>))
      | Executing [] \<Rightarrow>
          (let (msgs, snapshot, r) = Flush_snapshot (room \<sigma>)
           in Some (Inr (\<sigma>\<lparr>room := r, flush_at := Sending msgs snapshot\<rparr>)))
      | Sending msgs ((_, player) # snapshot) \<Rightarrow>
          (let \<sigma>' = \<sigma>\<lparr>flush_at := Sending msgs snapshot\<rparr>
           in (case GetSession (\<lambda>i. FindSession i (manager \<sigma>) \<noteq> None) player of
                 None \<Rightarrow> Some (Inr \<sigma>')
               | Some i \<Rightarrow>
                   (case FindSession i (manager \<sigma>) of
                      None \<Rightarrow> Some (Inr \<sigma>')
                    | Some s \<Rightarrow>
                        (case Send msgs s of
                           Inl e \<Rightarrow> Some (Inl e)
                         | Inr s \<Rightarrow> Some (Inr (\<sigma>'\<lparr>manager := put_session s (manager \<sigma>)\<rparr>))))))
      | Sending msgs [] \<Rightarrow> Some (Inr (\<sigma>\<lparr>flush_at := Waiting\<rparr>)))"

text \<open>\<open>None\<close>: the event cannot happen in this state.\<close>

definition step :: "event \<Rightarrow> Server \<Rightarrow> (fault + Server) option" where
  "step ev \<sigma> =
     (case ev of
        Accept \<Rightarrow> Some (DoAccept \<sigma>)
      | Accept_error \<Rightarrow> Some (Inr \<sigma>)
      | Recv i data \<Rightarrow>
          (case FindSession i (manager \<sigma>) of
             None \<Rightarrow> None
           | Some s \<Rightarrow>
               if \<not> read_completes s data then None
               else let (loop, s) = begin_recv data s
                    in Some (Inr (\<sigma>\<lparr>manager := put_session s (manager \<sigma>),
                                   working := if loop then i # working \<sigma> else working \<sigma>\<rparr>)))
      | Recv_error i \<Rightarrow>
          (case FindSession i (manager \<sigma>) of
             None \<Rightarrow> None
           | Some s \<Rightarrow>
               if \<not> read_pending s then None
               else Some (Inr (\<sigma>\<lparr>manager := put_session (Close (read_done s)) (manager \<sigma>)\<rparr>)))
      | Turn i \<Rightarrow>
          (case FindSession i (manager \<sigma>) of
             None \<Rightarrow> None
           | Some s \<Rightarrow>
               if i \<notin> set (working \<sigma>) then None
               else (case ProcessRecv_turn (handlers \<sigma>) s (room \<sigma>) of
                       Inl e \<Rightarrow> Some (Inl e)
                     | Inr (True, s, r) \<Rightarrow> Some (Inr (\<sigma>\<lparr>manager := put_session s (manager \<sigma>), room := r\<rparr>))
                     | Inr (False, s, r) \<Rightarrow>
                         Some (Inr (\<sigma>\<lparr>manager := put_session (RegisterRecv s) (manager \<sigma>), room := r,
                                     working := remove1 i (working \<sigma>)\<rparr>))))
      | Flush_step \<Rightarrow> Flush_advance \<sigma>)"

fun run :: "event list \<Rightarrow> Server \<Rightarrow> (fault + Server) option" where
  "run [] \<sigma> = Some (Inr \<sigma>)"
| "run (ev # evs) \<sigma> = (case step ev \<sigma> of Some (Inr \<sigma>') \<Rightarrow> run evs \<sigma>' | x \<Rightarrow> x)"

section \<open>Reachable states and their history\<close>

record history =
  joined :: "nat list"
  pushed :: "buf list"
  batches :: "buf list list"

definition no_history :: history where
  "no_history = \<lparr>joined = [], pushed = [], batches = []\<rparr>"

definition record_event :: "event \<Rightarrow> Server \<Rightarrow> Server \<Rightarrow> history \<Rightarrow> history" where
  "record_event ev \<sigma> \<sigma>' h =
     (case ev of
        Accept \<Rightarrow> h\<lparr>joined := joined h @ [length (batches h)]\<rparr>
      | Turn i \<Rightarrow> h\<lparr>pushed := pushed h @ payloads (drop (length (ETCQueue (room \<sigma>))) (ETCQueue (room \<sigma>')))\<rparr>
      | Flush_step \<Rightarrow> (case (flush_at \<sigma>, flush_at \<sigma>') of
            (Executing [], Sending msgs _) \<Rightarrow> h\<lparr>batches := batches h @ [msgs]\<rparr> | _ \<Rightarrow> h)
      | _ \<Rightarrow> h)"

text \<open>
  The ids are 32 bits wide, and the theorems are about the first \<open>2 ^ 32\<close> connections.
\<close>

inductive reachable :: "Server \<Rightarrow> history \<Rightarrow> bool" where
  reachable_init: "reachable main_init no_history"
| reachable_step: "reachable \<sigma> h \<Longrightarrow> step ev \<sigma> = Some (Inr \<sigma>') \<Longrightarrow> (ev = Accept \<longrightarrow> length (joined h) < 4294967296)
    \<Longrightarrow> reachable \<sigma>' (record_event ev \<sigma> \<sigma>' h)"

end
