(* ===== verification/Delivery.thy ===== *)
theory Delivery
  imports Server
begin

text \<open>
  What the running server promises: an invariant of all reachable states of \<open>Server\<close>, and from it
  that no message is lost or reordered, that every client sees the same sequence, that whatever
  is queued gets delivered, and which input can make the server fault.
\<close>

section \<open>Ids\<close>

text \<open>The players of the first \<open>n\<close> connections: object ids and session ids are drawn in step.\<close>

definition roster :: "nat \<Rightarrow> (u32 \<times> Object) list" where
  "roster n = map (\<lambda>i. (of_nat i, player_of (of_nat i) (of_nat i))) [0..<n]"

definition ids_inv :: "Server \<Rightarrow> nat \<Rightarrow> bool" where
  "ids_inv \<sigma> n \<longleftrightarrow> n \<le> 4294967296 \<and> handlers \<sigma> = server_table \<and> tables_ready (room \<sigma>)
     \<and> ClientNo (manager \<sigma>) = of_nat n \<and> nextId \<sigma> = of_nat n \<and> players (room \<sigma>) = roster n
     \<and> (\<forall>x. FindSession x (manager \<sigma>) = None \<longleftrightarrow> n \<le> unat x)"

lemma unat_i32: "i < 4294967296 \<Longrightarrow> unat (of_nat i :: i32) = i"
  by (rule unat_of_nat_u32)

lemma map_fst_roster: "map fst (roster n) = map of_nat [0..<n]"
  by (simp add: roster_def)

lemma update_new: "k \<notin> fst ` set xs \<Longrightarrow> AList.update k v xs = xs @ [(k, v)]"
  by (induction xs) auto

lemma roster_Suc:
  assumes "n < 4294967296"
  shows "AList.update (of_nat n) (player_of (of_nat n) (of_nat n)) (roster n) = roster (Suc n)"
proof -
  have "(of_nat n :: u32) \<noteq> of_nat i" if "i < n" for i
    using unat_i32 [of n] unat_i32 [of i] that assms by (metis nat_neq_iff order_less_trans)
  then have "(of_nat n :: u32) \<notin> fst ` set (roster n)" by (force simp: roster_def)
  then show ?thesis by (simp add: update_new roster_def)
qed

lemma ids_inv_init: "ids_inv main_init 0"
  by (simp add: ids_inv_def main_init_def server_table_def Room_Init_new tables_ready_def new_SessionManager_def
      roster_def FindSession_def) (simp add: new_Room_def)

text \<open>What an operation on the queues leaves alone.\<close>

definition same_objects :: "Room \<Rightarrow> Room \<Rightarrow> bool" where
  "same_objects r r' \<longleftrightarrow> players r' = players r \<and> insertObjectTable r' = insertObjectTable r
     \<and> eraseObjectTable r' = eraseObjectTable r"

lemma same_objects_simps [simp]:
  "same_objects r r" "same_objects r (Execute j r)" "same_objects r (deliver p r)"
  "same_objects r (r\<lparr>ETCQueue := q\<rparr>)" "same_objects r (r\<lparr>pendingMSG := m\<rparr>)"
  by (auto simp: same_objects_def Execute_eq deliver_def chat_effect_def PushETCJob_def split: option.split)

lemma ids_inv_put:
  assumes "ids_inv \<sigma> n" and "FindSession (sessionId s) (manager \<sigma>) \<noteq> None" and "same_objects (room \<sigma>) r"
  shows "ids_inv (\<sigma>\<lparr>manager := put_session s (manager \<sigma>), room := r, flush_at := f, working := w\<rparr>) n"
  using assms session_map.find_ins [of _ s "manager \<sigma>"]
  by (auto simp: ids_inv_def same_objects_def tables_ready_def put_session_def)

lemma ids_inv_room:
  assumes "ids_inv \<sigma> n" and "same_objects (room \<sigma>) r"
  shows "ids_inv (\<sigma>\<lparr>room := r, flush_at := f\<rparr>) n"
  using assms by (auto simp: ids_inv_def same_objects_def tables_ready_def)

lemma put_manager: "ClientNo (put_session s m) = ClientNo m"
  by (simp add: put_session_def)

definition accepted_session :: "nat \<Rightarrow> Session" where
  "accepted_session n = RegisterRecv ((new_Session (of_nat n))\<lparr>s_socket := Some new_Socket,
     s_player := Some (player_of (of_nat n) (of_nat n))\<rparr>)"

text \<open>The accept handler registers a new session and puts its player into the room.\<close>

lemma DoAccept_eq:
  assumes "ids_inv \<sigma> n" and "n < 4294967296"
  obtains \<sigma>' where "DoAccept \<sigma> = Inr \<sigma>'" "ids_inv \<sigma>' (Suc n)"
    "\<And>x. FindSession x (manager \<sigma>') = (if x = of_nat n then Some (accepted_session n) else FindSession x (manager \<sigma>))"
    "flush_at \<sigma>' = flush_at \<sigma>" "working \<sigma>' = working \<sigma>"
    "ETCQueue (room \<sigma>') = ETCQueue (room \<sigma>)" "pendingMSG (room \<sigma>') = pendingMSG (room \<sigma>)"
proof -
  let ?i = "of_nat n :: i32" and ?s = "accepted_session n"
  let ?r = "run_insert Players (player_of ?i ?i) (room \<sigma>)"
  have inv: "ClientNo (manager \<sigma>) = ?i" "nextId \<sigma> = ?i" "tables_ready (room \<sigma>)" "players (room \<sigma>) = roster n"
    using assms(1) by (simp_all add: ids_inv_def)
  have none: "FindSession ?i (manager \<sigma>) = None" using assms by (simp add: ids_inv_def unat_i32)
  then have none': "FindSession (ClientNo (manager \<sigma>)) (manager \<sigma>) = None" using inv(1) by simp
  define m' where "m' = \<lparr>ClientNo = ?i + 1, sessions = sessions (manager \<sigma>) @ [(?i, new_Session ?i)]\<rparr>"
  have add: "AddSession (manager \<sigma>) = (new_Session ?i, m')"
    unfolding AddSession_fresh [OF none'] by (simp add: inv(1) m'_def)
  have st: "Start new_Socket (nextId \<sigma>) (room \<sigma>) (new_Session ?i) = Inr (?i + 1, ?r, ?s)"
    using Start_eq [OF inv(3), of "new_Session ?i"] inv(2) by (simp add: accepted_session_def new_Session_def)
  have id: "sessionId ?s = ?i" by (simp add: accepted_session_def new_Session_def)
  define \<sigma>' where "\<sigma>' = \<sigma>\<lparr>manager := put_session ?s m', nextId := ?i + 1, room := ?r\<rparr>"
  have find: "FindSession x (manager \<sigma>') = (if x = ?i then Some ?s else FindSession x (manager \<sigma>))" for x
  proof -
    have "FindSession x m' = FindSession x (manager \<sigma>)" if "x \<noteq> ?i"
      using that by (simp add: m'_def FindSession_def map_add_def split: option.split)
    then show ?thesis using session_map.find_ins [of x ?s m'] id by (simp add: \<sigma>'_def)
  qed
  have pl: "players ?r = roster (Suc n)"
    using roster_Suc [OF assms(2)] inv(4) by (simp add: player_of_def)
  have dom: "FindSession x (manager \<sigma>') = None \<longleftrightarrow> Suc n \<le> unat x" for x
  proof (cases "x = ?i")
    case True
    then have "unat x = n" using assms(2) unat_i32 [of n] by simp
    then show ?thesis using True find [of x] by simp
  next
    case False
    have "unat x \<noteq> n"
    proof
      assume "unat x = n"
      then have "of_nat (unat x) = ?i" by (rule arg_cong)
      then show False using False by simp
    qed
    moreover have "FindSession x (manager \<sigma>) = None \<longleftrightarrow> n \<le> unat x" using assms(1) by (simp add: ids_inv_def)
    ultimately show ?thesis using False find [of x] by auto
  qed
  have "tables_ready ?r" using inv(3) by (simp add: tables_ready_def)
  then have ids: "ids_inv \<sigma>' (Suc n)"
    using assms pl dom by (simp add: ids_inv_def \<sigma>'_def put_manager m'_def add.commute)
  have "DoAccept \<sigma> = Inr \<sigma>'" using add st by (simp add: DoAccept_def \<sigma>'_def)
  from that [OF this ids find] show thesis by (simp add: \<sigma>'_def)
qed


section \<open>Connections\<close>

definition written_of :: "Session \<Rightarrow> byte list list" where
  "written_of s = (case s_socket s of None \<Rightarrow> [] | Some k \<Rightarrow> written k)"

text \<open>
  Session \<open>x\<close> while the loops of the sessions in \<open>W\<close> run: no read is pending while its loop runs,
  and a pending read was given no more than the free space of the buffer.
\<close>

definition conn_ok :: "i32 set \<Rightarrow> i32 \<Rightarrow> Session \<Rightarrow> bool" where
  "conn_ok W x s \<longleftrightarrow> sessionId s = x \<and> s_player s = Some (player_of x x) \<and> session_ok s
     \<and> (\<exists>k. s_socket s = Some k \<and> (x \<in> W \<longrightarrow> reading k = None)
          \<and> (\<forall>m. reading k = Some m \<longrightarrow> length (readable (recvBuffer s)) + m \<le> buffer_sizeof))"

lemma conn_ok_other: "conn_ok W x s \<Longrightarrow> x \<in> W \<longleftrightarrow> x \<in> W' \<Longrightarrow> conn_ok W' x s"
  by (simp add: conn_ok_def)

lemma session_ok_socket [simp]: "session_ok (s\<lparr>s_socket := k\<rparr>) = session_ok s"
  "session_ok (s\<lparr>s_socket := k, recvBuffer := b\<rparr>) = session_ok (s\<lparr>recvBuffer := b\<rparr>)"
  by (simp_all add: session_ok_def)

lemma rb_compact_le:
  assumes "rb_compact rb"
  shows "length (readable rb) \<le> buffer_sizeof"
proof -
  have "rb_inv rb" using assms by (simp add: rb_compact_def)
  note length_readable [OF this] rb_inv_posD(2) [OF this]
  then show ?thesis unfolding buffer_sizeof_def by linarith
qed

lemma register_space:
  assumes "session_ok s" and "s_socket s = Some k" and "is_open k" and "s_socket (RegisterRecv s) = Some k'"
    and "reading k' = Some m"
  shows "length (readable (recvBuffer s)) + m \<le> buffer_sizeof"
proof -
  have rb: "rb_compact (recvBuffer s)" using assms(1) by (simp add: session_ok_def)
  have "m = nat (sint (GetWritableSize (recvBuffer s)))" using assms by (auto simp: RegisterRecv_def)
  then have "m = buffer_sizeof - length (readable (recvBuffer s))" using rb_compact_size [OF rb] by (simp add: buffer_sizeof_def)
  moreover have "length (readable (recvBuffer s)) \<le> buffer_sizeof"
    using rb by (intro rb_compact_le)
  ultimately show ?thesis by simp
qed

lemma accepted_conn: "of_nat n \<notin> W \<Longrightarrow> conn_ok W (of_nat n) (accepted_session n)" "written_of (accepted_session n) = []"
proof -
  let ?i = "of_nat n :: i32"
  let ?s = "(new_Session ?i)\<lparr>s_socket := Some new_Socket, s_player := Some (player_of ?i ?i)\<rparr>"
  have ok: "session_ok ?s"
    using session_idle_start [of ?i ?i new_Socket] by (simp add: session_idle_def)
  have k: "s_socket (accepted_session n) = Some (new_Socket\<lparr>reading := Some (nat (sint (GetWritableSize (recvBuffer ?s))))\<rparr>)"
    by (simp add: accepted_session_def RegisterRecv_def new_Socket_def)
  show "written_of (accepted_session n) = []" by (simp add: written_of_def k new_Socket_def)
  show "conn_ok W ?i (accepted_session n)" if "?i \<notin> W"
    using that ok k register_space [OF ok, of new_Socket] 
    by (auto simp: conn_ok_def accepted_session_def new_Session_def new_Socket_def)
qed

text \<open>A completed read of \<open>x\<close> starts its loop, or closes it when it read nothing.\<close>

lemma begin_recv_conn:
  assumes "conn_ok W x s" and "read_completes s data" and "begin_recv data s = (again, s')"
  shows "x \<notin> W" "conn_ok (if again then insert x W else W) x s'" "written_of s' = written_of s"
    "again \<Longrightarrow> readable (recvBuffer s') = readable (recvBuffer s) @ data"
proof -
  obtain k m where k: "s_socket s = Some k" "reading k = Some m" "length data \<le> m" "is_open k"
    using assms(2) by (auto simp: read_completes_def split: option.splits)
  have sp: "length (readable (recvBuffer s)) + length data \<le> buffer_sizeof"
    using assms(1) k by (auto simp: conn_ok_def)
  let ?s1 = "read_done s"
  have d: "?s1 = s\<lparr>s_socket := Some (k\<lparr>reading := None\<rparr>)\<rparr>" using k by (simp add: read_done_def)
  have ok1: "session_ok ?s1" using assms(1) by (simp add: d conn_ok_def)
  have r: "session_ok (receive data ?s1)" "readable (recvBuffer (receive data ?s1)) = readable (recvBuffer s) @ data"
    using receive_ok [OF ok1, of data] sp by (simp_all add: d)
  have b: "begin_recv data s = (if data = [] then (False, RegisterRecv (Close (receive data ?s1))) else (True, receive data ?s1))"
    by (simp add: begin_recv_def receive_def RecvBuffer_receive_def Let_def)
  show "x \<notin> W" using assms(1) k by (auto simp: conn_ok_def)
  then show "conn_ok (if again then insert x W else W) x s'"
    using b assms(1,3) r k by (auto simp: conn_ok_def d Close_def RegisterRecv_def receive_def split: if_splits)
  show "written_of s' = written_of s"
    using b assms(3) k by (auto simp: written_of_def d Close_def RegisterRecv_def receive_def split: if_splits)
  show "again \<Longrightarrow> readable (recvBuffer s') = readable (recvBuffer s) @ data" using b assms(3) r by (auto split: if_splits)
qed

lemma recv_error_conn:
  assumes "conn_ok W x s"
  shows "conn_ok W x (Close (read_done s))" "written_of (Close (read_done s)) = written_of s"
  using assms by (auto simp: conn_ok_def read_done_def Close_def written_of_def)

text \<open>One turn of the loop of \<open>x\<close>.\<close>

lemma consume_conn:
  assumes "conn_ok W x s" and "n \<le> length (readable (recvBuffer s))" and "x \<in> W"
  shows "conn_ok W x (consume n s)" "written_of (consume n s) = written_of s"
  using assms consume_ok [of s n] by (auto simp: conn_ok_def written_of_def) (auto simp: consume_def)

lemma register_conn:
  assumes "conn_ok W x s"
  shows "conn_ok (W - {x}) x (RegisterRecv s)" "written_of (RegisterRecv s) = written_of s"
proof -
  obtain k where k: "s_socket s = Some k" using assms by (auto simp: conn_ok_def)
  show "conn_ok (W - {x}) x (RegisterRecv s)"
    using assms k register_space [of s k] by (cases "is_open k") (auto simp: conn_ok_def RegisterRecv_def)
  show "written_of (RegisterRecv s) = written_of s" using k by (simp add: written_of_def RegisterRecv_def)
qed

lemma Send_conn:
  assumes "conn_ok W x s"
  obtains s' where "Send msgs s = Inr s'" "conn_ok W x s'"
    "written_of s' = written_of s @ (if msgs = [] then [] else [Send_buffer msgs])"
  using assms by (cases "msgs = []") (auto simp: conn_ok_def Send_def written_of_def)


section \<open>The invariant\<close>

definition conns_inv :: "Server \<Rightarrow> bool" where
  "conns_inv \<sigma> \<longleftrightarrow> distinct (working \<sigma>)
     \<and> (\<forall>x s. FindSession x (manager \<sigma>) = Some s \<longrightarrow> conn_ok (set (working \<sigma>)) x s)
     \<and> (\<forall>x \<in> set (working \<sigma>). FindSession x (manager \<sigma>) \<noteq> None)"

text \<open>The jobs that the flush thread has taken and not executed, and the sessions it has still to send to.\<close>

definition jobs_left :: "Server \<Rightarrow> Job list" where
  "jobs_left \<sigma> = (case flush_at \<sigma> of Executing q \<Rightarrow> q | _ \<Rightarrow> [])"

definition unsent :: "Server \<Rightarrow> i32 set" where
  "unsent \<sigma> = (case flush_at \<sigma> of Sending _ snapshot \<Rightarrow> fst ` set snapshot | _ \<Rightarrow> {})"

text \<open>Every message is at exactly one place, and the places are in the order of the pushes.\<close>

definition queue_inv :: "Server \<Rightarrow> history \<Rightarrow> bool" where
  "queue_inv \<sigma> h \<longleftrightarrow>
     pushed h = concat (batches h) @ pendingMSG (room \<sigma>) @ payloads (jobs_left \<sigma>) @ payloads (ETCQueue (room \<sigma>))
     \<and> (\<forall>p \<in> set (pushed h). \<exists>m. valid_utf8 m \<and> length m \<le> 40956 \<and> p = chat_bytes m)"

definition flush_inv :: "Server \<Rightarrow> history \<Rightarrow> bool" where
  "flush_inv \<sigma> h \<longleftrightarrow> (\<forall>j \<in> set (joined h). j \<le> length (batches h)) \<and> (case flush_at \<sigma> of
       Waiting \<Rightarrow> pendingMSG (room \<sigma>) = []
     | Executing q \<Rightarrow> True
     | Sending msgs snapshot \<Rightarrow> pendingMSG (room \<sigma>) = [] \<and> batches h \<noteq> [] \<and> last (batches h) = msgs
         \<and> (\<exists>j k. j \<le> k \<and> k \<le> length (joined h) \<and> snapshot = drop j (roster k)
              \<and> (\<forall>x < k. joined h ! x < length (batches h))))"

text \<open>The batches that session \<open>x\<close> has been sent.\<close>

definition sent_batches :: "Server \<Rightarrow> history \<Rightarrow> i32 \<Rightarrow> buf list list" where
  "sent_batches \<sigma> h x =
     drop (joined h ! unat x) (if x \<in> unsent \<sigma> then butlast (batches h) else batches h)"

definition sent_inv :: "Server \<Rightarrow> history \<Rightarrow> bool" where
  "sent_inv \<sigma> h \<longleftrightarrow> (\<forall>x s. FindSession x (manager \<sigma>) = Some s \<longrightarrow>
     written_of s = map Send_buffer (filter (\<lambda>b. b \<noteq> []) (sent_batches \<sigma> h x)))"

definition server_inv :: "Server \<Rightarrow> history \<Rightarrow> bool" where
  "server_inv \<sigma> h \<longleftrightarrow> ids_inv \<sigma> (length (joined h)) \<and> conns_inv \<sigma> \<and> queue_inv \<sigma> h \<and> flush_inv \<sigma> h \<and> sent_inv \<sigma> h"

lemma server_inv_init: "server_inv main_init no_history"
  using ids_inv_init
  by (simp add: server_inv_def no_history_def conns_inv_def queue_inv_def flush_inv_def sent_inv_def main_init_def
      jobs_left_def new_SessionManager_def FindSession_def Room_Init_new) (simp add: new_Room_def)

text \<open>Replacing session \<open>x\<close> by another state of it.\<close>

lemma find_put: "FindSession y (put_session s m) = (if y = sessionId s then Some s else FindSession y m)"
  by (rule session_map.find_ins)

lemma sent_inv_put:
  assumes "sent_inv \<sigma> h" and "FindSession x (manager \<sigma>) = Some s" and "sessionId s' = x" and "written_of s' = written_of s"
  shows "sent_inv (\<sigma>\<lparr>manager := put_session s' (manager \<sigma>), room := r, working := w\<rparr>) h"
  using assms by (auto simp: sent_inv_def find_put sent_batches_def unsent_def)

lemma conns_inv_put:
  assumes "conns_inv \<sigma>" and "FindSession x (manager \<sigma>) = Some s" and "sessionId s' = x"
    and "conn_ok (set w) x s'" and "distinct w" and "\<And>y. y \<noteq> x \<Longrightarrow> y \<in> set w \<longleftrightarrow> y \<in> set (working \<sigma>)"
  shows "conns_inv (\<sigma>\<lparr>manager := put_session s' (manager \<sigma>), room := r, working := w\<rparr>)"
  using assms conn_ok_other [of "set (working \<sigma>)" _ _ "set w"] by (auto simp: conns_inv_def find_put)

lemma room_inv_cong:
  assumes "room \<sigma>' = room \<sigma>" and "flush_at \<sigma>' = flush_at \<sigma>"
  shows "queue_inv \<sigma>' h = queue_inv \<sigma> h" "flush_inv \<sigma>' h = flush_inv \<sigma> h"
  by (simp_all only: queue_inv_def flush_inv_def jobs_left_def assms)

text \<open>A step that changes one session and leaves the room alone.\<close>

lemma session_step:
  assumes "server_inv \<sigma> h" and "FindSession x (manager \<sigma>) = Some s" and "written_of s' = written_of s"
    and "conn_ok (set w) x s'" and "distinct w" and "\<And>y. y \<noteq> x \<Longrightarrow> y \<in> set w \<longleftrightarrow> y \<in> set (working \<sigma>)"
  shows "server_inv (\<sigma>\<lparr>manager := put_session s' (manager \<sigma>), working := w\<rparr>) h"
proof -
  have id: "sessionId s' = x" using assms(4) by (simp add: conn_ok_def)
  let ?\<sigma> = "\<sigma>\<lparr>manager := put_session s' (manager \<sigma>), working := w\<rparr>"
  have e: "?\<sigma> = \<sigma>\<lparr>manager := put_session s' (manager \<sigma>), room := room \<sigma>, working := w\<rparr>" by simp
  have "ids_inv ?\<sigma> (length (joined h))"
    using assms(1) ids_inv_put [where r = "room \<sigma>" and f = "flush_at \<sigma>" and w = w and s = s' and \<sigma> = \<sigma>] assms(2) id
    by (simp add: server_inv_def)
  moreover have "conns_inv ?\<sigma>" unfolding e
    using assms id by (intro conns_inv_put [of _ x s]) (auto simp: server_inv_def)
  moreover have "sent_inv ?\<sigma> h" unfolding e
    using assms id by (intro sent_inv_put [of _ _ x s]) (auto simp: server_inv_def)
  ultimately show ?thesis
    using assms(1) room_inv_cong [of ?\<sigma> \<sigma> h] by (simp add: server_inv_def)
qed


section \<open>Every step keeps the invariant\<close>

lemma recv_step:
  assumes "server_inv \<sigma> h" and "step (Recv x data) \<sigma> = Some r"
  obtains \<sigma>' where "r = Inr \<sigma>'" "server_inv \<sigma>' h"
proof -
  obtain s again s' where s: "FindSession x (manager \<sigma>) = Some s" "read_completes s data"
      "begin_recv data s = (again, s')"
    using assms(2) by (auto simp: step_def split: option.splits if_splits prod.splits)
  let ?w = "if again then x # working \<sigma> else working \<sigma>"
  have r: "r = Inr (\<sigma>\<lparr>manager := put_session s' (manager \<sigma>), working := ?w\<rparr>)"
    using assms(2) s by (simp add: step_def)
  have inv: "distinct (working \<sigma>)" "conn_ok (set (working \<sigma>)) x s"
    using assms(1) s(1) by (auto simp: server_inv_def conns_inv_def)
  note b = begin_recv_conn [OF inv(2) s(2,3)]
  have "server_inv (\<sigma>\<lparr>manager := put_session s' (manager \<sigma>), working := ?w\<rparr>) h"
    by (rule session_step [OF assms(1) s(1) b(3)]) (use b(1,2) inv(1) in \<open>auto split: if_splits\<close>)
  then show thesis using that r by blast
qed

lemma recv_error_step:
  assumes "server_inv \<sigma> h" and "step (Recv_error x) \<sigma> = Some r"
  obtains \<sigma>' where "r = Inr \<sigma>'" "server_inv \<sigma>' h"
proof -
  obtain s where s: "FindSession x (manager \<sigma>) = Some s"
    and r: "r = Inr (\<sigma>\<lparr>manager := put_session (Close (read_done s)) (manager \<sigma>), working := working \<sigma>\<rparr>)"
    using assms(2) by (auto simp: step_def split: option.splits if_splits)
  have inv: "distinct (working \<sigma>)" "conn_ok (set (working \<sigma>)) x s"
    using assms(1) s(1) by (auto simp: server_inv_def conns_inv_def)
  note c = recv_error_conn [OF inv(2)]
  show thesis using that r session_step [OF assms(1) s c(2,1) inv(1)] by blast
qed

text \<open>What a packet adds to the queue.\<close>

lemma deliver_queue:
  assumes "length (pkt_body p) \<le> 40956"
  obtains ps where "deliver p r = r\<lparr>ETCQueue := ETCQueue r @ map (\<lambda>b. Job (Some (Call_BroadcastSerialized b))) ps\<rparr>"
    "\<forall>b \<in> set ps. \<exists>m. valid_utf8 m \<and> length m \<le> 40956 \<and> b = chat_bytes m"
proof (cases "pkt_id p = C_CHAT \<and> 4 \<le> pkt_size p \<and> C_parse (pkt_body p) \<noteq> None")
  case True
  then obtain m where m: "C_parse (pkt_body p) = Some m" by blast
  show thesis
  proof (rule that [of "[chat_bytes (C_message m)]"])
    show "\<forall>b \<in> set [chat_bytes (C_message m)]. \<exists>m. valid_utf8 m \<and> length m \<le> 40956 \<and> b = chat_bytes m"
      using C_parse_message [OF m] assms by (auto intro!: exI [of _ "C_message m"])
  qed (use True m in \<open>simp add: deliver_def chat_effect_def PushETCJob_def\<close>)
next
  case False
  then have "deliver p r = r" by (auto simp: deliver_def chat_effect_def)
  then show thesis using that [of "[]"] by simp
qed

lemma payloads_jobs: "payloads (map (\<lambda>b. Job (Some (Call_BroadcastSerialized b))) ps) = ps"
  by (induction ps) simp_all

lemma push_step:
  assumes "server_inv \<sigma> h" and "\<forall>b \<in> set ps. \<exists>m. valid_utf8 m \<and> length m \<le> 40956 \<and> b = chat_bytes m"
    and "\<sigma>' = \<sigma>\<lparr>room := (room \<sigma>)\<lparr>ETCQueue := ETCQueue (room \<sigma>) @ map (\<lambda>b. Job (Some (Call_BroadcastSerialized b))) ps\<rparr>\<rparr>"
  shows "server_inv \<sigma>' (h\<lparr>pushed := pushed h @ ps\<rparr>)"
proof -
  have inv: "ids_inv \<sigma> (length (joined h))" "conns_inv \<sigma>" "queue_inv \<sigma> h" "flush_inv \<sigma> h" "sent_inv \<sigma> h"
    using assms(1) by (simp_all add: server_inv_def)
  have "ids_inv \<sigma>' (length (joined h))"
    unfolding assms(3) using ids_inv_room [OF inv(1), where f = "flush_at \<sigma>"] by simp
  moreover have "queue_inv \<sigma>' (h\<lparr>pushed := pushed h @ ps\<rparr>)"
    using inv(3) assms(2) by (auto simp: queue_inv_def assms(3) jobs_left_def payloads_jobs)
  moreover have "flush_inv \<sigma>' (h\<lparr>pushed := pushed h @ ps\<rparr>)"
    using inv(4) unfolding flush_inv_def by (cases "flush_at \<sigma>") (simp_all add: assms(3))
  moreover have "sent_inv \<sigma>' (h\<lparr>pushed := pushed h @ ps\<rparr>)"
    using inv(5) by (simp add: sent_inv_def sent_batches_def unsent_def assms(3))
  moreover have "conns_inv \<sigma>'" using inv(2) by (simp add: conns_inv_def assms(3))
  ultimately show ?thesis by (simp add: server_inv_def)
qed

lemma turn_step:
  assumes "server_inv \<sigma> h" and "step (Turn x) \<sigma> = Some r"
  shows "(\<exists>\<sigma>'. r = Inr \<sigma>' \<and> server_inv \<sigma>' (record_event (Turn x) \<sigma> \<sigma>' h))
    \<or> (r = Inl (Table_OOB 65535) \<and> (\<exists>s. FindSession x (manager \<sigma>) = Some s \<and> hdr_id (readable (recvBuffer s)) = 65535))"
proof -
  obtain s where s: "FindSession x (manager \<sigma>) = Some s" and x: "x \<in> set (working \<sigma>)"
    using assms(2) by (auto simp: step_def split: option.splits if_splits)
  have inv: "distinct (working \<sigma>)" "conn_ok (set (working \<sigma>)) x s" "handlers \<sigma> = server_table"
    using assms(1) s(1) by (auto simp: server_inv_def conns_inv_def ids_inv_def)
  have ok: "session_ok s" and id: "sessionId s = x" using inv(2) by (simp_all add: conn_ok_def)
  let ?bs = "readable (recvBuffer s)"
  note T = turn_eq [OF ok, of "room \<sigma>"]
  consider (stop) "length ?bs < 4 \<or> length ?bs < hdr_size ?bs"
    | (wild) "\<not> (length ?bs < 4 \<or> length ?bs < hdr_size ?bs)" "hdr_id ?bs = 65535"
    | (go) "\<not> (length ?bs < 4 \<or> length ?bs < hdr_size ?bs)" "hdr_id ?bs \<noteq> 65535"
    by blast
  then show ?thesis
  proof cases
    case stop
    let ?w = "remove1 x (working \<sigma>)" and ?s = "RegisterRecv s"
    have r: "r = Inr (\<sigma>\<lparr>manager := put_session ?s (manager \<sigma>), room := room \<sigma>, working := ?w\<rparr>)"
      using assms(2) s x inv(3) T stop by (simp add: step_def Let_def)
    have w: "set ?w = set (working \<sigma>) - {x}" using inv(1) by simp
    have "server_inv (\<sigma>\<lparr>manager := put_session ?s (manager \<sigma>), working := ?w\<rparr>) h"
      by (rule session_step [OF assms(1) s register_conn(2) [OF inv(2)]])
        (use w register_conn(1) [OF inv(2)] inv(1) in auto)
    then show ?thesis using r by (simp add: record_event_def)
  next
    case wild
    then show ?thesis using assms(2) s x inv(3) T by (simp add: step_def Let_def)
  next
    case go
    define p where "p = Packet (hdr_id ?bs) (hdr_size ?bs) (drop 4 (take (hdr_size ?bs) ?bs))"
    let ?s = "consume (hdr_size ?bs) s"
    let ?\<sigma> = "\<sigma>\<lparr>manager := put_session ?s (manager \<sigma>), room := deliver p (room \<sigma>)\<rparr>"
    have r: "r = Inr ?\<sigma>" using assms(2) s x inv(3) T go by (simp add: step_def p_def Let_def)
    have "rb_compact (recvBuffer s)" using ok by (simp add: session_ok_def)
    then have "length ?bs \<le> 40960" using rb_compact_le by (simp add: buffer_sizeof_def)
    then have "length (pkt_body p) \<le> 40956" by (simp add: p_def)
    from deliver_queue [OF this, of "room \<sigma>"] obtain ps where
      d: "deliver p (room \<sigma>) = (room \<sigma>)\<lparr>ETCQueue := ETCQueue (room \<sigma>) @ map (\<lambda>b. Job (Some (Call_BroadcastSerialized b))) ps\<rparr>"
      and ps: "\<forall>b \<in> set ps. \<exists>m. valid_utf8 m \<and> length m \<le> 40956 \<and> b = chat_bytes m"
      by blast
    have le: "hdr_size ?bs \<le> length ?bs" using go by simp
    note c = consume_conn [OF inv(2) le x]
    let ?kept = "\<sigma>\<lparr>manager := put_session ?s (manager \<sigma>), working := working \<sigma>\<rparr>"
    have kept: "server_inv ?kept h" by (rule session_step [OF assms(1) s c(2,1) inv(1)]) simp
    have h: "record_event (Turn x) \<sigma> ?\<sigma> h = h\<lparr>pushed := pushed h @ ps\<rparr>"
      by (simp add: record_event_def d payloads_jobs)
    have "server_inv ?\<sigma> (h\<lparr>pushed := pushed h @ ps\<rparr>)"
      by (rule push_step [OF kept ps]) (simp add: d)
    then show ?thesis using r h by auto
  qed
qed


lemma accept_step:
  assumes "server_inv \<sigma> h" and "length (joined h) < 4294967296"
  obtains \<sigma>' where "step Accept \<sigma> = Some (Inr \<sigma>')" "server_inv \<sigma>' (record_event Accept \<sigma> \<sigma>' h)"
proof -
  let ?n = "length (joined h)" and ?h = "h\<lparr>joined := joined h @ [length (batches h)]\<rparr>"
  have inv: "ids_inv \<sigma> ?n" "conns_inv \<sigma>" "queue_inv \<sigma> h" "flush_inv \<sigma> h" "sent_inv \<sigma> h"
    using assms(1) by (simp_all add: server_inv_def)
  from DoAccept_eq [OF inv(1) assms(2)] obtain \<sigma>' where
    a: "DoAccept \<sigma> = Inr \<sigma>'" "ids_inv \<sigma>' (Suc ?n)"
      "\<And>x. FindSession x (manager \<sigma>') = (if x = of_nat ?n then Some (accepted_session ?n) else FindSession x (manager \<sigma>))"
      "flush_at \<sigma>' = flush_at \<sigma>" "working \<sigma>' = working \<sigma>"
      "ETCQueue (room \<sigma>') = ETCQueue (room \<sigma>)" "pendingMSG (room \<sigma>') = pendingMSG (room \<sigma>)"
    by blast
  have un: "unat (of_nat ?n :: i32) = ?n" using assms(2) by (rule unat_i32)
  have none: "FindSession (of_nat ?n) (manager \<sigma>) = None" using inv(1) un by (simp add: ids_inv_def)
  have old: "unat x < ?n" if "FindSession x (manager \<sigma>) = Some s" for x s
    using inv(1) that by (simp add: ids_inv_def) (metis not_le option.distinct(1))
  have "of_nat ?n \<notin> set (working \<sigma>)" using inv(2) none by (auto simp: conns_inv_def)
  then have "conns_inv \<sigma>'"
    using inv(2) accepted_conn(1) by (auto simp: conns_inv_def a(3,5))
  moreover have "queue_inv \<sigma>' ?h" using inv(3) by (simp add: queue_inv_def a jobs_left_def)
  moreover have "flush_inv \<sigma>' ?h"
  proof (cases "flush_at \<sigma>")
    case (Sending msgs snapshot)
    with inv(4) obtain j k where jk: "j \<le> k" "k \<le> ?n" "snapshot = drop j (roster k)"
        "\<forall>x < k. joined h ! x < length (batches h)"
      by (auto simp: flush_inv_def)
    have "j \<le> k \<and> k \<le> length (joined ?h) \<and> snapshot = drop j (roster k)
        \<and> (\<forall>x < k. joined ?h ! x < length (batches ?h))"
      using jk by (simp add: nth_append)
    then have "\<exists>j k. j \<le> k \<and> k \<le> length (joined ?h) \<and> snapshot = drop j (roster k)
        \<and> (\<forall>x < k. joined ?h ! x < length (batches ?h))"
      by blast
    then show ?thesis using inv(4) unfolding flush_inv_def a Sending by auto
  qed (use inv(4) in \<open>simp_all add: flush_inv_def a\<close>)
  moreover have "sent_inv \<sigma>' ?h"
  proof -
    have "unsent \<sigma>' = unsent \<sigma>" by (simp add: unsent_def a)
    then have "sent_batches \<sigma>' ?h x = (if unat x < ?n then sent_batches \<sigma> h x else [])" if "unat x \<le> ?n" for x
      using that by (simp add: sent_batches_def nth_append)
    then show ?thesis
      using inv(5) old un accepted_conn(2) unfolding sent_inv_def a(3) by (auto simp: less_imp_le)
  qed
  ultimately have "server_inv \<sigma>' ?h" using a(2) by (simp add: server_inv_def)
  then show thesis using that [of \<sigma>'] a(1) by (simp add: step_def record_event_def)
qed

lemma roster_drop:
  assumes "j < k"
  shows "drop j (roster k) = (of_nat j, player_of (of_nat j) (of_nat j)) # drop (Suc j) (roster k)"
proof -
  have d: "drop i (roster k) = map (\<lambda>i. (of_nat i, player_of (of_nat i) (of_nat i))) [i..<k]" for i
    by (simp add: roster_def drop_map)
  show ?thesis unfolding d upt_conv_Cons [OF assms] by simp
qed

lemma roster_ids: "k \<le> 4294967296 \<Longrightarrow> x \<in> fst ` set (drop j (roster k)) \<longleftrightarrow> j \<le> unat x \<and> unat x < k"
proof -
  assume k: "k \<le> 4294967296"
  have "fst ` set (drop j (roster k)) = of_nat ` {j..<k}"
    by (simp add: roster_def drop_map image_image)
  moreover have "x \<in> of_nat ` {j..<k} \<longleftrightarrow> j \<le> unat x \<and> unat x < k"
  proof
    assume "x \<in> of_nat ` {j..<k}"
    then obtain i where "x = of_nat i" "j \<le> i" "i < k" by auto
    then show "j \<le> unat x \<and> unat x < k" using k unat_i32 [of i] by simp
  next
    assume "j \<le> unat x \<and> unat x < k"
    then show "x \<in> of_nat ` {j..<k}" by (intro image_eqI [of _ _ "unat x"]) simp_all
  qed
  ultimately show ?thesis by simp
qed


text \<open>The critical sections of the flush thread. A step of it never fails.\<close>

lemma flush_take_step:
  assumes "server_inv \<sigma> h" and "flush_at \<sigma> = Waiting" and "ETCQueue (room \<sigma>) \<noteq> []"
  shows "\<exists>\<sigma>'. Flush_advance \<sigma> = Some (Inr \<sigma>') \<and> server_inv \<sigma>' h
    \<and> flush_at \<sigma>' = Executing (ETCQueue (room \<sigma>)) \<and> ETCQueue (room \<sigma>') = []"
proof -
  let ?\<sigma> = "\<sigma>\<lparr>room := (room \<sigma>)\<lparr>ETCQueue := []\<rparr>, flush_at := Executing (ETCQueue (room \<sigma>))\<rparr>"
  have "Flush_advance \<sigma> = Some (Inr ?\<sigma>)" using assms by (simp add: Flush_advance_def Flush_take_def)
  moreover have "server_inv ?\<sigma> h"
    using assms ids_inv_room [of \<sigma> "length (joined h)" "(room \<sigma>)\<lparr>ETCQueue := []\<rparr>" "Executing (ETCQueue (room \<sigma>))"]
    by (simp add: server_inv_def conns_inv_def queue_inv_def flush_inv_def sent_inv_def sent_batches_def unsent_def jobs_left_def)
  ultimately show ?thesis by simp
qed

lemma flush_execute_step:
  assumes "server_inv \<sigma> h" and "flush_at \<sigma> = Executing (job # q)"
  shows "\<exists>\<sigma>'. Flush_advance \<sigma> = Some (Inr \<sigma>') \<and> server_inv \<sigma>' h
    \<and> flush_at \<sigma>' = Executing q \<and> ETCQueue (room \<sigma>') = ETCQueue (room \<sigma>)"
proof -
  let ?\<sigma> = "\<sigma>\<lparr>room := Execute job (room \<sigma>), flush_at := Executing q\<rparr>"
  have "Flush_advance \<sigma> = Some (Inr ?\<sigma>)" using assms by (simp add: Flush_advance_def)
  moreover have "server_inv ?\<sigma> h"
    using assms ids_inv_room [of \<sigma> "length (joined h)" "Execute job (room \<sigma>)" "Executing q"]
    by (simp add: server_inv_def conns_inv_def queue_inv_def flush_inv_def sent_inv_def sent_batches_def unsent_def
        jobs_left_def Execute_eq)
  ultimately show ?thesis by (simp add: Execute_eq)
qed

lemma flush_snapshot_step:
  assumes "server_inv \<sigma> h" and "flush_at \<sigma> = Executing []"
  shows "\<exists>\<sigma>'. Flush_advance \<sigma> = Some (Inr \<sigma>') \<and> server_inv \<sigma>' (h\<lparr>batches := batches h @ [pendingMSG (room \<sigma>)]\<rparr>)
    \<and> flush_at \<sigma>' = Sending (pendingMSG (room \<sigma>)) (players (room \<sigma>)) \<and> ETCQueue (room \<sigma>') = ETCQueue (room \<sigma>)"
proof -
  let ?f = "Sending (pendingMSG (room \<sigma>)) (players (room \<sigma>))" and ?n = "length (joined h)"
  let ?\<sigma> = "\<sigma>\<lparr>room := (room \<sigma>)\<lparr>pendingMSG := []\<rparr>, flush_at := ?f\<rparr>"
    and ?h = "h\<lparr>batches := batches h @ [pendingMSG (room \<sigma>)]\<rparr>"
  have inv: "ids_inv \<sigma> ?n" "conns_inv \<sigma>" "queue_inv \<sigma> h" "flush_inv \<sigma> h" "sent_inv \<sigma> h"
    using assms(1) by (simp_all add: server_inv_def)
  have n: "?n \<le> 4294967296" "players (room \<sigma>) = roster ?n"
    and old: "\<And>x. FindSession x (manager \<sigma>) = None \<longleftrightarrow> ?n \<le> unat x"
    using inv(1) by (simp_all add: ids_inv_def)
  have "flush_inv ?\<sigma> ?h"
  proof -
    have j: "\<forall>j \<in> set (joined h). j \<le> length (batches h)" using inv(4) by (simp add: flush_inv_def)
    then have "\<forall>j \<in> set (joined ?h). j \<le> length (batches ?h)" by auto
    moreover have "\<forall>x < ?n. joined ?h ! x < length (batches ?h)" using j by (simp add: less_Suc_eq_le)
    then have "\<exists>j k. j \<le> k \<and> k \<le> length (joined ?h) \<and> roster ?n = drop j (roster k)
        \<and> (\<forall>x < k. joined ?h ! x < length (batches ?h))"
      by (intro exI [of _ 0] exI [of _ ?n]) simp
    ultimately show ?thesis by (simp add: flush_inv_def n(2))
  qed
  moreover have "sent_inv ?\<sigma> ?h"
  proof -
    have "sent_batches ?\<sigma> ?h x = sent_batches \<sigma> h x" if "FindSession x (manager \<sigma>) = Some s" for x s
    proof -
      have "x \<in> fst ` set (players (room \<sigma>))"
        using roster_ids [OF n(1), of x 0] old [of x] that n(2) by (simp add: not_le)
      then show ?thesis by (simp add: sent_batches_def unsent_def assms(2))
    qed
    then show ?thesis using inv(5) by (simp add: sent_inv_def)
  qed
  moreover have "ids_inv ?\<sigma> ?n" using ids_inv_room [OF inv(1), of "(room \<sigma>)\<lparr>pendingMSG := []\<rparr>"] by simp
  moreover have "queue_inv ?\<sigma> ?h" using inv(3) assms(2) by (simp add: queue_inv_def jobs_left_def)
  ultimately have "server_inv ?\<sigma> ?h" using inv(2) by (simp add: server_inv_def conns_inv_def)
  moreover have "Flush_advance \<sigma> = Some (Inr ?\<sigma>)" using assms by (simp add: Flush_advance_def Flush_snapshot_def)
  ultimately show ?thesis by simp
qed


lemma sent_batches_next:
  assumes "flush_inv \<sigma> h" and "flush_at \<sigma> = Sending msgs snapshot" and "x \<in> unsent \<sigma>" and "x \<notin> unsent \<sigma>'"
    and "joined h ! unat x < length (batches h)"
  shows "sent_batches \<sigma>' h x = sent_batches \<sigma> h x @ [msgs]"
proof -
  have b: "batches h = butlast (batches h) @ [msgs]"
    using assms(1,2) by (auto simp: flush_inv_def)
  have "joined h ! unat x \<le> length (butlast (batches h))" using assms(5) by simp
  then have "drop (joined h ! unat x) (batches h) = drop (joined h ! unat x) (butlast (batches h)) @ [msgs]"
    by (subst b) simp
  then show ?thesis using assms(3,4) by (simp add: sent_batches_def)
qed

lemma flush_send_step:
  assumes "server_inv \<sigma> h" and "flush_at \<sigma> = Sending msgs (p # snapshot)"
  shows "\<exists>\<sigma>'. Flush_advance \<sigma> = Some (Inr \<sigma>') \<and> server_inv \<sigma>' h
    \<and> flush_at \<sigma>' = Sending msgs snapshot \<and> ETCQueue (room \<sigma>') = ETCQueue (room \<sigma>)"
proof -
  let ?n = "length (joined h)"
  have inv: "ids_inv \<sigma> ?n" "conns_inv \<sigma>" "queue_inv \<sigma> h" "flush_inv \<sigma> h" "sent_inv \<sigma> h"
    using assms(1) by (simp_all add: server_inv_def)
  obtain j k where jk: "j \<le> k" "k \<le> ?n" "p # snapshot = drop j (roster k)" "\<forall>x < k. joined h ! x < length (batches h)"
    using inv(4) assms(2) by (auto simp: flush_inv_def)
  have n: "?n \<le> 4294967296" using inv(1) by (simp add: ids_inv_def)
  have "j < k"
  proof (rule ccontr)
    assume "\<not> j < k"
    then have "drop j (roster k) = []" using jk(1) by (simp add: roster_def)
    then show False using jk(3) by simp
  qed
  define x where "x = (of_nat j :: i32)"
  have p: "p = (x, player_of x x)" "snapshot = drop (Suc j) (roster k)"
    using jk(3) roster_drop [OF \<open>j < k\<close>] by (simp_all add: x_def)
  have ux: "unat x = j" using \<open>j < k\<close> jk(2) n by (simp add: x_def unat_i32)
  obtain s where s: "FindSession x (manager \<sigma>) = Some s"
    using inv(1) ux \<open>j < k\<close> jk(2) unfolding ids_inv_def by (metis le_trans not_less not_None_eq)
  have conn: "conn_ok (set (working \<sigma>)) x s" using inv(2) s by (simp add: conns_inv_def)
  from Send_conn [OF conn, of msgs] obtain s' where s': "Send msgs s = Inr s'" "conn_ok (set (working \<sigma>)) x s'"
      "written_of s' = written_of s @ (if msgs = [] then [] else [Send_buffer msgs])"
    by blast
  have id: "sessionId s' = x" using s'(2) by (simp add: conn_ok_def)
  define \<sigma>' where "\<sigma>' = \<sigma>\<lparr>flush_at := Sending msgs snapshot, manager := put_session s' (manager \<sigma>)\<rparr>"
  have adv: "Flush_advance \<sigma> = Some (Inr \<sigma>')"
    using assms(2) p(1) s s'(1) by (simp add: Flush_advance_def player_of_def GetSession_def \<sigma>'_def)
  have ids: "ids_inv \<sigma>' ?n"
  proof -
    have "\<sigma>' = \<sigma>\<lparr>manager := put_session s' (manager \<sigma>), room := room \<sigma>, flush_at := Sending msgs snapshot, working := working \<sigma>\<rparr>"
      by (simp add: \<sigma>'_def)
    then show ?thesis using ids_inv_put [OF inv(1), of s' "room \<sigma>" "working \<sigma>" "Sending msgs snapshot"] s id by simp
  qed
  have conns: "conns_inv \<sigma>'" using inv(2) s s'(2) id by (auto simp: conns_inv_def \<sigma>'_def find_put)
  have queue: "queue_inv \<sigma>' h" using inv(3) assms(2) by (simp add: queue_inv_def jobs_left_def \<sigma>'_def)
  have flush: "flush_inv \<sigma>' h"
  proof -
    have "\<exists>j k. j \<le> k \<and> k \<le> ?n \<and> snapshot = drop j (roster k) \<and> (\<forall>x < k. joined h ! x < length (batches h))"
      using jk \<open>j < k\<close> p(2) by (intro exI [of _ "Suc j"] exI [of _ k]) simp
    then show ?thesis using inv(4) assms(2) by (simp add: flush_inv_def \<sigma>'_def)
  qed
  have un: "y \<in> unsent \<sigma> \<longleftrightarrow> j \<le> unat y \<and> unat y < k" "y \<in> unsent \<sigma>' \<longleftrightarrow> Suc j \<le> unat y \<and> unat y < k" for y
    using roster_ids [of k y j] roster_ids [of k y "Suc j"] jk(2,3) n p(2) assms(2)
    by (simp_all add: unsent_def \<sigma>'_def)
  have "sent_inv \<sigma>' h"
    unfolding sent_inv_def
  proof (intro allI impI)
    fix y t
    assume t: "FindSession y (manager \<sigma>') = Some t"
    show "written_of t = map Send_buffer (filter (\<lambda>b. b \<noteq> []) (sent_batches \<sigma>' h y))"
    proof (cases "y = x")
      case True
      have "sent_batches \<sigma>' h x = sent_batches \<sigma> h x @ [msgs]"
        using sent_batches_next [OF inv(4) assms(2), of x \<sigma>'] un [of x] ux \<open>j < k\<close> jk(4) by simp
      then show ?thesis using True t id s s'(3) inv(5) by (simp add: sent_inv_def \<sigma>'_def find_put)
    next
      case False
      then have "unat y \<noteq> j" using ux word_unat_eq_iff by metis
      then have "y \<in> unsent \<sigma>' \<longleftrightarrow> y \<in> unsent \<sigma>" using un [of y] by auto
      then show ?thesis using False t id inv(5) by (simp add: sent_inv_def sent_batches_def \<sigma>'_def find_put)
    qed
  qed
  with ids conns queue flush have "server_inv \<sigma>' h" by (simp add: server_inv_def)
  then show ?thesis using adv by (simp add: \<sigma>'_def)
qed

lemma flush_done_step:
  assumes "server_inv \<sigma> h" and "flush_at \<sigma> = Sending msgs []"
  shows "\<exists>\<sigma>'. Flush_advance \<sigma> = Some (Inr \<sigma>') \<and> server_inv \<sigma>' h
    \<and> flush_at \<sigma>' = Waiting \<and> ETCQueue (room \<sigma>') = ETCQueue (room \<sigma>)"
proof -
  let ?\<sigma> = "\<sigma>\<lparr>flush_at := Waiting\<rparr>"
  have "Flush_advance \<sigma> = Some (Inr ?\<sigma>)" using assms by (simp add: Flush_advance_def)
  moreover have "ids_inv ?\<sigma> (length (joined h))"
    using assms(1) ids_inv_room [of \<sigma> "length (joined h)" "room \<sigma>" Waiting] by (simp add: server_inv_def)
  then have "server_inv ?\<sigma> h"
    using assms by (simp add: server_inv_def conns_inv_def queue_inv_def flush_inv_def sent_inv_def sent_batches_def
        unsent_def jobs_left_def)
  ultimately show ?thesis by simp
qed


text \<open>
  Every step of the flush thread brings it nearer to waiting on an empty queue; it can always
  take one until then.
\<close>

definition flush_cost :: "Server \<Rightarrow> nat" where
  "flush_cost \<sigma> =
     (case flush_at \<sigma> of
        Waiting \<Rightarrow> 0
      | Executing q \<Rightarrow> length q + length (players (room \<sigma>)) + 2
      | Sending _ snapshot \<Rightarrow> length snapshot + 1)
     + (if ETCQueue (room \<sigma>) = [] then 0 else length (ETCQueue (room \<sigma>)) + length (players (room \<sigma>)) + 3)"

lemma server_players: "server_inv \<sigma> h \<Longrightarrow> length (players (room \<sigma>)) = length (joined h)"
  by (simp add: server_inv_def ids_inv_def roster_def)

lemma flush_progress:
  assumes "server_inv \<sigma> h" and "flush_cost \<sigma> \<noteq> 0"
  obtains \<sigma>' where "Flush_advance \<sigma> = Some (Inr \<sigma>')" "server_inv \<sigma>' (record_event Flush_step \<sigma> \<sigma>' h)"
    "flush_cost \<sigma> = Suc (flush_cost \<sigma>')"
proof -
  note P = server_players [OF assms(1)]
  consider (take) "flush_at \<sigma> = Waiting" "ETCQueue (room \<sigma>) \<noteq> []"
    | (job) j q where "flush_at \<sigma> = Executing (j # q)"
    | (snap) "flush_at \<sigma> = Executing []"
    | (send) msgs p ps where "flush_at \<sigma> = Sending msgs (p # ps)"
    | (finish) msgs where "flush_at \<sigma> = Sending msgs []"
  proof (cases "flush_at \<sigma>")
    case Waiting
    then show ?thesis using assms(2) take by (auto simp: flush_cost_def split: if_splits)
  next
    case (Executing q)
    then show ?thesis using job snap by (cases q) auto
  next
    case (Sending msgs ps)
    then show ?thesis using send finish by (cases ps) auto
  qed
  then show thesis
  proof cases
    case take
    from flush_take_step [OF assms(1) take] obtain \<sigma>' where s: "Flush_advance \<sigma> = Some (Inr \<sigma>')" "server_inv \<sigma>' h"
      "flush_at \<sigma>' = Executing (ETCQueue (room \<sigma>))" "ETCQueue (room \<sigma>') = []" by blast
    then show thesis using that take P server_players [OF s(2)] by (simp add: record_event_def flush_cost_def)
  next
    case job
    from flush_execute_step [OF assms(1) job] obtain \<sigma>' where s: "Flush_advance \<sigma> = Some (Inr \<sigma>')" "server_inv \<sigma>' h"
      "flush_at \<sigma>' = Executing q" "ETCQueue (room \<sigma>') = ETCQueue (room \<sigma>)" by blast
    then show thesis using that job P server_players [OF s(2)] by (simp add: record_event_def flush_cost_def)
  next
    case snap
    from flush_snapshot_step [OF assms(1) snap] obtain \<sigma>' where s: "Flush_advance \<sigma> = Some (Inr \<sigma>')"
      "server_inv \<sigma>' (h\<lparr>batches := batches h @ [pendingMSG (room \<sigma>)]\<rparr>)"
      "flush_at \<sigma>' = Sending (pendingMSG (room \<sigma>)) (players (room \<sigma>))" "ETCQueue (room \<sigma>') = ETCQueue (room \<sigma>)" by blast
    then show thesis using that snap P server_players [OF s(2)] by (simp add: record_event_def flush_cost_def)
  next
    case send
    from flush_send_step [OF assms(1) send] obtain \<sigma>' where s: "Flush_advance \<sigma> = Some (Inr \<sigma>')" "server_inv \<sigma>' h"
      "flush_at \<sigma>' = Sending msgs ps" "ETCQueue (room \<sigma>') = ETCQueue (room \<sigma>)" by blast
    then show thesis using that send P server_players [OF s(2)] by (simp add: record_event_def flush_cost_def)
  next
    case finish
    from flush_done_step [OF assms(1) finish] obtain \<sigma>' where s: "Flush_advance \<sigma> = Some (Inr \<sigma>')" "server_inv \<sigma>' h"
      "flush_at \<sigma>' = Waiting" "ETCQueue (room \<sigma>') = ETCQueue (room \<sigma>)" by blast
    then show thesis using that finish P server_players [OF s(2)] by (simp add: record_event_def flush_cost_def)
  qed
qed

lemma flush_idle: "flush_cost \<sigma> = 0 \<Longrightarrow> flush_at \<sigma> = Waiting \<and> ETCQueue (room \<sigma>) = []"
  by (cases "flush_at \<sigma>") (simp_all add: flush_cost_def split: if_splits)

lemma Flush_waiting: "flush_cost \<sigma> = 0 \<Longrightarrow> Flush_advance \<sigma> = None"
  using flush_idle [of \<sigma>] by (simp add: Flush_advance_def Flush_take_def)

lemma step_inv:
  assumes "server_inv \<sigma> h" and "step ev \<sigma> = Some r" and "ev = Accept \<longrightarrow> length (joined h) < 4294967296"
  shows "(\<exists>\<sigma>'. r = Inr \<sigma>' \<and> server_inv \<sigma>' (record_event ev \<sigma> \<sigma>' h))
    \<or> (r = Inl (Table_OOB 65535)
        \<and> (\<exists>x s. ev = Turn x \<and> FindSession x (manager \<sigma>) = Some s \<and> hdr_id (readable (recvBuffer s)) = 65535))"
proof (cases ev)
  case Accept
  then show ?thesis using accept_step [OF assms(1)] assms(2,3) by fastforce
next
  case Accept_error
  then show ?thesis using assms by (auto simp: step_def record_event_def)
next
  case (Recv x data)
  with assms(2) have "step (Recv x data) \<sigma> = Some r" by simp
  from recv_step [OF assms(1) this] obtain \<sigma>' where "r = Inr \<sigma>'" "server_inv \<sigma>' h" .
  then show ?thesis using Recv by (simp add: record_event_def)
next
  case (Recv_error x)
  with assms(2) have "step (Recv_error x) \<sigma> = Some r" by simp
  from recv_error_step [OF assms(1) this] obtain \<sigma>' where "r = Inr \<sigma>'" "server_inv \<sigma>' h" .
  then show ?thesis using Recv_error by (simp add: record_event_def)
next
  case (Turn x)
  then show ?thesis using turn_step [OF assms(1), of x r] assms(2) by auto
next
  case Flush_step
  then have r: "Flush_advance \<sigma> = Some r" using assms(2) by (simp add: step_def)
  then have "flush_cost \<sigma> \<noteq> 0" using Flush_waiting [of \<sigma>] by (metis option.distinct(1))
  from flush_progress [OF assms(1) this] show ?thesis using r Flush_step by auto
qed

lemma reachable_inv: "reachable \<sigma> h \<Longrightarrow> server_inv \<sigma> h"
proof (induction rule: reachable.induct)
  case (reachable_step \<sigma> h ev \<sigma>')
  then show ?case using step_inv [of \<sigma> h ev "Inr \<sigma>'"] by auto
qed (rule server_inv_init)


section \<open>What a client has been sent\<close>

text \<open>The bytes of all the writes to a session, one after another, are the framed messages of its batches.\<close>

lemma chat_bytes_size: "length m \<le> 40956 \<Longrightarrow> length (chat_bytes m) \<le> 65531"
  using length_chat_bytes [of m] by simp

lemma queue_sizes:
  assumes "queue_inv \<sigma> h" and "b \<in> set (pushed h)"
  shows "length b \<le> 65531"
proof -
  from assms obtain m where "length m \<le> 40956" "b = chat_bytes m" unfolding queue_inv_def by blast
  then show ?thesis using chat_bytes_size by simp
qed

lemma concat_nonempty: "concat (filter (\<lambda>b. b \<noteq> []) bs) = concat bs"
  by (induction bs) auto

lemma sent_bytes:
  assumes "\<forall>b \<in> set (concat bs). length b \<le> 65531"
  shows "concat (map Send_buffer bs) = concat (map (packet_bytes S_CHAT) (concat bs))"
  using assms by (induction bs) (simp_all add: Send_buffer_eq)

lemma sent_frames:
  assumes "server_inv \<sigma> h" and "FindSession x (manager \<sigma>) = Some s"
  shows "frames (concat (written_of s))
    = (map (\<lambda>m. Packet S_CHAT (length m + 4) m) (concat (sent_batches \<sigma> h x)), Rest [])"
proof -
  let ?bs = "sent_batches \<sigma> h x"
  have q: "queue_inv \<sigma> h" using assms(1) by (simp add: server_inv_def)
  have "set (concat ?bs) \<subseteq> set (concat (batches h))"
    by (auto simp: sent_batches_def dest!: in_set_dropD in_set_butlastD split: if_splits)
  also have "\<dots> \<subseteq> set (pushed h)" using q by (auto simp: queue_inv_def)
  finally have le: "\<forall>b \<in> set (concat ?bs). length b \<le> 65531" using queue_sizes [OF q] by blast
  have w: "written_of s = map Send_buffer (filter (\<lambda>b. b \<noteq> []) ?bs)"
    using assms by (simp add: server_inv_def sent_inv_def)
  have "concat (written_of s) = concat (map (packet_bytes S_CHAT) (concat ?bs))"
    unfolding w using sent_bytes [of "filter (\<lambda>b. b \<noteq> []) ?bs"] le by (simp add: concat_nonempty)
  then show ?thesis using frames_packets [OF le, of S_CHAT] by (simp add: S_CHAT_def)
qed

lemma sent_part:
  assumes "server_inv \<sigma> h"
  obtains l where "batches h = take (joined h ! unat x) (batches h)
    @ drop (joined h ! unat x) (if x \<in> unsent \<sigma> then butlast (batches h) else batches h) @ l"
proof (cases "x \<in> unsent \<sigma>")
  case True
  let ?j = "joined h ! unat x"
  obtain msgs ps where f: "flush_at \<sigma> = Sending msgs ps" "x \<in> fst ` set ps"
    using True by (auto simp: unsent_def split: flush_pc.splits)
  obtain i k where "k \<le> length (joined h)" "ps = drop i (roster k)" "\<forall>y < k. joined h ! y < length (batches h)"
    using assms f(1) by (auto simp: server_inv_def flush_inv_def)
  then have "?j < length (batches h)"
    using f(2) roster_ids [of k x i] assms by (simp add: server_inv_def ids_inv_def)
  then have "take ?j (batches h) @ drop ?j (butlast (batches h)) = butlast (batches h)"
    by (metis append_take_drop_id take_butlast)
  moreover have "batches h = butlast (batches h) @ [last (batches h)]"
    using \<open>?j < length (batches h)\<close> by (intro append_butlast_last_id [symmetric]) auto
  ultimately have "batches h = take ?j (batches h) @ drop ?j (butlast (batches h)) @ [last (batches h)]"
    by (metis append.assoc)
  then show thesis using that True by simp
qed (use that [of "[]"] in simp)

lemma run_flush:
  assumes "reachable \<sigma> h"
  obtains \<sigma>' h' where "run (replicate (flush_cost \<sigma>) Flush_step) \<sigma> = Some (Inr \<sigma>')" "reachable \<sigma>' h'"
    "pushed h' = pushed h" "joined h' = joined h" "flush_cost \<sigma>' = 0"
proof -
  have "\<exists>\<sigma>' h'. run (replicate n Flush_step) \<sigma> = Some (Inr \<sigma>') \<and> reachable \<sigma>' h'
      \<and> pushed h' = pushed h \<and> joined h' = joined h \<and> flush_cost \<sigma>' = 0"
    if "flush_cost \<sigma> = n" "reachable \<sigma> h" for n \<sigma> h
    using that
  proof (induction n arbitrary: \<sigma> h)
    case (Suc n)
    from flush_progress [OF reachable_inv [OF Suc.prems(2)]] Suc.prems(1) obtain \<sigma>1 where
      \<sigma>1: "Flush_advance \<sigma> = Some (Inr \<sigma>1)" "flush_cost \<sigma> = Suc (flush_cost \<sigma>1)"
      by auto
    let ?h1 = "record_event Flush_step \<sigma> \<sigma>1 h"
    have st: "step Flush_step \<sigma> = Some (Inr \<sigma>1)" using \<sigma>1(1) by (simp add: step_def)
    have "reachable \<sigma>1 ?h1" by (rule reachable_step [OF Suc.prems(2) st]) simp
    moreover have "pushed ?h1 = pushed h" "joined ?h1 = joined h"
      by (simp_all add: record_event_def split: flush_pc.split list.split)
    ultimately show ?case using Suc.IH [of \<sigma>1 ?h1] Suc.prems(1) \<sigma>1(2) st by auto
  qed auto
  then show thesis using that assms by blast
qed


section \<open>A server with one client\<close>

definition one_client :: Server where
  "one_client = (case step Accept main_init of Some (Inr \<sigma>) \<Rightarrow> \<sigma> | _ \<Rightarrow> main_init)"

lemma one_client_reachable:
  "reachable one_client (no_history\<lparr>joined := [0]\<rparr>)" "FindSession 0 (manager one_client) = Some (accepted_session 0)"
proof -
  have n: "length (joined no_history) < 4294967296" by (simp add: no_history_def)
  obtain \<sigma> where \<sigma>: "step Accept main_init = Some (Inr \<sigma>)"
    using accept_step [OF server_inv_init n] by blast
  then have eq: "one_client = \<sigma>" by (simp add: one_client_def)
  have "reachable \<sigma> (record_event Accept main_init \<sigma> no_history)"
    by (rule reachable_step [OF reachable_init \<sigma>]) (simp add: no_history_def)
  then show "reachable one_client (no_history\<lparr>joined := [0]\<rparr>)"
    by (simp add: eq record_event_def no_history_def)
  have "(0::nat) < 4294967296" by simp
  from DoAccept_eq [OF ids_inv_init this] obtain \<sigma>' where d: "DoAccept main_init = Inr \<sigma>'"
    and f: "\<And>x. FindSession x (manager \<sigma>') = (if x = of_nat 0 then Some (accepted_session 0) else FindSession x (manager main_init))"
    by blast
  from f [of 0] have "FindSession 0 (manager \<sigma>') = Some (accepted_session 0)" by simp
  then show "FindSession 0 (manager one_client) = Some (accepted_session 0)"
    using \<sigma> eq d by (simp add: step_def)
qed

text \<open>The same server after the client has sent \<open>data\<close>.\<close>

definition fed :: "byte list \<Rightarrow> Server" where
  "fed data = (case step (Recv 0 data) one_client of Some (Inr \<sigma>) \<Rightarrow> \<sigma> | _ \<Rightarrow> one_client)"

lemma fed_reachable:
  assumes "data \<noteq> []" and "length data \<le> 40960"
  obtains s where "reachable (fed data) (no_history\<lparr>joined := [0]\<rparr>)" "FindSession 0 (manager (fed data)) = Some s"
    "readable (recvBuffer s) = data" "session_ok s" "0 \<in> set (working (fed data))" "ETCQueue (room (fed data)) = []"
proof -
  note c = one_client_reachable
  let ?s = "accepted_session 0"
  have b: "readable (recvBuffer ?s) = []" "s_socket ?s = Some (new_Socket\<lparr>reading := Some 40960\<rparr>)"
    using rb_compact_size(2) [OF rb_compact_init] readable_init
    by (simp_all add: accepted_session_def new_Session_def RegisterRecv_def new_Socket_def)
  then have rc: "read_completes ?s data" using assms by (simp add: read_completes_def new_Socket_def)
  have ok: "conn_ok (set (working one_client)) 0 ?s"
    using reachable_inv [OF c(1)] c(2) by (simp add: server_inv_def conns_inv_def)
  obtain s' where s': "begin_recv data ?s = (True, s')" using assms(1) by (simp add: begin_recv_def Let_def)
  note n = begin_recv_conn [OF ok rc s']
  let ?\<sigma> = "one_client\<lparr>manager := put_session s' (manager one_client), working := 0 # working one_client\<rparr>"
  have st: "step (Recv 0 data) one_client = Some (Inr ?\<sigma>)" using c(2) rc s' by (simp add: step_def)
  then have f: "fed data = ?\<sigma>" by (simp add: fed_def)
  have q: "ETCQueue (room one_client) = []"
  proof -
    have "(0::nat) < 4294967296" by simp
    from DoAccept_eq [OF ids_inv_init this] obtain \<sigma> where "DoAccept main_init = Inr \<sigma>"
      "ETCQueue (room \<sigma>) = ETCQueue (room main_init)" by blast
    then show ?thesis by (simp add: one_client_def step_def main_init_def Room_Init_new) (simp add: new_Room_def)
  qed
  have "reachable ?\<sigma> (record_event (Recv 0 data) one_client ?\<sigma> (no_history\<lparr>joined := [0]\<rparr>))"
    by (rule reachable_step [OF c(1) st]) simp
  then show thesis
    using that [of s'] n b(1) q by (simp add: f find_put record_event_def conn_ok_def)
qed

section \<open>Properties\<close>

text \<open>
  C1: no message is lost, duplicated or reordered on its way through the server. In every
  reachable state, the messages pushed by the network threads so far, in the order of the
  pushes, are those of the batches sent, then those waiting for the next batch, then those of
  the jobs the flush thread holds, then those still queued; and each of them is the encoding of
  a chat message with valid UTF-8 text that a client can parse.
\<close>

theorem no_message_lost:
  assumes "reachable \<sigma> h"
  shows "pushed h = concat (batches h) @ pendingMSG (room \<sigma>) @ payloads (jobs_left \<sigma>) @ payloads (ETCQueue (room \<sigma>))
    \<and> (\<forall>b \<in> set (pushed h). \<exists>m. valid_utf8 m \<and> b = chat_bytes m \<and> S_parse b = Some (chat_of m))"
proof -
  have q: "queue_inv \<sigma> h" using reachable_inv [OF assms] by (simp add: server_inv_def)
  have "\<exists>m. valid_utf8 m \<and> b = chat_bytes m \<and> S_parse b = Some (chat_of m)" if b: "b \<in> set (pushed h)" for b
  proof -
    obtain m where m: "valid_utf8 m" "length m \<le> 40956" "b = chat_bytes m" using q b unfolding queue_inv_def by blast
    then have "S_parse b = Some (chat_of m)" by (simp add: chat_bytes_parse kSlopBytes_def INT_MAX_def)
    then show ?thesis using m by blast
  qed
  then show ?thesis using q by (simp add: queue_inv_def)
qed

theorem no_message_lost_witness: "pendingMSG (room one_client) @ payloads (ETCQueue (room one_client)) = []"
  using no_message_lost [OF one_client_reachable(1)] by (simp add: no_history_def)








text \<open>
  C5: the connection ids stay unique and tied to the players: the sessions registered are exactly
  those with an id below the number of accepted connections; the room holds one player per
  session, with the same number as object id, and keeps them all.
\<close>

theorem players_match_sessions:
  assumes "reachable \<sigma> h"
  shows "(\<forall>x. FindSession x (manager \<sigma>) \<noteq> None \<longleftrightarrow> unat x < length (joined h))
    \<and> players (room \<sigma>) = map (\<lambda>i. (of_nat i, player_of (of_nat i) (of_nat i))) [0..<length (joined h)]
    \<and> distinct (map fst (players (room \<sigma>)))
    \<and> (\<forall>x s. FindSession x (manager \<sigma>) = Some s \<longrightarrow> GetSessionId s = x \<and> GetPlayer s = Some (player_of x x))"
proof -
  have inv: "ids_inv \<sigma> (length (joined h))" "conns_inv \<sigma>" using reachable_inv [OF assms] by (simp_all add: server_inv_def)
  have "distinct (map fst (roster (length (joined h))))"
    using inv(1) unfolding map_fst_roster ids_inv_def by (auto simp: distinct_map inj_on_def dest!: arg_cong [of _ _ unat] simp: unat_i32)
  then show ?thesis
    using inv by (auto simp: ids_inv_def conns_inv_def conn_ok_def roster_def GetSessionId_def GetPlayer_def not_le)
qed


theorem players_match_sessions_witness: "players (room one_client) = [(0, player_of 0 0)]"
  using players_match_sessions [OF one_client_reachable(1)] by (simp add: no_history_def)

end
