(* ===== verification/DummyClient.thy ===== *)
theory DummyClient
  imports Session "HOL-Library.Char_ord"
begin

text \<open>
  The load client \<^verbatim>\<open>Server/TopViewDummyCLient/main.cpp\<close>: it reads the number of clients from its
  first argument, connects that many sockets and sends, round after round, one numbered
  \<^verbatim>\<open>C_Chat\<close> packet per open socket out of one buffer that it reuses. Whether a connection succeeds
  and whether it is still open when its turn comes are inputs; received bytes are thrown away.
\<close>

section \<open>Numbers as text\<close>

definition ascii :: "string \<Rightarrow> byte list" where
  "ascii s = map of_char s"

text \<open>\<^verbatim>\<open>std::to_string\<close> of a number that is not negative.\<close>

fun to_string :: "nat \<Rightarrow> byte list" where
  "to_string n = (if n < 10 then [of_nat (48 + n)] else to_string (n div 10) @ [of_nat (48 + n mod 10)])"

declare to_string.simps [simp del]

definition is_space :: "byte \<Rightarrow> bool" where
  "is_space c \<longleftrightarrow> c = 32 \<or> (9 \<le> unat c \<and> unat c \<le> 13)"

definition is_digit :: "byte \<Rightarrow> bool" where
  "is_digit c \<longleftrightarrow> 48 \<le> unat c \<and> unat c \<le> 57"

definition digits_val :: "byte list \<Rightarrow> nat" where
  "digits_val ds = foldl (\<lambda>v c. 10 * v + (unat c - 48)) 0 ds"

text \<open>\<^verbatim>\<open>std::stoi\<close>; \<open>None\<close> stands for the exceptions that it throws.\<close>

definition stoi :: "byte list \<Rightarrow> int option" where
  "stoi s =
     (let t = dropWhile is_space s;
          neg = (t \<noteq> [] \<and> hd t = 45);
          t = (if t \<noteq> [] \<and> (hd t = 45 \<or> hd t = 43) then tl t else t);
          ds = takeWhile is_digit t;
          v = (if neg then - int (digits_val ds) else int (digits_val ds))
      in if ds = [] then None else if v < - 2147483648 \<or> 2147483647 < v then None else Some v)"

text \<open>\<open>argv\<close> without the name of the program.\<close>

definition client_count :: "byte list list \<Rightarrow> int" where
  "client_count argv = (case argv of [] \<Rightarrow> 1000 | arg # _ \<Rightarrow> (case stoi arg of Some n \<Rightarrow> n | None \<Rightarrow> 10))"

section \<open>State and operations\<close>

record Client =
  sock_open :: "bool list"
  seqs :: "u64 list"
  chat :: C_Chat
  sendBuffer :: "byte list"
  sent :: "(nat \<times> byte list) list"

text \<open>\<^verbatim>\<open>sendBuffer\<close> has \<^verbatim>\<open>sizeof(PacketHeader) + kMaxBodySize\<close> bytes. A negative count makes \<^verbatim>\<open>reserve\<close> throw.\<close>

definition kMaxBodySize :: nat where
  "kMaxBodySize = 256"

definition client_start :: "int \<Rightarrow> bool list \<Rightarrow> Client option" where
  "client_start clientCount connected =
     (if clientCount < 0 then None
      else Some \<lparr>sock_open = take (nat clientCount) connected, seqs = replicate (nat clientCount) 0,
        chat = C_Chat_SharedCtor, sendBuffer = replicate (sizeof_PacketHeader + kMaxBodySize) 0, sent = []\<rparr>)"

definition compose_message :: "nat \<Rightarrow> u64 \<Rightarrow> byte list" where
  "compose_message i seq = ascii ''hello from client '' @ to_string i @ ascii '' seq '' @ to_string (unat seq)"

text \<open>The body of the loop over the clients.\<close>

definition client_send :: "nat \<Rightarrow> Client \<Rightarrow> Client pres" where
  "client_send i cl =
     (if \<not> sock_open cl ! i then Ok cl
      else let message = compose_message i (seqs cl ! i);
               cl = cl\<lparr>seqs := (seqs cl)[i := seqs cl ! i + 1], chat := C_Chat_set_message message (chat cl)\<rparr>;
               bodySize = (ucast (C_Chat_ByteSizeLong (chat cl)) :: u32);
               totalSize = of_nat sizeof_PacketHeader + bodySize;
               buf = sendBuffer cl @ replicate (unat totalSize - length (sendBuffer cl)) 0;
               buf = store_at 0 (le16_bytes (ucast totalSize) @ le16_bytes 1) buf
           in pbind (C_Chat_SerializeToArray (chat cl) (take (unat bodySize) (drop sizeof_PacketHeader buf)) (ucast bodySize))
                (\<lambda>(success, body).
                   let buf = store_at sizeof_PacketHeader body buf; cl = cl\<lparr>sendBuffer := buf\<rparr>
                   in if \<not> success then Ok cl
                      else Ok (cl\<lparr>sent := sent cl @ [(i, take (unat totalSize) buf)]\<rparr>)))"

fun client_sends :: "nat list \<Rightarrow> Client \<Rightarrow> Client pres" where
  "client_sends [] cl = Ok cl"
| "client_sends (i # is) cl = pbind (client_send i cl) (client_sends is)"

text \<open>One turn of \<^verbatim>\<open>while (!stop)\<close>.\<close>

definition client_round :: "Client \<Rightarrow> Client pres" where
  "client_round cl = client_sends [0..<length (sock_open cl)] cl"

fun client_rounds :: "nat \<Rightarrow> Client \<Rightarrow> Client pres" where
  "client_rounds 0 cl = Ok cl"
| "client_rounds (Suc n) cl = pbind (client_round cl) (client_rounds n)"

definition client_stop :: "Client \<Rightarrow> Client" where
  "client_stop cl = cl\<lparr>sock_open := map (\<lambda>_. False) (sock_open cl)\<rparr>"

section \<open>The text of a message\<close>

lemma to_string_ascii: "\<forall>c \<in> set (to_string n). 48 \<le> unat c \<and> unat c \<le> 57"
proof (induction n rule: to_string.induct)
  case (1 n)
  have d: "48 \<le> unat (of_nat (48 + k) :: byte) \<and> unat (of_nat (48 + k) :: byte) \<le> 57" if "k < 10" for k
    using that by (simp add: unsigned_of_nat take_bit_nat_eq_self del: of_nat_add)
  show ?case
  proof (cases "n < 10")
    case True
    then show ?thesis using d [of n] by (subst to_string.simps) simp
  next
    case False
    then show ?thesis using d [of "n mod 10"] 1 by (subst to_string.simps) auto
  qed
qed

lemma length_to_string: "n < 10 ^ k \<Longrightarrow> length (to_string n) \<le> max 1 k"
proof (induction n arbitrary: k rule: to_string.induct)
  case (1 n)
  show ?case
  proof (cases "n < 10")
    case True
    then show ?thesis by (subst to_string.simps) simp
  next
    case False
    with 1(2) obtain l where k: "k = Suc l" by (cases k) auto
    then have "n div 10 < 10 ^ l" using 1(2) by auto
    from 1(1) [OF False this] False show ?thesis
      using k 1(2) by (subst to_string.simps) (cases l; simp)
  qed
qed

lemma digits_val_snoc: "digits_val (ds @ [c]) = 10 * digits_val ds + (unat c - 48)"
  by (simp add: digits_val_def)

lemma digits_val_to_string: "digits_val (to_string n) = n"
proof (induction n rule: to_string.induct)
  case (1 n)
  have d: "unat (of_nat (48 + k) :: byte) - 48 = k" if "k < 10" for k
    using that by (simp add: unsigned_of_nat take_bit_nat_eq_self del: of_nat_add)
  show ?case
  proof (cases "n < 10")
    case True
    then show ?thesis using d [of n] by (subst to_string.simps) (simp add: digits_val_def)
  next
    case False
    then show ?thesis using d [of "n mod 10"] 1 by (subst to_string.simps) (simp add: digits_val_snoc del: of_nat_add)
  qed
qed

lemma to_string_nonempty: "to_string n \<noteq> []"
  by (subst to_string.simps) simp

lemma valid_utf8_bytes: "\<forall>c \<in> set bs. unat c < 128 \<Longrightarrow> valid_utf8 bs"
proof (induction bs)
  case (Cons c bs)
  then show ?case using valid_utf8_append [of "[c]" bs] valid_utf8_ascii [of c] by simp
qed (rule valid_utf8_Nil)

lemma compose_message_ok:
  assumes "i < 10 ^ 10"
  shows "valid_utf8 (compose_message i seq)" "length (compose_message i seq) \<le> 53" "compose_message i seq \<noteq> []"
proof -
  have a: "list_all (\<lambda>c. unat c < 128) (ascii ''hello from client '')" "list_all (\<lambda>c. unat c < 128) (ascii '' seq '')"
    by (code_simp, code_simp)
  have t: "\<forall>c \<in> set (to_string n). unat c < 128" for n using to_string_ascii [of n] by force
  show "valid_utf8 (compose_message i seq)"
    using a t by (intro valid_utf8_bytes) (auto simp: compose_message_def list_all_iff)
  have "unat seq < 10 ^ 20" using unsigned_less [of seq, where ?'a = nat] by simp
  then show "length (compose_message i seq) \<le> 53"
    using length_to_string [OF assms] length_to_string [of "unat seq" 20] by (simp add: compose_message_def ascii_def)
  show "compose_message i seq \<noteq> []" by (simp add: compose_message_def ascii_def)
qed


section \<open>What the clients send\<close>

definition client_msg :: "nat \<Rightarrow> u64 \<Rightarrow> C_Chat" where
  "client_msg i seq = \<lparr>C_message = compose_message i seq, C_unknown = []\<rparr>"

definition client_packet :: "nat \<Rightarrow> u64 \<Rightarrow> byte list" where
  "client_packet i seq = packet_bytes C_CHAT (C_bytes (client_msg i seq))"

definition client_ok :: "Client \<Rightarrow> bool" where
  "client_ok cl \<longleftrightarrow> length (sock_open cl) < 2147483648 \<and> length (seqs cl) = length (sock_open cl)
     \<and> C_unknown (chat cl) = [] \<and> length (sendBuffer cl) = sizeof_PacketHeader + kMaxBodySize"

lemma client_msg_ok:
  assumes "i < 2147483648"
  shows "C_parse (C_bytes (client_msg i seq)) = Some (client_msg i seq)" "length (C_bytes (client_msg i seq)) \<le> 59"
proof -
  have "i < 10 ^ 10" using assms by simp
  note c = compose_message_ok [OF this, of seq]
  show "C_parse (C_bytes (client_msg i seq)) = Some (client_msg i seq)"
    using c(1,2) by (intro C_parse_bytes)
      (simp add: wf_C_def wf_string_def client_msg_def INT_MAX_def kSlopBytes_def)
  show "length (C_bytes (client_msg i seq)) \<le> 59"
    using c(2) length_varint_enc_u32 [of "of_nat (length (compose_message i seq))"] length_tag1
    by (simp add: client_msg_def C_bytes_def string_field_def)
qed

text \<open>A turn of the loop writes one packet, out of the buffer as it was allocated.\<close>

lemma client_send_ok:
  assumes "client_ok cl" and "i < length (sock_open cl)"
  obtains cl' where "client_send i cl = Ok cl'" "client_ok cl'" "sock_open cl' = sock_open cl"
    "seqs cl' = (if sock_open cl ! i then (seqs cl)[i := seqs cl ! i + 1] else seqs cl)"
    "sent cl' = sent cl @ (if sock_open cl ! i then [(i, client_packet i (seqs cl ! i))] else [])"
proof (cases "sock_open cl ! i")
  case False
  then show thesis using that assms by (simp add: client_send_def)
next
  case True
  let ?m = "client_msg i (seqs cl ! i)"
  let ?b = "C_bytes ?m"
  let ?n = "length ?b"
  let ?h = "le16_bytes (of_nat (?n + 4)) @ le16_bytes 1"
  have i: "i < 2147483648" using assms by (simp add: client_ok_def)
  have n: "?n \<le> 59" by (rule client_msg_ok(2) [OF i])
  have chat: "C_Chat_set_message (compose_message i (seqs cl ! i)) (chat cl) = ?m"
    using assms(1) by (cases "chat cl") (simp add: C_Chat_set_message_def client_msg_def client_ok_def)
  have w: "(ucast (of_nat ?n :: u64) :: u32) = of_nat ?n"
    "(ucast (of_nat (?n + 4) :: u32) :: u16) = of_nat (?n + 4)" "(ucast (of_nat ?n :: u32) :: i32) = of_nat ?n"
    "unat (of_nat ?n :: u32) = ?n"
    using n by (simp_all add: word_unat_eq_iff unsigned_ucast_eq unsigned_of_nat take_bit_nat_eq_self del: of_nat_add)
  have w4: "(4 + of_nat ?n :: u32) = of_nat (?n + 4)" by simp
  have w': "unat (of_nat (?n + 4) :: u32) = ?n + 4" using n by (intro unat_of_nat_u32) simp
  have sz: "sint (of_nat ?n :: i32) = int ?n" using n by (intro sint_of_nat_i32) simp
  let ?buf = "store_at 0 ?h (sendBuffer cl)"
  have l: "length (sendBuffer cl) = 260" using assms(1) by (simp add: client_ok_def sizeof_PacketHeader_def kMaxBodySize_def)
  have lh: "length ?h = 4" by simp
  have lb: "length ?buf = 260" using l lh by (simp add: store_at_def)
  let ?data = "take ?n (drop 4 ?buf)"
  have ld: "length ?data = ?n" using lb n by simp
  have ser: "C_Chat_SerializeToArray ?m ?data (of_nat ?n) = Ok (True, ?b)"
    using C_SerializeToArray_eq [of ?m ?data "of_nat ?n"] sz ld by simp
  let ?out = "store_at 4 ?b ?buf"
  have "?out = store_at 0 (?h @ ?b) (sendBuffer cl)"
    using store_at_append [of 0 ?h ?b "sendBuffer cl"] lh n l by simp
  then have out: "length ?out = 260" "take (?n + 4) ?out = client_packet i (seqs cl ! i)"
    using lh n l by (simp_all add: store_at_def client_packet_def packet_bytes_def C_CHAT_def)
  let ?cl = "cl\<lparr>seqs := (seqs cl)[i := seqs cl ! i + 1], chat := ?m, sendBuffer := ?out,
      sent := sent cl @ [(i, client_packet i (seqs cl ! i))]\<rparr>"
  have "client_send i cl = Ok ?cl"
    using True l n out
    by (simp add: client_send_def chat C_ByteSize w w4 w' ser sizeof_PacketHeader_def Let_def del: of_nat_add)
  moreover have "client_ok ?cl"
    using assms(1) out(1) by (simp add: client_ok_def client_msg_def sizeof_PacketHeader_def kMaxBodySize_def)
  ultimately show thesis using that True by simp
qed


text \<open>One pass over distinct clients, and the rounds.\<close>

definition sends_of :: "Client \<Rightarrow> nat list \<Rightarrow> (nat \<times> byte list) list" where
  "sends_of cl is = map (\<lambda>i. (i, client_packet i (seqs cl ! i))) (filter (\<lambda>i. sock_open cl ! i) is)"

lemma client_sends_ok:
  "client_ok cl \<Longrightarrow> distinct is \<Longrightarrow> set is \<subseteq> {..<length (sock_open cl)} \<Longrightarrow>
     \<exists>cl'. client_sends is cl = Ok cl' \<and> client_ok cl' \<and> sock_open cl' = sock_open cl
       \<and> sent cl' = sent cl @ sends_of cl is
       \<and> (\<forall>i < length (sock_open cl). seqs cl' ! i = seqs cl ! i + (if i \<in> set is \<and> sock_open cl ! i then 1 else 0))"
proof (induction "is" arbitrary: cl)
  case (Cons i "is")
  have i: "i < length (sock_open cl)" using Cons.prems(3) by simp
  from client_send_ok [OF Cons.prems(1) i] obtain cl1 where c: "client_send i cl = Ok cl1" "client_ok cl1"
    "sock_open cl1 = sock_open cl"
    "seqs cl1 = (if sock_open cl ! i then (seqs cl)[i := seqs cl ! i + 1] else seqs cl)"
    "sent cl1 = sent cl @ (if sock_open cl ! i then [(i, client_packet i (seqs cl ! i))] else [])"
    by blast
  have "distinct is" "set is \<subseteq> {..<length (sock_open cl1)}" "i \<notin> set is" using Cons.prems c(3) by auto
  from Cons.IH [OF c(2) this(1,2)] obtain cl' where r: "client_sends is cl1 = Ok cl'" "client_ok cl'"
    "sock_open cl' = sock_open cl1" "sent cl' = sent cl1 @ sends_of cl1 is"
    "\<forall>i < length (sock_open cl1). seqs cl' ! i = seqs cl1 ! i + (if i \<in> set is \<and> sock_open cl1 ! i then 1 else 0)"
    by blast
  have "sends_of cl1 is = sends_of cl is"
  proof -
    have "seqs cl1 ! j = seqs cl ! j" if "j \<in> set is" for j
      using that \<open>i \<notin> set is\<close> c(4) by (cases "j = i") auto
    then show ?thesis by (simp add: sends_of_def c(3))
  qed
  then have "sent cl' = sent cl @ sends_of cl (i # is)"
    using r(4) c(3,5) by (simp add: sends_of_def)
  moreover have "\<forall>j < length (sock_open cl). seqs cl' ! j
      = seqs cl ! j + (if j \<in> set (i # is) \<and> sock_open cl ! j then 1 else 0)"
  proof (intro allI impI)
    fix j
    assume "j < length (sock_open cl)"
    then show "seqs cl' ! j = seqs cl ! j + (if j \<in> set (i # is) \<and> sock_open cl ! j then 1 else 0)"
      using r(5) c(3,4) Cons.prems(1) \<open>i \<notin> set is\<close> by (cases "j = i") (auto simp: client_ok_def)
  qed
  ultimately show ?case using c r by simp
qed (simp add: sends_of_def)

text \<open>The packets for client \<open>i\<close> among what has been sent.\<close>

definition sent_to :: "nat \<Rightarrow> Client \<Rightarrow> byte list list" where
  "sent_to i cl = map snd (filter (\<lambda>p. fst p = i) (sent cl))"

lemma sent_to_round:
  assumes "i < n"
  shows "map snd (filter (\<lambda>p. fst p = i) (sends_of cl [0..<n]))
    = (if sock_open cl ! i then [client_packet i (seqs cl ! i)] else [])"
proof -
  have "filter (\<lambda>j. j = i) [0..<n] = [i]" using assms
  proof (induction n)
    case (Suc n)
    have "filter (\<lambda>j. j = n) [0..<n] = []" by (simp add: filter_empty_conv)
    then show ?case using Suc by (cases "i = n") simp_all
  qed simp
  moreover have "map snd (filter (\<lambda>p. fst p = i) (sends_of cl xs))
      = (if sock_open cl ! i then map (\<lambda>j. client_packet j (seqs cl ! j)) (filter (\<lambda>j. j = i) xs) else [])" for xs
    by (induction xs) (auto simp: sends_of_def)
  ultimately show ?thesis by simp
qed

lemma client_rounds_ok:
  "client_ok cl \<Longrightarrow>
     \<exists>cl'. client_rounds n cl = Ok cl' \<and> client_ok cl' \<and> sock_open cl' = sock_open cl
       \<and> (\<forall>i < length (sock_open cl). sent_to i cl' = sent_to i cl
            @ (if sock_open cl ! i then map (\<lambda>k. client_packet i (seqs cl ! i + of_nat k)) [0..<n] else []))"
proof (induction n arbitrary: cl)
  case (Suc n)
  let ?l = "length (sock_open cl)"
  have "distinct [0..<?l]" "set [0..<?l] \<subseteq> {..<?l}" by auto
  from client_sends_ok [OF Suc.prems this] obtain cl1 where c: "client_round cl = Ok cl1" "client_ok cl1"
    "sock_open cl1 = sock_open cl" "sent cl1 = sent cl @ sends_of cl [0..<?l]"
    "\<forall>i < ?l. seqs cl1 ! i = seqs cl ! i + (if i \<in> set [0..<?l] \<and> sock_open cl ! i then 1 else 0)"
    unfolding client_round_def by blast
  from Suc.IH [OF c(2)] obtain cl' where r: "client_rounds n cl1 = Ok cl'" "client_ok cl'" "sock_open cl' = sock_open cl1"
    "\<forall>i < length (sock_open cl1). sent_to i cl' = sent_to i cl1
       @ (if sock_open cl1 ! i then map (\<lambda>k. client_packet i (seqs cl1 ! i + of_nat k)) [0..<n] else [])"
    by blast
  have "sent_to i cl' = sent_to i cl
      @ (if sock_open cl ! i then map (\<lambda>k. client_packet i (seqs cl ! i + of_nat k)) [0..<Suc n] else [])" if "i < ?l" for i
  proof -
    have "sent_to i cl1 = sent_to i cl @ (if sock_open cl ! i then [client_packet i (seqs cl ! i)] else [])"
      using sent_to_round [OF that, of cl] by (simp add: sent_to_def c(4))
    moreover have "map (\<lambda>k. client_packet i (seqs cl ! i + of_nat k)) [0..<Suc n]
        = client_packet i (seqs cl ! i) # map (\<lambda>k. client_packet i (seqs cl ! i + 1 + of_nat k)) [0..<n]"
      by (simp add: upt_conv_Cons map_Suc_upt [symmetric] add.assoc del: upt_Suc)
    ultimately show ?thesis using r(4) c(3,5) that by simp
  qed
  then show ?case using c r by (intro exI [of _ cl']) simp
qed simp

lemma client_start_ok:
  assumes "client_start clientCount connected = Some cl" and "length connected = nat clientCount" and "clientCount \<le> 2147483647"
  shows "client_ok cl" "sock_open cl = connected" "seqs cl = replicate (length connected) 0" "sent cl = []"
  using assms by (auto simp: client_start_def client_ok_def C_Chat_SharedCtor_def split: if_splits)

text \<open>The server takes every packet of a client for what it is.\<close>

lemma server_takes_client:
  assumes "i < 2147483648"
  shows "frames (concat (map (\<lambda>k. client_packet i (of_nat k)) ks))
    = (map (\<lambda>k. Packet C_CHAT (length (C_bytes (client_msg i (of_nat k))) + 4) (C_bytes (client_msg i (of_nat k)))) ks, Rest [])"
    and "deliver (Packet C_CHAT (n + 4) (C_bytes (client_msg i seq))) r
      = PushETCJob (Job (Some (Call_BroadcastSerialized (chat_bytes (compose_message i seq))))) r"
proof -
  have "\<forall>b \<in> set (map (\<lambda>k. C_bytes (client_msg i (of_nat k))) ks). length b \<le> 65531"
    by (auto intro: order_trans [OF client_msg_ok(2) [OF assms]])
  from frames_packets [OF this, of C_CHAT]
  show "frames (concat (map (\<lambda>k. client_packet i (of_nat k)) ks))
    = (map (\<lambda>k. Packet C_CHAT (length (C_bytes (client_msg i (of_nat k))) + 4) (C_bytes (client_msg i (of_nat k)))) ks, Rest [])"
    by (simp add: client_packet_def comp_def C_CHAT_def)
  show "deliver (Packet C_CHAT (n + 4) (C_bytes (client_msg i seq))) r
      = PushETCJob (Job (Some (Call_BroadcastSerialized (chat_bytes (compose_message i seq))))) r"
    using client_msg_ok(1) [OF assms] by (simp add: deliver_def chat_effect_def) (simp add: client_msg_def)
qed


section \<open>Properties\<close>



text \<open>
  The number of clients is read from the argument: a decimal number that fits into an \<^verbatim>\<open>int\<close> is
  taken as it is, without an argument there are 1000 clients, and a text without digits gives
  10. A negative number is taken too, and then the program ends at \<^verbatim>\<open>reserve\<close>.
\<close>

theorem client_count_cases:
  assumes "n \<le> 2147483647"
  shows "client_count [to_string n] = int n \<and> client_count [45 # to_string n] = - int n \<and> client_count [] = 1000
    \<and> (0 < n \<longrightarrow> client_start (client_count [45 # to_string n]) connected = None)"
proof -
  have d: "\<forall>c \<in> set (to_string n). is_digit c" using to_string_ascii [of n] by (simp add: is_digit_def)
  have tw: "takeWhile is_digit (to_string n) = to_string n" using d by (simp add: takeWhile_eq_all_conv)
  obtain c cs where c: "to_string n = c # cs" using to_string_nonempty by (cases "to_string n") auto
  then have "is_digit c" using d by simp
  then have "48 \<le> unat c" by (simp add: is_digit_def)
  then have "\<not> is_space c" "c \<noteq> 45" "c \<noteq> 43" "\<not> is_space 45" by (auto simp: is_space_def)
  then have "stoi (to_string n) = Some (int n)" "stoi (45 # to_string n) = Some (- int n)"
    using tw digits_val_to_string [of n] c assms by (simp_all add: stoi_def Let_def)
  then show ?thesis by (simp add: client_count_def client_start_def)
qed

theorem client_count_cases_witness: "client_count [to_string 130] = 130"
  using client_count_cases [of 130] by simp

end
