(* ===== verification/Int128.thy ===== *)
theory Int128
  imports Prelude
begin

unbundle bit_operations_syntax

text \<open>
  \<^verbatim>\<open>protobuf/stubs/int128.h\<close> and \<^verbatim>\<open>int128.cc\<close>: unsigned 128-bit integers made of two 64-bit halves.
  The specification is the natural number \<open>nval x\<close> below \<open>2 ^ 128\<close>.
\<close>

section \<open>The type and its operators\<close>

record uint128 =
  u_lo :: u64
  u_hi :: u64

definition uint128_of :: "u64 \<Rightarrow> u64 \<Rightarrow> uint128" where
  "uint128_of hi lo = \<lparr>u_lo = lo, u_hi = hi\<rparr>"

definition uint128_u64 :: "u64 \<Rightarrow> uint128" where
  "uint128_u64 bottom = \<lparr>u_lo = bottom, u_hi = 0\<rparr>"

definition uint128_u32 :: "u32 \<Rightarrow> uint128" where
  "uint128_u32 bottom = \<lparr>u_lo = ucast bottom, u_hi = 0\<rparr>"

definition uint128_int :: "i32 \<Rightarrow> uint128" where
  "uint128_int bottom = \<lparr>u_lo = scast bottom, u_hi = (if sint bottom < 0 then - 1 else 0)\<rparr>"

definition kuint128max :: uint128 where
  "kuint128max = \<lparr>u_lo = 0xFFFFFFFFFFFFFFFF, u_hi = 0xFFFFFFFFFFFFFFFF\<rparr>"

definition Initialize :: "u64 \<Rightarrow> u64 \<Rightarrow> uint128 \<Rightarrow> uint128" where
  "Initialize hi lo x = x\<lparr>u_hi := hi, u_lo := lo\<rparr>"

definition eq128 :: "uint128 \<Rightarrow> uint128 \<Rightarrow> bool" where
  "eq128 l r \<longleftrightarrow> u_lo l = u_lo r \<and> u_hi l = u_hi r"

text \<open>The four instances of \<^verbatim>\<open>CMP128\<close>.\<close>

definition cmp128 :: "(u64 \<Rightarrow> u64 \<Rightarrow> bool) \<Rightarrow> uint128 \<Rightarrow> uint128 \<Rightarrow> bool" where
  "cmp128 cmp l r = (if u_hi l = u_hi r then cmp (u_lo l) (u_lo r) else cmp (u_hi l) (u_hi r))"

definition neg128 :: "uint128 \<Rightarrow> uint128" where
  "neg128 val =
     (let hi_flip = NOT (u_hi val); lo_flip = NOT (u_lo val); lo_add = lo_flip + 1
      in if lo_add < lo_flip then uint128_of (hi_flip + 1) lo_add else uint128_of hi_flip lo_add)"

definition is_zero128 :: "uint128 \<Rightarrow> bool" where
  "is_zero128 val \<longleftrightarrow> u_hi val = 0 \<and> u_lo val = 0"

definition not128 :: "uint128 \<Rightarrow> uint128" where
  "not128 val = uint128_of (NOT (u_hi val)) (NOT (u_lo val))"

text \<open>\<^verbatim>\<open>LOGIC128\<close> and \<^verbatim>\<open>LOGICASSIGN128\<close>.\<close>

definition logic128 :: "(u64 \<Rightarrow> u64 \<Rightarrow> u64) \<Rightarrow> uint128 \<Rightarrow> uint128 \<Rightarrow> uint128" where
  "logic128 f l r = uint128_of (f (u_hi l) (u_hi r)) (f (u_lo l) (u_lo r))"

definition shl128 :: "uint128 \<Rightarrow> nat \<Rightarrow> uint128" where
  "shl128 val amount =
     (if amount < 64 then
        if amount = 0 then val
        else let new_hi = push_bit amount (u_hi val) OR drop_bit (64 - amount) (u_lo val);
                 new_lo = push_bit amount (u_lo val)
             in uint128_of new_hi new_lo
      else if amount < 128 then uint128_of (push_bit (amount - 64) (u_lo val)) 0
      else uint128_of 0 0)"

definition shr128 :: "uint128 \<Rightarrow> nat \<Rightarrow> uint128" where
  "shr128 val amount =
     (if amount < 64 then
        if amount = 0 then val
        else let new_hi = drop_bit amount (u_hi val);
                 new_lo = drop_bit amount (u_lo val) OR push_bit (64 - amount) (u_hi val)
             in uint128_of new_hi new_lo
      else if amount < 128 then uint128_of 0 (drop_bit (amount - 64) (u_hi val))
      else uint128_of 0 0)"

definition shl_assign128 :: "nat \<Rightarrow> uint128 \<Rightarrow> uint128" where
  "shl_assign128 amount x =
     (if amount < 64 then
        if amount \<noteq> 0 then
          let x = x\<lparr>u_hi := push_bit amount (u_hi x) OR drop_bit (64 - amount) (u_lo x)\<rparr>
          in x\<lparr>u_lo := push_bit amount (u_lo x)\<rparr>
        else x
      else if amount < 128 then let x = x\<lparr>u_hi := push_bit (amount - 64) (u_lo x)\<rparr> in x\<lparr>u_lo := 0\<rparr>
      else x\<lparr>u_hi := 0, u_lo := 0\<rparr>)"

definition shr_assign128 :: "nat \<Rightarrow> uint128 \<Rightarrow> uint128" where
  "shr_assign128 amount x =
     (if amount < 64 then
        if amount \<noteq> 0 then
          let x = x\<lparr>u_lo := drop_bit amount (u_lo x) OR push_bit (64 - amount) (u_hi x)\<rparr>
          in x\<lparr>u_hi := drop_bit amount (u_hi x)\<rparr>
        else x
      else if amount < 128 then let x = x\<lparr>u_lo := drop_bit (amount - 64) (u_hi x)\<rparr> in x\<lparr>u_hi := 0\<rparr>
      else x\<lparr>u_lo := 0, u_hi := 0\<rparr>)"

definition add_assign128 :: "uint128 \<Rightarrow> uint128 \<Rightarrow> uint128" where
  "add_assign128 b x =
     (let x = x\<lparr>u_hi := u_hi x + u_hi b\<rparr>;
          lolo = u_lo x + u_lo b;
          x = (if lolo < u_lo x then x\<lparr>u_hi := u_hi x + 1\<rparr> else x)
      in x\<lparr>u_lo := lolo\<rparr>)"

definition sub_assign128 :: "uint128 \<Rightarrow> uint128 \<Rightarrow> uint128" where
  "sub_assign128 b x =
     (let x = x\<lparr>u_hi := u_hi x - u_hi b\<rparr>;
          x = (if u_lo b > u_lo x then x\<lparr>u_hi := u_hi x - 1\<rparr> else x)
      in x\<lparr>u_lo := u_lo x - u_lo b\<rparr>)"

definition mul_assign128 :: "uint128 \<Rightarrow> uint128 \<Rightarrow> uint128" where
  "mul_assign128 b x =
     (let a96 = drop_bit 32 (u_hi x); a64 = u_hi x AND 0xffffffff;
          a32 = drop_bit 32 (u_lo x); a00 = u_lo x AND 0xffffffff;
          b96 = drop_bit 32 (u_hi b); b64 = u_hi b AND 0xffffffff;
          b32 = drop_bit 32 (u_lo b); b00 = u_lo b AND 0xffffffff;
          c96 = a96 * b00 + a64 * b32 + a32 * b64 + a00 * b96;
          c64 = a64 * b00 + a32 * b32 + a00 * b64;
          x = x\<lparr>u_hi := push_bit 32 c96 + c64\<rparr>;
          x = x\<lparr>u_lo := 0\<rparr>;
          x = add_assign128 (shl128 (uint128_u64 (a32 * b00)) 32) x;
          x = add_assign128 (shl128 (uint128_u64 (a00 * b32)) 32) x
      in add_assign128 (uint128_u64 (a00 * b00)) x)"

definition plus128 :: "uint128 \<Rightarrow> uint128 \<Rightarrow> uint128" where "plus128 l r = add_assign128 r l"
definition minus128 :: "uint128 \<Rightarrow> uint128 \<Rightarrow> uint128" where "minus128 l r = sub_assign128 r l"
definition times128 :: "uint128 \<Rightarrow> uint128 \<Rightarrow> uint128" where "times128 l r = mul_assign128 r l"

text \<open>The increments return the old value, and the new state of the variable.\<close>

definition post_inc128 :: "uint128 \<Rightarrow> uint128 \<times> uint128" where "post_inc128 x = (x, add_assign128 (uint128_int 1) x)"
definition post_dec128 :: "uint128 \<Rightarrow> uint128 \<times> uint128" where "post_dec128 x = (x, sub_assign128 (uint128_int 1) x)"
definition pre_inc128 :: "uint128 \<Rightarrow> uint128" where "pre_inc128 x = add_assign128 (uint128_int 1) x"
definition pre_dec128 :: "uint128 \<Rightarrow> uint128" where "pre_dec128 x = sub_assign128 (uint128_int 1) x"

section \<open>Division\<close>

definition STEP64 :: "nat \<Rightarrow> u64 \<times> nat \<Rightarrow> u64 \<times> nat" where
  "STEP64 sh = (\<lambda>(n, pos). if push_bit sh 1 \<le> n then (drop_bit sh n, pos OR sh) else (n, pos))"

definition STEP32 :: "nat \<Rightarrow> u32 \<times> nat \<Rightarrow> u32 \<times> nat" where
  "STEP32 sh = (\<lambda>(n, pos). if push_bit sh 1 \<le> n then (drop_bit sh n, pos OR sh) else (n, pos))"

definition Fls64 :: "u64 \<Rightarrow> nat" where
  "Fls64 n =
     (let (n, pos) = STEP64 0x20 (n, 0);
          (n32, pos) = STEP32 0x04 (STEP32 0x08 (STEP32 0x10 (ucast n :: u32, pos)))
      in pos + unat (drop_bit (unat (push_bit 2 n32)) (0x3333333322221100 :: u64) AND 0x3))"

definition Fls128 :: "uint128 \<Rightarrow> nat" where
  "Fls128 n = (if u_hi n \<noteq> 0 then Fls64 (u_hi n) + 64 else Fls64 (u_lo n))"

text \<open>The loop, with \<open>steps = difference + 1\<close> turns left.\<close>

fun DivMod_loop :: "nat \<Rightarrow> uint128 \<Rightarrow> uint128 \<Rightarrow> uint128 \<Rightarrow> uint128 \<times> uint128" where
  "DivMod_loop 0 divisor quot dividend = (quot, dividend)"
| "DivMod_loop (Suc difference) divisor quot dividend =
     (let quot = shl_assign128 1 quot;
          shifted_divisor = shl128 divisor difference;
          (dividend, quot) =
            (if cmp128 (\<le>) shifted_divisor dividend
             then (sub_assign128 shifted_divisor dividend, add_assign128 (uint128_int 1) quot)
             else (dividend, quot))
      in DivMod_loop difference divisor quot dividend)"

text \<open>Quotient and remainder; \<open>None\<close> is the fatal error of a division by zero.\<close>

definition DivModImpl :: "uint128 \<Rightarrow> uint128 \<Rightarrow> (uint128 \<times> uint128) option" where
  "DivModImpl dividend divisor =
     (if eq128 divisor (uint128_int 0) then None
      else if cmp128 (<) dividend divisor then Some (uint128_int 0, dividend)
      else Some (DivMod_loop (nat (int (Fls128 dividend) - int (Fls128 divisor) + 1)) divisor (uint128_int 0) dividend))"

definition div_assign128 :: "uint128 \<Rightarrow> uint128 \<Rightarrow> uint128 option" where
  "div_assign128 divisor x = map_option fst (DivModImpl x divisor)"

definition mod_assign128 :: "uint128 \<Rightarrow> uint128 \<Rightarrow> uint128 option" where
  "mod_assign128 divisor x = map_option snd (DivModImpl x divisor)"

section \<open>Printing\<close>

datatype basefield = Hex | Oct | Dec

text \<open>The flags of the stream that the code uses, its width and its fill character.\<close>

record stream_fmt =
  basefield :: basefield
  showbase :: bool
  uppercase :: bool
  adjust_left :: bool
  stream_width :: nat
  stream_fill :: char

definition radix :: "basefield \<Rightarrow> nat" where
  "radix b = (case b of Hex \<Rightarrow> 16 | Oct \<Rightarrow> 8 | Dec \<Rightarrow> 10)"

definition digit_char :: "bool \<Rightarrow> nat \<Rightarrow> char" where
  "digit_char upper d = (if upper then ''0123456789ABCDEF'' else ''0123456789abcdef'') ! d"

function digits :: "bool \<Rightarrow> nat \<Rightarrow> nat \<Rightarrow> string" where
  "digits upper b n = (if b < 2 \<or> n < b then [digit_char upper n] else digits upper b (n div b) @ [digit_char upper (n mod b)])"
  by pat_completeness auto
termination by (relation "measure (\<lambda>(_, _, n). n)") (auto intro: div_less_dividend)

declare digits.simps [simp del]

definition pad_left :: "char \<Rightarrow> nat \<Rightarrow> string \<Rightarrow> string" where
  "pad_left c w s = replicate (w - length s) c @ s"

text \<open>\<^verbatim>\<open>os << w\<close> for a \<^verbatim>\<open>uint64_t\<close>, as the standard library formats it.\<close>

definition put_u64 :: "stream_fmt \<Rightarrow> bool \<Rightarrow> nat \<Rightarrow> char \<Rightarrow> u64 \<Rightarrow> string" where
  "put_u64 f base_shown w c v =
     (let prefix = (if base_shown \<and> v \<noteq> 0 then
            (case basefield f of Hex \<Rightarrow> (if uppercase f then ''0X'' else ''0x'') | Oct \<Rightarrow> ''0'' | Dec \<Rightarrow> []) else [])
      in pad_left c w (prefix @ digits (uppercase f) (radix (basefield f)) (unat v)))"

definition print128 :: "stream_fmt \<Rightarrow> uint128 \<Rightarrow> string option" where
  "print128 f b =
     (let (d, div_base_log) = (case basefield f of
            Hex \<Rightarrow> (uint128_u64 0x1000000000000000, 15)
          | Oct \<Rightarrow> (uint128_u64 0x8000000000000000, 21)
          | Dec \<Rightarrow> (uint128_u64 10000000000000000000, 19))
      in (case DivModImpl b d of
            None \<Rightarrow> None
          | Some (high, low) \<Rightarrow>
              (case DivModImpl high d of
                 None \<Rightarrow> None
               | Some (high, mid) \<Rightarrow>
                   let rep =
                     (if u_lo high \<noteq> 0 then
                        put_u64 f (showbase f) 0 CHR '' '' (u_lo high)
                          @ put_u64 f False div_base_log CHR ''0'' (u_lo mid)
                          @ put_u64 f False div_base_log CHR ''0'' (u_lo low)
                      else if u_lo mid \<noteq> 0 then
                        put_u64 f (showbase f) 0 CHR '' '' (u_lo mid)
                          @ put_u64 f False div_base_log CHR ''0'' (u_lo low)
                      else put_u64 f (showbase f) 0 CHR '' '' (u_lo low))
                   in Some (if length rep < stream_width f then
                              (if adjust_left f then rep @ replicate (stream_width f - length rep) (stream_fill f)
                               else replicate (stream_width f - length rep) (stream_fill f) @ rep)
                            else rep))))"

section \<open>The value\<close>

definition nval :: "uint128 \<Rightarrow> nat" where
  "nval x = unat (u_hi x) * 2 ^ 64 + unat (u_lo x)"

lemma u64_less: "unat (w :: u64) < 2 ^ 64"
  using unsigned_less [of w, where ?'a = nat] by simp

lemma nval_less: "nval x < 2 ^ 128"
proof -
  have "unat (u_hi x) * 2 ^ 64 + unat (u_lo x) < (unat (u_hi x) + 1) * 2 ^ 64" using u64_less [of "u_lo x"] by simp
  also have "\<dots> \<le> 2 ^ 64 * 2 ^ 64" using u64_less [of "u_hi x"] by (intro mult_right_mono) simp_all
  finally show ?thesis by (simp add: nval_def flip: power_add)
qed

lemma nval_parts: "nval x mod 2 ^ 64 = unat (u_lo x)" "nval x div 2 ^ 64 = unat (u_hi x)"
  using u64_less [of "u_lo x"] by (simp_all add: nval_def)

lemma nval_mod: "nval x = N mod 2 ^ 128 \<longleftrightarrow> unat (u_lo x) = N mod 2 ^ 64 \<and> unat (u_hi x) = N div 2 ^ 64 mod 2 ^ 64"
proof -
  let ?q = "N div 2 ^ 64 mod 2 ^ 64" and ?r = "N mod 2 ^ 64"
  have N: "N mod 2 ^ 128 = ?q * 2 ^ 64 + ?r"
    using mod_mult2_eq [of N "2 ^ 64" "2 ^ 64"] by (simp add: mult.commute flip: power_add)
  have "(?q * 2 ^ 64 + ?r) mod 2 ^ 64 = ?r" "(?q * 2 ^ 64 + ?r) div 2 ^ 64 = ?q" by simp_all
  then show ?thesis using nval_parts [of x] N by (metis nval_def)
qed

lemma nval_inj: "nval x = nval y \<longleftrightarrow> u_lo x = u_lo y \<and> u_hi x = u_hi y"
proof
  assume "nval x = nval y"
  then have "unat (u_lo x) = unat (u_lo y)" "unat (u_hi x) = unat (u_hi y)" using nval_parts by metis+
  then show "u_lo x = u_lo y \<and> u_hi x = u_hi y" by (simp add: word_unat_eq_iff)
qed (simp add: nval_def)

lemma bit_nval: "bit (nval x) i \<longleftrightarrow> (if i < 64 then bit (u_lo x) i else bit (u_hi x) (i - 64))"
proof -
  have "nval x = push_bit 64 (unat (u_hi x)) + unat (u_lo x)" by (simp add: nval_def push_bit_eq_mult)
  also have "\<dots> = push_bit 64 (unat (u_hi x)) OR unat (u_lo x)"
    by (intro disjunctive_add_eq_or) (auto intro!: bit_eqI simp: bit_simps dest!: bit_imp_le_length)
  finally show ?thesis by (auto simp: bit_simps dest: bit_imp_le_length)
qed


section \<open>The operators compute on the value\<close>

lemma carry:
  fixes l m B :: nat
  assumes "l < B" and "m < B"
  shows "(l + m) mod B < l \<longleftrightarrow> B \<le> l + m" "(l + m) div B = (if B \<le> l + m then 1 else 0)"
proof -
  have "(l + m) mod B = (if B \<le> l + m then l + m - B else l + m)" using assms by (simp add: mod_if)
  then show "(l + m) mod B < l \<longleftrightarrow> B \<le> l + m" using assms by auto
  show "(l + m) div B = (if B \<le> l + m then 1 else 0)" using assms by (simp add: le_div_geq)
qed

lemma add_assign128_val: "nval (add_assign128 b x) = (nval x + nval b) mod 2 ^ 128"
proof -
  let ?B = "2 ^ 64 :: nat"
  let ?l = "unat (u_lo x)" and ?m = "unat (u_lo b)" and ?h = "unat (u_hi x)" and ?k = "unat (u_hi b)"
  have less: "?l < ?B" "?m < ?B" by (rule u64_less)+
  have "u_lo x + u_lo b < u_lo x \<longleftrightarrow> (?l + ?m) mod ?B < ?l"
    by (simp add: word_less_nat_alt unat_word_ariths)
  also have "\<dots> \<longleftrightarrow> ?B \<le> ?l + ?m"
    by (rule carry(1) [OF less])
  finally have c: "u_lo x + u_lo b < u_lo x \<longleftrightarrow> ?B \<le> ?l + ?m" .
  have "nval x + nval b = (?h + ?k) * ?B + (?l + ?m)" by (simp add: nval_def algebra_simps)
  then have N: "(nval x + nval b) mod ?B = (?l + ?m) mod ?B"
    "(nval x + nval b) div ?B = ?h + ?k + (if ?B \<le> ?l + ?m then 1 else 0)"
    unfolding carry(2) [OF less, symmetric] by (simp_all only: mod_mult_self3 div_mult_self3 div_mult_self4) simp_all
  have "unat (u_lo (add_assign128 b x)) = (?l + ?m) mod ?B"
    by (simp add: add_assign128_def Let_def unat_word_ariths)
  moreover have "unat (u_hi (add_assign128 b x)) = (?h + ?k + (if ?B \<le> ?l + ?m then 1 else 0)) mod ?B"
    by (simp add: add_assign128_def c Let_def unat_word_ariths mod_simps)
  ultimately show ?thesis unfolding nval_mod N by blast
qed

lemma sub_back:
  fixes s b M :: nat
  assumes "s < M" and "b \<le> M"
  shows "((s + b) mod M + (M - b)) mod M = s"
proof -
  have "((s + b) mod M + (M - b)) mod M = (s + b + (M - b)) mod M" by (rule mod_add_left_eq)
  also have "s + b + (M - b) = s + M" using assms(2) by simp
  finally show ?thesis using assms(1) by simp
qed

lemma sub_enough:
  fixes s b M :: nat
  assumes "b \<le> s" and "s < M"
  shows "(s + (M - b)) mod M = s - b"
proof -
  have "s + (M - b) = (s - b) + M" using assms by simp
  then show ?thesis using assms(2) by (simp only: mod_add_self2) (simp add: less_imp_diff_less)
qed

lemma sub_assign128_val: "nval b \<le> nval x \<Longrightarrow> nval (sub_assign128 b x) = nval x - nval b"
  and sub_assign128_wraps: "nval (sub_assign128 b x) = (nval x + (2 ^ 128 - nval b)) mod 2 ^ 128"
proof -
  have "add_assign128 b (sub_assign128 b x) = x"
  proof -
    have "u_lo x - u_lo b + u_lo b < u_lo x - u_lo b \<longleftrightarrow> u_lo x < u_lo b"
      using u64_less [of "u_lo b"] by (auto simp: word_less_nat_alt unat_sub_if_size word_size)
    then show ?thesis by (simp add: add_assign128_def sub_assign128_def Let_def)
  qed
  then have s: "nval x = (nval (sub_assign128 b x) + nval b) mod 2 ^ 128" using add_assign128_val by metis
  show *: "nval (sub_assign128 b x) = (nval x + (2 ^ 128 - nval b)) mod 2 ^ 128"
    using sub_back [OF nval_less less_imp_le [OF nval_less], of "sub_assign128 b x" b] unfolding s [symmetric] by (rule sym)
  show "nval (sub_assign128 b x) = nval x - nval b" if "nval b \<le> nval x"
    unfolding * by (rule sub_enough [OF that nval_less])
qed

lemma cmp128_val: "cmp128 (<) l r \<longleftrightarrow> nval l < nval r" "cmp128 (\<le>) l r \<longleftrightarrow> nval l \<le> nval r"
proof -
  have "unat (u_hi l) < unat (u_hi r) \<Longrightarrow> nval l < nval r" for l r
    using u64_less [of "u_lo l"] unfolding nval_def by simp
  then have h: "u_hi l < u_hi r \<Longrightarrow> nval l < nval r" for l r by (simp add: word_less_nat_alt)
  show "cmp128 (<) l r \<longleftrightarrow> nval l < nval r"
    using h [of l r] h [of r l] by (cases "u_hi l" "u_hi r" rule: linorder_cases) (auto simp: cmp128_def nval_def word_less_nat_alt)
  show "cmp128 (\<le>) l r \<longleftrightarrow> nval l \<le> nval r"
    using h [of l r] h [of r l] by (cases "u_hi l" "u_hi r" rule: linorder_cases) (auto simp: cmp128_def nval_def word_le_nat_alt dest!: word_less_nat_alt [THEN iffD1])
qed

lemma eq128_val: "eq128 l r \<longleftrightarrow> nval l = nval r"
  by (simp add: eq128_def nval_inj)


text \<open>The bitwise operators and the shifts, bit by bit.\<close>

lemma bit_u64: "bit (w :: u64) i \<Longrightarrow> i < 64"
  by (auto dest: bit_imp_le_length)

lemma logic128_val:
  "nval (logic128 (OR) l r) = nval l OR nval r" "nval (logic128 (AND) l r) = nval l AND nval r"
  "nval (logic128 (XOR) l r) = nval l XOR nval r"
  by (rule bit_eqI; simp add: logic128_def uint128_of_def bit_nval bit_simps)+

lemma not128_val: "nval (not128 x) = 2 ^ 128 - 1 - nval x"
proof -
  have "nval (not128 x) + nval x = nval (not128 x) OR nval x"
    by (intro disjunctive_add_eq_or bit_eqI) (auto simp: not128_def uint128_of_def bit_nval bit_simps dest: bit_u64)
  also have "\<dots> = mask 128"
    by (rule bit_eqI) (auto simp: not128_def uint128_of_def bit_nval bit_simps dest: bit_u64)
  finally show ?thesis by (simp add: mask_eq_exp_minus_1)
qed

lemma shl128_val: "nval (shl128 x n) = nval x * 2 ^ n mod 2 ^ 128"
proof -
  have "nval (shl128 x n) = take_bit 128 (push_bit n (nval x))"
  proof (rule bit_eqI)
    fix i :: nat
    consider "n = 0" | "0 < n" "n < 64" "i < 64" | "0 < n" "n < 64" "64 \<le> i" | "64 \<le> n" "n < 128" | "128 \<le> n" by linarith
    then show "bit (nval (shl128 x n)) i \<longleftrightarrow> bit (take_bit 128 (push_bit n (nval x))) i"
    proof cases
      case 3
      then have "64 - n + (i - 64) = i - n" "i - 64 - n = i - n - 64" by simp_all
      then show ?thesis using 3
        by (auto simp: shl128_def bit_nval uint128_of_def bit_simps Let_def dest: bit_u64)
    next
      case 4
      then have "i - 64 - (n - 64) = i - n" by simp
      then show ?thesis using 4 by (auto simp: shl128_def bit_nval uint128_of_def bit_simps Let_def dest: bit_u64)
    qed (auto simp: shl128_def bit_nval uint128_of_def bit_simps Let_def dest: bit_u64)
  qed
  then show ?thesis by (simp add: take_bit_eq_mod push_bit_eq_mult)
qed

lemma shr128_val: "nval (shr128 x n) = nval x div 2 ^ n"
proof -
  have "nval (shr128 x n) = drop_bit n (nval x)"
    by (rule bit_eqI) (auto simp: shr128_def bit_nval uint128_of_def bit_simps Let_def add.commute dest: bit_u64)
  then show ?thesis by (simp add: drop_bit_eq_div)
qed

lemma shift_assign128: "shl_assign128 n x = shl128 x n" "shr_assign128 n x = shr128 x n"
  by (simp_all add: shl_assign128_def shl128_def shr_assign128_def shr128_def uint128_of_def Let_def)


lemma neg128_val: "nval (neg128 x) = (2 ^ 128 - nval x) mod 2 ^ 128"
proof -
  have "neg128 x = add_assign128 (uint128_u64 1) (not128 x)"
  proof -
    have "NOT (u_lo x) + 1 < NOT (u_lo x) \<longleftrightarrow> u_lo x = 0"
    proof -
      have "v < v - 1 \<longleftrightarrow> v = 0" for v :: u64
        by (auto simp: word_less_nat_alt unat_sub_if_size word_size unat_eq_0 Suc_le_eq unat_gt_0)
      from this [of "- u_lo x"] show ?thesis by (simp add: not_eq_complement)
    qed
    then show ?thesis by (simp add: neg128_def add_assign128_def not128_def uint128_of_def uint128_u64_def Let_def)
  qed
  moreover have "nval (uint128_u64 1) = 1" by (simp add: nval_def uint128_u64_def)
  moreover have "2 ^ 128 - 1 - nval x + 1 = 2 ^ 128 - nval x" using nval_less [of x] by simp
  ultimately show ?thesis using not128_val [of x] add_assign128_val [of "uint128_u64 1" "not128 x"] by simp
qed

lemma is_zero128_val: "is_zero128 x \<longleftrightarrow> nval x = 0"
  by (simp add: is_zero128_def nval_def unat_eq_0 conj_commute)

section \<open>Multiplication\<close>

lemma and_mask32: "unat (w AND 0xffffffff :: u64) = unat w mod 2 ^ 32"
proof -
  have "(0xffffffff :: u64) = mask 32" by (simp add: mask_eq_exp_minus_1)
  then have "unat (w AND 0xffffffff) = take_bit 32 (unat w)"
    by (simp only: unsigned_take_bit_eq flip: take_bit_eq_mask)
  then show ?thesis by (simp only: take_bit_eq_mod)
qed

lemma unat_high32: "unat (drop_bit 32 w :: u64) = unat w div 2 ^ 32"
  by (simp add: unat_drop_bit_eq drop_bit_nat_def)

lemma halves_product:
  fixes a b c d :: u64
  assumes "unat a < 2 ^ 32" and "unat b < 2 ^ 32"
  shows "unat (a * b) = unat a * unat b"
proof -
  have "unat a * unat b < 2 ^ 32 * 2 ^ 32" using assms by (intro mult_strict_mono) auto
  then show ?thesis by (simp add: unat_word_ariths)
qed

lemma times_assign_sum:
  "nval (add_assign128 (uint128_u64 p) (add_assign128 (shl128 (uint128_u64 q) 32) (add_assign128 (shl128 (uint128_u64 r) 32)
      \<lparr>u_lo = 0, u_hi = h\<rparr>)))
    = (unat h * 2 ^ 64 + unat r * 2 ^ 32 + unat q * 2 ^ 32 + unat p) mod 2 ^ 128"
proof -
  have v: "nval (uint128_u64 w) = unat w" for w by (simp add: nval_def uint128_u64_def)
  have "nval \<lparr>u_lo = 0, u_hi = h\<rparr> = unat h * 2 ^ 64" by (simp add: nval_def)
  then show ?thesis by (simp only: add_assign128_val shl128_val v mod_simps)
qed

lemma schoolbook:
  fixes a96 a64 a32 a00 b96 b64 b32 b00 :: nat
  defines "c96 \<equiv> a96 * b00 + a64 * b32 + a32 * b64 + a00 * b96"
    and "c64 \<equiv> a64 * b00 + a32 * b32 + a00 * b64"
  shows "(a96 * 2 ^ 96 + a64 * 2 ^ 64 + a32 * 2 ^ 32 + a00) * (b96 * 2 ^ 96 + b64 * 2 ^ 64 + b32 * 2 ^ 32 + b00) mod 2 ^ 128
    = ((c96 * 2 ^ 32 + c64) * 2 ^ 64 + a32 * b00 * 2 ^ 32 + a00 * b32 * 2 ^ 32 + a00 * b00) mod 2 ^ 128"
proof -
  have "(a96 * 2 ^ 96 + a64 * 2 ^ 64 + a32 * 2 ^ 32 + a00) * (b96 * 2 ^ 96 + b64 * 2 ^ 64 + b32 * 2 ^ 32 + b00)
      = ((c96 * 2 ^ 32 + c64) * 2 ^ 64 + a32 * b00 * 2 ^ 32 + a00 * b32 * 2 ^ 32 + a00 * b00)
        + (a96 * b96 * 2 ^ 64 + (a96 * b64 + a64 * b96) * 2 ^ 32 + (a96 * b32 + a64 * b64 + a32 * b96)) * 2 ^ 128"
    by (simp add: c96_def c64_def algebra_simps)
  then show ?thesis by (simp only: mod_mult_self1)
qed

lemma nval_digits:
  "nval x = (unat (u_hi x) div 2 ^ 32) * 2 ^ 96 + (unat (u_hi x) mod 2 ^ 32) * 2 ^ 64
     + (unat (u_lo x) div 2 ^ 32) * 2 ^ 32 + unat (u_lo x) mod 2 ^ 32"
proof -
  have s: "n = (n div 2 ^ 32) * 2 ^ 32 + n mod 2 ^ 32" for n :: nat by simp
  have "unat (u_hi x) * 2 ^ 64 = ((unat (u_hi x) div 2 ^ 32) * 2 ^ 32 + unat (u_hi x) mod 2 ^ 32) * 2 ^ 64"
    by (subst s [of "unat (u_hi x)"]) (rule refl)
  also have "\<dots> = (unat (u_hi x) div 2 ^ 32) * 2 ^ 96 + (unat (u_hi x) mod 2 ^ 32) * 2 ^ 64"
    by (simp only: distrib_right mult.assoc flip: power_add) simp
  finally show ?thesis using s [of "unat (u_lo x)"] unfolding nval_def by linarith
qed

lemma mod_high: "(h mod 2 ^ 64 * 2 ^ 64 + r) mod 2 ^ 128 = (h * 2 ^ 64 + r) mod (2 ^ 128 :: nat)"
proof -
  have "h mod 2 ^ 64 * 2 ^ 64 = (h * 2 ^ 64) mod (2 ^ 128 :: nat)"
    using mult_mod_left [of h "2 ^ 64" "2 ^ 64"] by (simp flip: power_add)
  then show ?thesis by (simp only: mod_add_left_eq)
qed

lemma mul_assign128_val: "nval (mul_assign128 b x) = nval x * nval b mod 2 ^ 128"
proof -
  define a96 a64 a32 a00 where "a96 = drop_bit 32 (u_hi x)" and "a64 = u_hi x AND 0xffffffff"
    and "a32 = drop_bit 32 (u_lo x)" and "a00 = u_lo x AND 0xffffffff"
  define b96 b64 b32 b00 where "b96 = drop_bit 32 (u_hi b)" and "b64 = u_hi b AND 0xffffffff"
    and "b32 = drop_bit 32 (u_lo b)" and "b00 = u_lo b AND 0xffffffff"
  note ab = a96_def a64_def a32_def a00_def b96_def b64_def b32_def b00_def
  let ?c96 = "a96 * b00 + a64 * b32 + a32 * b64 + a00 * b96" and ?c64 = "a64 * b00 + a32 * b32 + a00 * b64"
  let ?n96 = "unat a96 * unat b00 + unat a64 * unat b32 + unat a32 * unat b64 + unat a00 * unat b96"
    and ?n64 = "unat a64 * unat b00 + unat a32 * unat b32 + unat a00 * unat b64"
  have lt: "unat (w AND 0xffffffff :: u64) < 2 ^ 32" "unat (drop_bit 32 w :: u64) < 2 ^ 32" for w
    using u64_less [of w] by (simp_all only: and_mask32 unat_high32) (simp_all add: div_less_iff_less_mult)
  have p: "unat (a32 * b00) = unat a32 * unat b00" "unat (a00 * b32) = unat a00 * unat b32"
    "unat (a00 * b00) = unat a00 * unat b00"
    unfolding ab by (intro halves_product lt)+
  have both: "x\<lparr>u_hi := h\<rparr>\<lparr>u_lo := l\<rparr> = \<lparr>u_lo = l, u_hi = h\<rparr>" for h l by (cases x) simp
  have "unat (push_bit 32 ?c96 + ?c64) = (?n96 * 2 ^ 32 + ?n64) mod 2 ^ 64"
    by (simp add: push_bit_eq_mult unat_word_ariths mod_simps)
  then have "nval (mul_assign128 b x)
      = ((?n96 * 2 ^ 32 + ?n64) * 2 ^ 64 + unat a32 * unat b00 * 2 ^ 32 + unat a00 * unat b32 * 2 ^ 32 + unat a00 * unat b00) mod 2 ^ 128"
    unfolding mul_assign128_def Let_def ab [symmetric] both
    using times_assign_sum [of "a00 * b00" "a00 * b32" "a32 * b00" "push_bit 32 ?c96 + ?c64"]
      mod_high [of "?n96 * 2 ^ 32 + ?n64"] by (simp add: p add.assoc)
  moreover have "nval x = unat a96 * 2 ^ 96 + unat a64 * 2 ^ 64 + unat a32 * 2 ^ 32 + unat a00"
    "nval b = unat b96 * 2 ^ 96 + unat b64 * 2 ^ 64 + unat b32 * 2 ^ 32 + unat b00"
    unfolding ab and_mask32 unat_high32 by (rule nval_digits)+
  ultimately show ?thesis by (simp only: schoolbook)
qed


section \<open>The position of the highest bit\<close>

definition is_log :: "nat \<Rightarrow> nat \<Rightarrow> bool" where
  "is_log k n \<longleftrightarrow> 2 ^ k \<le> n \<and> n < 2 ^ (k + 1)"

text \<open>\<open>n\<close> is what is left of \<open>N\<close> after \<open>pos\<close> bits, and fits into \<open>2 * sh\<close> bits.\<close>

definition narrowed :: "nat \<Rightarrow> nat \<Rightarrow> nat \<Rightarrow> nat \<Rightarrow> bool" where
  "narrowed N w n pos \<longleftrightarrow> N div 2 ^ pos = n \<and> 1 \<le> n \<and> n < 2 ^ w"

lemma narrow_step:
  assumes "narrowed N (sh + sh) n pos"
  shows "narrowed N sh (if 2 ^ sh \<le> n then n div 2 ^ sh else n) (if 2 ^ sh \<le> n then pos + sh else pos)"
proof (cases "2 ^ sh \<le> n")
  case True
  have "n < 2 ^ sh * 2 ^ sh" using assms by (simp add: narrowed_def power_add)
  then have "n div 2 ^ sh < 2 ^ sh" by (simp add: less_mult_imp_div_less)
  moreover have "1 \<le> n div 2 ^ sh" using True by (simp add: Suc_le_eq div_greater_zero_iff)
  moreover have "N div 2 ^ (pos + sh) = n div 2 ^ sh" using assms by (simp add: narrowed_def power_add div_mult2_eq)
  ultimately show ?thesis using True by (simp add: narrowed_def)
qed (use assms in \<open>simp add: narrowed_def\<close>)

lemma STEP64_narrow:
  assumes "narrowed N (sh + sh) (unat n) pos" and "sh < 64" and "pos OR sh = pos + sh"
    and "STEP64 sh (n, pos) = (n', pos')"
  shows "narrowed N sh (unat n') pos'" "pos' = pos \<or> pos' = pos + sh"
proof -
  have "(2 :: nat) ^ sh < 2 ^ 64" using assms(2) by (intro power_strict_increasing) simp_all
  then have "unat (of_nat (2 ^ sh) :: u64) = 2 ^ sh" by (intro unat_of_nat_u64) simp
  then have "unat (push_bit sh 1 :: u64) = 2 ^ sh" by (simp add: push_bit_eq_mult)
  then have "push_bit sh 1 \<le> n \<longleftrightarrow> 2 ^ sh \<le> unat n" by (simp add: word_le_nat_alt)
  then have "unat n' = (if 2 ^ sh \<le> unat n then unat n div 2 ^ sh else unat n)"
    "pos' = (if 2 ^ sh \<le> unat n then pos + sh else pos)"
    using assms(3,4) by (auto simp: STEP64_def unat_drop_bit_eq drop_bit_nat_def split: if_splits)
  then show "narrowed N sh (unat n') pos'" "pos' = pos \<or> pos' = pos + sh" using narrow_step [OF assms(1)] by simp_all
qed

lemma STEP32_narrow:
  assumes "narrowed N (sh + sh) (unat n) pos" and "sh < 32" and "pos OR sh = pos + sh"
    and "STEP32 sh (n, pos) = (n', pos')"
  shows "narrowed N sh (unat n') pos'" "pos' = pos \<or> pos' = pos + sh"
proof -
  have "(2 :: nat) ^ sh < 2 ^ 32" using assms(2) by (intro power_strict_increasing) simp_all
  then have "unat (of_nat (2 ^ sh) :: u32) = 2 ^ sh" by (intro unat_of_nat_u32) simp
  then have "unat (push_bit sh 1 :: u32) = 2 ^ sh" by (simp add: push_bit_eq_mult)
  then have "push_bit sh 1 \<le> n \<longleftrightarrow> 2 ^ sh \<le> unat n" by (simp add: word_le_nat_alt)
  then have "unat n' = (if 2 ^ sh \<le> unat n then unat n div 2 ^ sh else unat n)"
    "pos' = (if 2 ^ sh \<le> unat n then pos + sh else pos)"
    using assms(3,4) by (auto simp: STEP32_def unat_drop_bit_eq drop_bit_nat_def split: if_splits)
  then show "narrowed N sh (unat n') pos'" "pos' = pos \<or> pos' = pos + sh" using narrow_step [OF assms(1)] by simp_all
qed

definition fls_table :: "u32 \<Rightarrow> nat" where
  "fls_table n32 = unat (drop_bit (unat (push_bit 2 n32)) (0x3333333322221100 :: u64) AND 0x3)"

lemma fls_table_log: "1 \<le> unat n \<Longrightarrow> unat n < 16 \<Longrightarrow> is_log (fls_table n) (unat n)"
proof -
  have "\<forall>k \<in> set [1..<16]. is_log (fls_table (of_nat k)) k" by code_simp
  moreover assume "1 \<le> unat n" "unat n < 16"
  then have "unat n \<in> set [1..<16]" by simp
  ultimately have "is_log (fls_table (of_nat (unat n))) (unat n)" by blast
  then show ?thesis by simp
qed

lemma narrowed_log: "narrowed N w n pos \<Longrightarrow> is_log t n \<Longrightarrow> is_log (pos + t) N"
proof -
  assume n: "narrowed N w n pos" and t: "is_log t n"
  have "n * 2 ^ pos \<le> N" "N < (n + 1) * 2 ^ pos"
    using n dividend_less_times_div [of "2 ^ pos" N] by (auto simp: narrowed_def algebra_simps)
  moreover have "2 ^ t * 2 ^ pos \<le> n * 2 ^ pos" using t by (intro mult_right_mono) (simp_all add: is_log_def)
  moreover have "(n + 1) * 2 ^ pos \<le> 2 ^ (t + 1) * 2 ^ pos" using t by (intro mult_right_mono) (simp_all add: is_log_def)
  moreover have "2 ^ (pos + t) = 2 ^ t * (2 :: nat) ^ pos" "2 ^ (pos + t + 1) = 2 ^ (t + 1) * (2 :: nat) ^ pos"
    by (simp_all add: power_add)
  ultimately show ?thesis unfolding is_log_def by linarith
qed

lemma Fls64_log:
  assumes "n \<noteq> 0"
  shows "is_log (Fls64 n) (unat n)"
proof -
  have "narrowed (unat n) (32 + 32) (unat n) 0"
    using assms u64_less [of n] by (simp add: narrowed_def Suc_le_eq word_neq_0_conv unat_gt_0)
  then obtain n1 p1 where 1: "STEP64 32 (n, 0) = (n1, p1)" "narrowed (unat n) 32 (unat n1) p1" "p1 = 0 \<or> p1 = 32"
    using STEP64_narrow [of "unat n" 32 n 0] by (cases "STEP64 32 (n, 0)") auto
  have u: "unat (ucast n1 :: u32) = unat n1"
    using 1(2) by (simp add: narrowed_def unsigned_ucast_eq take_bit_nat_eq_self)
  then have "narrowed (unat n) (16 + 16) (unat (ucast n1 :: u32)) p1" using 1(2) by simp
  then obtain n2 p2 where 2: "STEP32 16 (ucast n1, p1) = (n2, p2)" "narrowed (unat n) 16 (unat n2) p2"
      "p2 \<in> {0, 16, 32, 48}"
    using STEP32_narrow [of "unat n" 16 "ucast n1" p1] 1(3) by (cases "STEP32 16 (ucast n1, p1)") fastforce
  have "narrowed (unat n) (8 + 8) (unat n2) p2" using 2(2) by simp
  then obtain n3 p3 where 3: "STEP32 8 (n2, p2) = (n3, p3)" "narrowed (unat n) 8 (unat n3) p3"
      "p3 \<in> {0, 8, 16, 24, 32, 40, 48, 56}"
    using STEP32_narrow [of "unat n" 8 n2 p2] 2(3) by (cases "STEP32 8 (n2, p2)") fastforce
  have "narrowed (unat n) (4 + 4) (unat n3) p3" using 3(2) by simp
  then obtain n4 p4 where 4: "STEP32 4 (n3, p3) = (n4, p4)" "narrowed (unat n) 4 (unat n4) p4"
    using STEP32_narrow [of "unat n" 4 n3 p3] 3(3) by (cases "STEP32 4 (n3, p3)") fastforce
  have "Fls64 n = p4 + fls_table n4" using 1 2 3 4 by (simp add: Fls64_def fls_table_def)
  moreover have "is_log (fls_table n4) (unat n4)" using 4(2) by (intro fls_table_log) (simp_all add: narrowed_def)
  ultimately show ?thesis using narrowed_log [OF 4(2)] by simp
qed

lemma Fls128_log:
  assumes "nval n \<noteq> 0"
  shows "is_log (Fls128 n) (nval n)"
proof (cases "u_hi n = 0")
  case True
  then have "u_lo n \<noteq> 0" "nval n = unat (u_lo n)" using assms by (auto simp: nval_def)
  then show ?thesis using Fls64_log [of "u_lo n"] True by (simp add: Fls128_def)
next
  case False
  then have h: "is_log (Fls64 (u_hi n)) (unat (u_hi n))" by (rule Fls64_log)
  have "nval n div 2 ^ 64 = unat (u_hi n)" by (rule nval_parts)
  moreover have "1 \<le> unat (u_hi n)" using False by (simp add: Suc_le_eq unat_gt_0 word_neq_0_conv)
  ultimately have "narrowed (nval n) 64 (unat (u_hi n)) 64" using u64_less [of "u_hi n"] by (simp add: narrowed_def)
  from narrowed_log [OF this h] show ?thesis using False by (simp add: Fls128_def add.commute)
qed


section \<open>Long division\<close>

lemma nval_small: "nval (uint128_int 0) = 0" "nval (uint128_int 1) = 1"
  by (simp_all add: nval_def uint128_int_def)

text \<open>
  With \<open>k\<close> turns to go, \<open>rem < divisor * 2 ^ k\<close>; each turn doubles the quotient and takes
  \<open>divisor * 2 ^ (k - 1)\<close> off the dividend if it can.
\<close>

lemma DivMod_loop_val:
  assumes "nval r < nval d * 2 ^ k" and "k = 0 \<or> nval d * 2 ^ (k - 1) < 2 ^ 128" and "(nval q + 1) * 2 ^ k \<le> 2 ^ 128"
    and "DivMod_loop k d q r = (q', r')"
  shows "nval q' = nval q * 2 ^ k + nval r div nval d \<and> nval r' = nval r mod nval d"
  using assms
proof (induction k arbitrary: q r)
  case 0
  then show ?case by simp
next
  case (Suc k)
  let ?d = "nval d * 2 ^ k"
  have sd: "nval (shl128 d k) = ?d" using Suc.prems(2) by (simp add: shl128_val)
  have d1: "?d < 2 ^ 128" using Suc.prems(2) by simp
  have "nval q * 2 < 2 ^ 128"
  proof -
    have "(nval q + 1) * 2 \<le> (nval q + 1) * 2 ^ Suc k" by (intro mult_left_mono) simp_all
    from order_trans [OF this Suc.prems(3)] show ?thesis by simp
  qed
  then have q2: "nval (shl_assign128 1 q) = nval q * 2" by (simp add: shift_assign128 shl128_val)
  have kd: "k = 0 \<or> nval d * 2 ^ (k - 1) < 2 ^ 128" 
    using d1 by (cases k) (auto intro: le_less_trans [rotated])
  show ?case
  proof (cases "?d \<le> nval r")
    case True
    define r1 q1 where "r1 = sub_assign128 (shl128 d k) r" and "q1 = add_assign128 (uint128_int 1) (shl_assign128 1 q)"
    have r1: "nval r1 = nval r - ?d" unfolding r1_def using sub_assign128_val [of "shl128 d k" r] True sd by simp
    have "(nval q + 1) * 2 \<le> (nval q + 1) * 2 ^ Suc k" by (intro mult_left_mono) simp_all
    from order_trans [OF this Suc.prems(3)] have "nval q * 2 + 1 < 2 ^ 128" by simp
    then have q1: "nval q1 = nval q * 2 + 1" by (simp add: q1_def add_assign128_val q2 [unfolded One_nat_def] nval_small)
    have l: "DivMod_loop k d q1 r1 = (q', r')"
      using Suc.prems(4) True by (simp add: cmp128_val sd q1_def r1_def Let_def)
    have "nval r1 < nval d * 2 ^ k" using r1 Suc.prems(1) True by simp
    moreover have "(nval q1 + 1) * 2 ^ k \<le> 2 ^ 128" using Suc.prems(3) by (simp add: q1 algebra_simps)
    ultimately have IH: "nval q' = nval q1 * 2 ^ k + nval r1 div nval d \<and> nval r' = nval r1 mod nval d"
      using Suc.IH [OF _ kd _ l] by simp
    have nr: "nval r = nval r1 + 2 ^ k * nval d" using r1 True by (simp add: mult.commute)
    have "0 < nval d" using Suc.prems(1) by (cases "nval d") auto
    then have "nval r div nval d = 2 ^ k + nval r1 div nval d" "nval r mod nval d = nval r1 mod nval d"
      unfolding nr by simp_all
    then show ?thesis using IH q1 by (simp add: algebra_simps)
  next
    case False
    have l: "DivMod_loop k d (shl_assign128 1 q) r = (q', r')"
      using Suc.prems(4) False by (simp add: cmp128_val sd Let_def)
    have "(nval (shl_assign128 1 q) + 1) * 2 ^ k \<le> 2 ^ 128"
      using Suc.prems(3) unfolding q2 by (rule order_trans [rotated]) simp
    then show ?thesis using Suc.IH [OF _ kd _ l] False q2 by simp
  qed
qed

lemma DivModImpl_spec:
  assumes "nval d \<noteq> 0"
  obtains q r where "DivModImpl x d = Some (q, r)" "nval q = nval x div nval d" "nval r = nval x mod nval d"
proof (cases "nval x < nval d")
  case True
  then show thesis using that [of "uint128_int 0" x] assms
    by (simp add: DivModImpl_def eq128_val cmp128_val nval_small)
next
  case False
  then have "nval x \<noteq> 0" using assms by simp
  note lx = Fls128_log [OF this] and ld = Fls128_log [OF assms]
  let ?a = "Fls128 x" and ?b = "Fls128 d"
  have ab: "?b \<le> ?a"
  proof (rule ccontr)
    assume "\<not> ?b \<le> ?a"
    then have "(2 :: nat) ^ (?a + 1) \<le> 2 ^ ?b" by (intro power_increasing) simp_all
    then show False using lx ld False by (simp add: is_log_def)
  qed
  have a: "?a < 128"
  proof (rule ccontr)
    assume "\<not> ?a < 128"
    then have "(2 :: nat) ^ 128 \<le> 2 ^ ?a" by (intro power_increasing) simp_all
    then show False using lx nval_less [of x] by (simp add: is_log_def)
  qed
  let ?k = "nat (int ?a - int ?b + 1)"
  have k: "?k = Suc (?a - ?b)" using ab by simp
  obtain q r where l: "DivMod_loop ?k d (uint128_int 0) x = (q, r)" by fastforce
  have "2 ^ ?b * 2 ^ ?k = (2 :: nat) ^ (?a + 1)" using ab by (simp add: k flip: power_add power_Suc)
  then have "nval x < 2 ^ ?b * 2 ^ ?k" using lx by (simp add: is_log_def)
  also have "\<dots> \<le> nval d * 2 ^ ?k" using ld by (intro mult_right_mono) (simp_all add: is_log_def)
  finally have 1: "nval x < nval d * 2 ^ ?k" .
  have "nval d * 2 ^ (?a - ?b) < 2 ^ (?b + 1) * 2 ^ (?a - ?b)" using ld by (simp add: is_log_def)
  also have "\<dots> = 2 ^ (?a + 1)" using ab by (simp flip: power_add)
  also have "\<dots> \<le> 2 ^ 128" using a by (intro power_increasing) simp_all
  finally have 2: "nval d * 2 ^ (?k - 1) < 2 ^ 128" by (simp add: k)
  have "(2 :: nat) ^ ?k \<le> 2 ^ 128" using a k by (intro power_increasing) simp_all
  then have 3: "(nval (uint128_int 0) + 1) * 2 ^ ?k \<le> 2 ^ 128" by (simp add: nval_small)
  have "nval q = nval x div nval d \<and> nval r = nval x mod nval d"
    using DivMod_loop_val [OF 1 _ 3 l] 2 by (simp add: nval_small)
  moreover have "DivModImpl x d = Some (q, r)"
    using l False assms by (simp add: DivModImpl_def eq128_val cmp128_val nval_small)
  ultimately show thesis using that by blast
qed


section \<open>The text of a number\<close>

lemma pad_digits:
  assumes "2 \<le> b" and "0 < h" and "l < b ^ k"
  shows "digits u b (h * b ^ k + l) = digits u b h @ (if k = 0 then [] else pad_left CHR ''0'' k (digits u b l))"
  using assms(3)
proof (induction k arbitrary: l)
  case 0
  then show ?case by simp
next
  case (Suc k)
  have ge: "\<not> (h * b ^ Suc k + l < b)"
  proof -
    have "b * 1 \<le> b * (h * b ^ k)" using assms(1,2) by (intro mult_left_mono) (simp_all add: Suc_le_eq)
    then have "b \<le> h * b ^ Suc k" by (simp add: mult.left_commute)
    then show ?thesis by linarith
  qed
  have dm: "(h * b ^ Suc k + l) div b = h * b ^ k + l div b" "(h * b ^ Suc k + l) mod b = l mod b"
    using assms(1) by (simp_all add: mult.left_commute)
  have "l div b < b ^ k" using Suc.prems assms(1) by (simp add: less_mult_imp_div_less mult.commute)
  note IH = Suc.IH [OF this]
  have step: "digits u b (h * b ^ Suc k + l) = digits u b (h * b ^ k + l div b) @ [digit_char u (l mod b)]"
    by (subst digits.simps) (use ge dm assms(1) in simp)
  show ?case
  proof (cases "k = 0")
    case True
    then have "l < b" using Suc.prems by simp
    then have "digits u b l = [digit_char u l]" by (subst digits.simps) simp
    then show ?thesis using step IH True \<open>l < b\<close> by (simp add: pad_left_def)
  next
    case False
    have z: "digit_char u 0 = CHR ''0''" by (simp add: digit_char_def)
    have "pad_left CHR ''0'' k (digits u b (l div b)) @ [digit_char u (l mod b)] = pad_left CHR ''0'' (Suc k) (digits u b l)"
    proof (cases "l < b")
      case True
      then have "digits u b (l div b) = [CHR ''0'']" "digits u b l = [digit_char u l]"
        using assms(1) z by (subst digits.simps, simp)+
      then show ?thesis using True False
        by (cases k) (simp_all add: pad_left_def replicate_append_same)
    next
      case l: False
      have "digits u b l = digits u b (l div b) @ [digit_char u (l mod b)]"
        using l assms(1) by (subst digits.simps) simp
      then show ?thesis by (simp add: pad_left_def)
    qed
    then show ?thesis using step IH False by simp
  qed
qed


definition base_prefix :: "stream_fmt \<Rightarrow> nat \<Rightarrow> string" where
  "base_prefix f n = (if showbase f \<and> n \<noteq> 0 then
     (case basefield f of Hex \<Rightarrow> (if uppercase f then ''0X'' else ''0x'') | Oct \<Rightarrow> ''0'' | Dec \<Rightarrow> []) else [])"

definition pad_field :: "stream_fmt \<Rightarrow> string \<Rightarrow> string" where
  "pad_field f rep =
     (let p = replicate (stream_width f - length rep) (stream_fill f) in if adjust_left f then rep @ p else p @ rep)"

lemma digits_nonempty: "digits u b n \<noteq> []"
  by (subst digits.simps) simp

lemma put_u64_eq:
  "put_u64 f (showbase f) 0 c v = base_prefix f (unat v) @ digits (uppercase f) (radix (basefield f)) (unat v)"
  "put_u64 f False w c v = pad_left c w (digits (uppercase f) (radix (basefield f)) (unat v))"
  by (simp_all add: put_u64_def base_prefix_def pad_left_def unat_eq_0)

lemma print128_eq:
  "print128 f x = Some (pad_field f (base_prefix f (nval x) @ digits (uppercase f) (radix (basefield f)) (nval x)))"
proof -
  let ?B = "radix (basefield f)" and ?u = "uppercase f"
  define k where "k = (case basefield f of Hex \<Rightarrow> (15 :: nat) | Oct \<Rightarrow> 21 | Dec \<Rightarrow> 19)"
  define d where "d = (case basefield f of Hex \<Rightarrow> uint128_u64 0x1000000000000000 | Oct \<Rightarrow> uint128_u64 0x8000000000000000
      | Dec \<Rightarrow> uint128_u64 10000000000000000000)"
  have B: "2 \<le> ?B" "k \<noteq> 0" by (simp_all add: radix_def k_def split: basefield.split)
  have d: "nval d = ?B ^ k" by (simp add: nval_def d_def k_def radix_def uint128_u64_def split: basefield.split)
  have D: "?B ^ k < 2 ^ 64" "2 ^ 128 div ?B ^ k div ?B ^ k < 2 ^ 64"
    by (simp_all add: radix_def k_def split: basefield.split)
  have z: "nval d \<noteq> 0" unfolding d using B(1) by simp
  obtain h1 low where 1: "DivModImpl x d = Some (h1, low)" "nval h1 = nval x div nval d" "nval low = nval x mod nval d"
    by (rule DivModImpl_spec [OF z])
  obtain high mid where 2: "DivModImpl h1 d = Some (high, mid)" "nval high = nval h1 div nval d" "nval mid = nval h1 mod nval d"
    by (rule DivModImpl_spec [OF z])
  have small: "nval y = unat (u_lo y)" if "nval y < 2 ^ 64" for y
    using that nval_parts(1) [of y] by simp
  have chunk: "nval low < ?B ^ k" "nval mid < ?B ^ k" using 1(3) 2(3) z d by simp_all
  moreover have "nval high \<le> 2 ^ 128 div ?B ^ k div ?B ^ k"
    unfolding 1(2) 2(2) d using nval_less [of x] by (intro div_le_mono) simp
  ultimately have v: "nval low = unat (u_lo low)" "nval mid = unat (u_lo mid)" "nval high = unat (u_lo high)"
    using D by (intro small; linarith)+
  have x: "nval x = nval h1 * ?B ^ k + unat (u_lo low)" "nval h1 = unat (u_lo high) * ?B ^ k + unat (u_lo mid)"
    using 1(2,3) 2(2,3) d v by (simp_all add: div_mult_mod_eq)
  have lt: "unat (u_lo low) < ?B ^ k" "unat (u_lo mid) < ?B ^ k" using v chunk by simp_all
  have nz: "(u_lo y \<noteq> 0) = (0 < unat (u_lo y))" for y by (simp add: unat_gt_0 word_neq_0_conv)
  have rep: "(if u_lo high \<noteq> 0 then put_u64 f (showbase f) 0 CHR '' '' (u_lo high) @ put_u64 f False k CHR ''0'' (u_lo mid)
                 @ put_u64 f False k CHR ''0'' (u_lo low)
              else if u_lo mid \<noteq> 0 then put_u64 f (showbase f) 0 CHR '' '' (u_lo mid) @ put_u64 f False k CHR ''0'' (u_lo low)
              else put_u64 f (showbase f) 0 CHR '' '' (u_lo low))
      = base_prefix f (nval x) @ digits ?u ?B (nval x)"
  proof -
    consider "u_lo high \<noteq> 0" | "u_lo high = 0" "u_lo mid \<noteq> 0" | "u_lo high = 0" "u_lo mid = 0" by blast
    then show ?thesis
    proof cases
      case 1
      then have h: "0 < unat (u_lo high)" by (simp add: nz)
      then have "0 < nval h1" using x(2) B(1) by simp
      then have p: "base_prefix f (nval x) = base_prefix f (unat (u_lo high))" "0 < nval h1"
        using x(1) B(1) h by (simp_all add: base_prefix_def)
      show ?thesis
        using 1 B pad_digits [OF B(1) p(2) lt(1), of ?u] pad_digits [OF B(1) h lt(2), of ?u] p x
        by (simp add: put_u64_eq)
    next
      case 2
      then have m: "0 < unat (u_lo mid)" by (simp add: nz)
      then have h: "nval h1 = unat (u_lo mid)" using x(2) 2 by simp
      then have p: "base_prefix f (nval x) = base_prefix f (unat (u_lo mid))"
        using x(1) B(1) m by (simp add: base_prefix_def)
      show ?thesis using 2 B pad_digits [OF B(1) m lt(1), of ?u] p x(1) h by (simp add: put_u64_eq)
    next
      case 3
      then show ?thesis using x by (simp add: put_u64_eq)
    qed
  qed
  have dk: "(case basefield f of Hex \<Rightarrow> (uint128_u64 0x1000000000000000, 15)
      | Oct \<Rightarrow> (uint128_u64 0x8000000000000000, 21) | Dec \<Rightarrow> (uint128_u64 10000000000000000000, 19)) = (d, k)"
    by (simp add: d_def k_def split: basefield.split)
  show ?thesis
    unfolding print128_def dk Let_def prod.case 1(1) 2(1) option.case rep pad_field_def by simp
qed


section \<open>Properties\<close>

text \<open>
  C40: 128-bit arithmetic out of 64-bit halves is arithmetic modulo \<open>2 ^ 128\<close>: addition with its
  carry, subtraction, schoolbook multiplication, negation, the bitwise operators, the shifts by
  any amount, and the comparisons, in the binary and in the assigning forms.
\<close>

theorem uint128_arithmetic:
  "nval (plus128 x y) = (nval x + nval y) mod 2 ^ 128 \<and> nval (minus128 x y) = (nval x + (2 ^ 128 - nval y)) mod 2 ^ 128
   \<and> nval (times128 x y) = nval x * nval y mod 2 ^ 128 \<and> nval (not128 x) = 2 ^ 128 - 1 - nval x
   \<and> nval (neg128 x) = (2 ^ 128 - nval x) mod 2 ^ 128
   \<and> nval (logic128 (OR) x y) = nval x OR nval y \<and> nval (logic128 (AND) x y) = nval x AND nval y
   \<and> nval (logic128 (XOR) x y) = nval x XOR nval y
   \<and> nval (shl128 x n) = nval x * 2 ^ n mod 2 ^ 128 \<and> nval (shr128 x n) = nval x div 2 ^ n
   \<and> shl_assign128 n x = shl128 x n \<and> shr_assign128 n x = shr128 x n
   \<and> (cmp128 (<) x y \<longleftrightarrow> nval x < nval y) \<and> (cmp128 (\<le>) x y \<longleftrightarrow> nval x \<le> nval y)
   \<and> (eq128 x y \<longleftrightarrow> nval x = nval y) \<and> (is_zero128 x \<longleftrightarrow> nval x = 0)
   \<and> nval (pre_inc128 x) = (nval x + 1) mod 2 ^ 128 \<and> nval x < 2 ^ 128"
  by (intro conjI)
    (simp_all add: plus128_def minus128_def times128_def pre_inc128_def add_assign128_val sub_assign128_wraps mul_assign128_val
      not128_val neg128_val logic128_val shl128_val shr128_val shift_assign128 cmp128_val eq128_val nval_small nval_less
      is_zero128_val
      nval_less [simplified])

text \<open>
  The bit-by-bit long division divides: for every divisor but zero, on which it stops the
  program, quotient and remainder are those of the values, and the loop makes as many turns as
  the bit lengths differ.
\<close>

theorem uint128_division:
  "(DivModImpl x y = None \<longleftrightarrow> nval y = 0)
   \<and> (\<forall>q r. DivModImpl x y = Some (q, r) \<longrightarrow> nval q = nval x div nval y \<and> nval r = nval x mod nval y)
   \<and> (nval x \<noteq> 0 \<longrightarrow> 2 ^ Fls128 x \<le> nval x \<and> nval x < 2 ^ (Fls128 x + 1))"
proof -
  have "DivModImpl x y = None \<and> nval y = 0
     \<or> (\<exists>q r. DivModImpl x y = Some (q, r) \<and> nval y \<noteq> 0 \<and> nval q = nval x div nval y \<and> nval r = nval x mod nval y)"
  proof (cases "nval y = 0")
    case True
    then show ?thesis by (simp add: DivModImpl_def eq128_val nval_small)
  next
    case False
    then show ?thesis using DivModImpl_spec [OF False, of x] by blast
  qed
  then show ?thesis using Fls128_log [of x] by (auto simp: is_log_def)
qed

theorem uint128_division_witness:
  "map_option (\<lambda>(q, r). (nval q, nval r)) (DivModImpl (uint128_of 1 5) (uint128_u64 7)) = Some ((2 ^ 64 + 5) div 7, (2 ^ 64 + 5) mod 7)"
proof -
  have v: "nval (uint128_of 1 5) = 2 ^ 64 + 5" "nval (uint128_u64 7) = 7"
    by (simp_all add: nval_def uint128_of_def uint128_u64_def)
  show ?thesis using uint128_division [of "uint128_of 1 5" "uint128_u64 7"] unfolding v
    by (cases "DivModImpl (uint128_of 1 5) (uint128_u64 7)") (auto simp: v)
qed

text \<open>
  A 128-bit number is printed as its digits to base 10, 8 or 16, though it is taken apart into
  three 64-bit chunks: no zero inside is lost and none is added in front, the prefix of the base
  comes once, and the field is filled up to its width.
\<close>

theorem uint128_prints_digits:
  "print128 f x = Some (pad_field f (base_prefix f (nval x) @ digits (uppercase f) (radix (basefield f)) (nval x)))"
  by (rule print128_eq)

end
