(* ===== verification/Ascii.thy ===== *)
theory Ascii
  imports Int128
begin

text \<open>
  Characters and C strings as \<^verbatim>\<open>protobuf/stubs/strutil.h\<close> and \<^verbatim>\<open>strutil.cc\<close> see them. The classes
  of characters are those of ASCII whatever the locale; \<^verbatim>\<open>char\<close> is signed, so that a byte from
  128 on is below every letter: it is in none of the classes. A \<^verbatim>\<open>const char*\<close> into a C string is the
  list of the characters that follow; \<open>deref\<close> reads its first one or the NUL that ends it.
\<close>

section \<open>Character classes\<close>

abbreviation code :: "char \<Rightarrow> int" where
  "code c \<equiv> of_char c"

abbreviation NUL :: char where
  "NUL \<equiv> CHR 0x00"

abbreviation backslash :: char where
  "backslash \<equiv> CHR 0x5C"

definition ascii_isdigit :: "char \<Rightarrow> bool" where
  "ascii_isdigit c \<longleftrightarrow> 48 \<le> code c \<and> code c \<le> 57"

definition ascii_isupper :: "char \<Rightarrow> bool" where
  "ascii_isupper c \<longleftrightarrow> code c \<ge> 65 \<and> code c \<le> 90"

definition ascii_islower :: "char \<Rightarrow> bool" where
  "ascii_islower c \<longleftrightarrow> code c \<ge> 97 \<and> code c \<le> 122"

definition ascii_isalnum :: "char \<Rightarrow> bool" where
  "ascii_isalnum c \<longleftrightarrow> (97 \<le> code c \<and> code c \<le> 122) \<or> (65 \<le> code c \<and> code c \<le> 90) \<or> (48 \<le> code c \<and> code c \<le> 57)"

definition ascii_isspace :: "char \<Rightarrow> bool" where
  "ascii_isspace c \<longleftrightarrow> c = CHR '' '' \<or> c = CHR 0x09 \<or> c = CHR 0x0A \<or> c = CHR 0x0B \<or> c = CHR 0x0C \<or> c = CHR 0x0D"

definition ascii_toupper :: "char \<Rightarrow> char" where
  "ascii_toupper c = (if ascii_islower c then char_of (code c - 32) else c)"

definition ascii_tolower :: "char \<Rightarrow> char" where
  "ascii_tolower c = (if ascii_isupper c then char_of (code c + 32) else c)"

definition hex_digit_to_int :: "char \<Rightarrow> int" where
  "hex_digit_to_int c = (let x = code c; x = (if x > 57 then x + 9 else x) in x mod 16)"

definition isxdigit :: "char \<Rightarrow> bool" where
  "isxdigit c \<longleftrightarrow> (48 \<le> code c \<and> code c \<le> 57) \<or> (97 \<le> code c \<and> code c \<le> 102) \<or> (65 \<le> code c \<and> code c \<le> 70)"

definition isprint :: "char \<Rightarrow> bool" where
  "isprint c \<longleftrightarrow> code c \<ge> 32 \<and> code c \<le> 126"

definition deref :: "string \<Rightarrow> char" where
  "deref data = (case data of [] \<Rightarrow> NUL | c # _ \<Rightarrow> c)"

text \<open>What \<^verbatim>\<open>c_str()\<close> shows of a string: the characters up to the first NUL.\<close>

definition c_str :: "string \<Rightarrow> string" where
  "c_str s = takeWhile (\<lambda>c. c \<noteq> NUL) s"

lemma deref_simps [simp]: "deref [] = NUL" "deref (c # data) = c"
  by (simp_all add: deref_def)

lemma c_str_id: "NUL \<notin> set s \<Longrightarrow> c_str s = s"
  by (auto simp: c_str_def takeWhile_eq_all_conv)

lemma code_bounds: "0 \<le> code c" "code c < 256" "code c = int (of_char c)"
proof -
  show n: "code c = int (of_char c)" by (simp only: of_nat_of_char)
  show "0 \<le> code c" "code c < 256" using nat_of_char_less_256 [of c] unfolding n by linarith+
qed

lemma code_inj: "code c = code d \<Longrightarrow> c = d"
  using of_char_eq_iff by blast

section \<open>Numbers padded to a fixed width\<close>

text \<open>The \<open>w\<close> low digits to the base \<open>b\<close>.\<close>

fun fixed :: "nat \<Rightarrow> nat \<Rightarrow> nat \<Rightarrow> string" where
  "fixed b 0 n = []"
| "fixed b (Suc k) n = fixed b k (n div b) @ [digit_char False (n mod b)]"

lemma length_fixed [simp]: "length (fixed b k n) = k"
  by (induction k arbitrary: n) simp_all

lemma digit_chars:
  "\<forall>d \<in> set [0..<16]. isxdigit (digit_char False d) \<and> hex_digit_to_int (digit_char False d) = int d
     \<and> (d < 10 \<longrightarrow> ascii_isdigit (digit_char False d) \<and> code (digit_char False d) = 48 + int d)"
  by code_simp

lemma digit_char_digit:
  assumes "d < 10"
  shows "ascii_isdigit (digit_char False d)" "code (digit_char False d) = 48 + int d"
  using bspec [OF digit_chars, of d] assms by simp_all

lemma digit_char_hex:
  assumes "d < 16"
  shows "isxdigit (digit_char False d)" "hex_digit_to_int (digit_char False d) = int d"
  using bspec [OF digit_chars, of d] assms by simp_all

lemma pad_left_fixed:
  "2 \<le> b \<Longrightarrow> n < b ^ Suc k \<Longrightarrow> pad_left CHR ''0'' (Suc k) (digits False b n) = fixed b (Suc k) n"
proof (induction k arbitrary: n)
  case 0
  then show ?case by (subst digits.simps) (simp add: pad_left_def)
next
  case (Suc k)
  have "n div b < b ^ Suc k" using Suc.prems by (simp add: less_mult_imp_div_less mult.commute)
  from Suc.IH [OF Suc.prems(1) this]
  have IH: "pad_left CHR ''0'' (Suc k) (digits False b (n div b)) = fixed b (Suc k) (n div b)" .
  have "pad_left CHR ''0'' (Suc (Suc k)) (digits False b n)
      = pad_left CHR ''0'' (Suc k) (digits False b (n div b)) @ [digit_char False (n mod b)]"
  proof (cases "n < b")
    case True
    then have "digits False b n = [digit_char False n]" "digits False b (n div b) = [CHR ''0'']"
      using Suc.prems(1) by (simp_all add: digits.simps digit_char_def)
    then show ?thesis using True by (simp add: pad_left_def replicate_append_same)
  next
    case False
    then have "digits False b n = digits False b (n div b) @ [digit_char False (n mod b)]"
      using Suc.prems(1) by (subst digits.simps) simp
    then show ?thesis by (simp add: pad_left_def)
  qed
  then show ?case using IH by simp
qed

end
