(* ===== verification/Timestamp.thy ===== *)
theory Timestamp
  imports Ascii
begin

text \<open>
  \<^verbatim>\<open>protobuf/stubs/time.h\<close> and \<^verbatim>\<open>time.cc\<close>: the conversion between seconds since 1970 and calendar
  dates from the year 1 to 9999, and the RFC 3339 text of a timestamp.

  The numbers are \<open>int\<close>s: after the range checks all of them are far from the bounds of
  \<^verbatim>\<open>int64_t\<close> and \<^verbatim>\<open>int\<close>, and none that is divided is negative. A \<^verbatim>\<open>const char*\<close> into the text is
  the list of the characters that follow, up to the first NUL, where \<^verbatim>\<open>c_str()\<close> ends.
  \<open>OOB\<close> is a read of a table behind its end.
\<close>

section \<open>Calendar\<close>

definition kSecondsPerMinute :: int where "kSecondsPerMinute = 60"
definition kSecondsPerHour :: int where "kSecondsPerHour = 3600"
definition kSecondsPerDay :: int where "kSecondsPerDay = kSecondsPerHour * 24"
definition kSecondsPer400Years :: int where "kSecondsPer400Years = kSecondsPerDay * (400 * 365 + 400 div 4 - 3)"
definition kSecondsFromEraToEpoch :: int where "kSecondsFromEraToEpoch = 62135596800"
definition kMinTime :: int where "kMinTime = - 62135596800"
definition kMaxTime :: int where "kMaxTime = 253402300799"
definition kNanosPerMillisecond :: int where "kNanosPerMillisecond = 1000000"
definition kNanosPerMicrosecond :: int where "kNanosPerMicrosecond = 1000"

lemmas second_defs = kSecondsPerMinute_def kSecondsPerHour_def kSecondsPerDay_def kSecondsPer400Years_def
  kSecondsFromEraToEpoch_def kMinTime_def kMaxTime_def

record DateTime =
  year :: int
  month :: int
  day :: int
  hour :: int
  minute :: int
  second :: int

definition SecondsPer100Years :: "int \<Rightarrow> int" where
  "SecondsPer100Years y =
     (if y mod 400 = 0 \<or> y mod 400 > 300 then kSecondsPerDay * (100 * 365 + 100 div 4)
      else kSecondsPerDay * (100 * 365 + 100 div 4 - 1))"

definition SecondsPer4Years :: "int \<Rightarrow> int" where
  "SecondsPer4Years y =
     (if (y mod 100 = 0 \<or> y mod 100 > 96) \<and> \<not> (y mod 400 = 0 \<or> y mod 400 > 396) then kSecondsPerDay * (4 * 365)
      else kSecondsPerDay * (4 * 365 + 1))"

definition IsLeapYear :: "int \<Rightarrow> bool" where
  "IsLeapYear y \<longleftrightarrow> y mod 400 = 0 \<or> (y mod 4 = 0 \<and> y mod 100 \<noteq> 0)"

definition SecondsPerYear :: "int \<Rightarrow> int" where
  "SecondsPerYear y = kSecondsPerDay * (if IsLeapYear y then 366 else 365)"

definition kDaysInMonth :: "int list" where
  "kDaysInMonth = [0, 31, 28, 31, 30, 31, 30, 31, 31, 30, 31, 30, 31]"

definition SecondsPerMonth :: "int \<Rightarrow> bool \<Rightarrow> int pres" where
  "SecondsPerMonth m leap =
     pbind (rd kDaysInMonth (nat m)) (\<lambda>d.
       if m = 2 \<and> leap then Ok (kSecondsPerDay * (d + 1)) else Ok (kSecondsPerDay * d))"

definition kDaysSinceJan :: "int list" where
  "kDaysSinceJan = [0, 0, 31, 59, 90, 120, 151, 181, 212, 243, 273, 304, 334]"

definition ValidateDateTime :: "DateTime \<Rightarrow> bool" where
  "ValidateDateTime t =
     (if year t < 1 \<or> year t > 9999 \<or> month t < 1 \<or> month t > 12 \<or> day t < 1 \<or> day t > 31
         \<or> hour t < 0 \<or> hour t > 23 \<or> minute t < 0 \<or> minute t > 59 \<or> second t < 0 \<or> second t > 59
      then False
      else if month t = 2 \<and> IsLeapYear (year t) then day t \<le> kDaysInMonth ! nat (month t) + 1
      else day t \<le> kDaysInMonth ! nat (month t))"

text \<open>The loops of \<^verbatim>\<open>SecondsSinceCommonEra\<close>: \<open>y\<close> runs up to the year \<open>last\<close>.\<close>

function era_100 :: "int \<Rightarrow> int \<Rightarrow> int \<Rightarrow> int \<times> int" where
  "era_100 last_year y result =
     (if last_year - y \<ge> 100 then era_100 last_year (y + 100) (result + SecondsPer100Years y) else (y, result))"
  by pat_completeness auto
termination by (relation "measure (\<lambda>(l, y, _). nat (l - y))") auto

function era_4 :: "int \<Rightarrow> int \<Rightarrow> int \<Rightarrow> int \<times> int" where
  "era_4 last_year y result =
     (if last_year - y \<ge> 4 then era_4 last_year (y + 4) (result + SecondsPer4Years y) else (y, result))"
  by pat_completeness auto
termination by (relation "measure (\<lambda>(l, y, _). nat (l - y))") auto

function era_1 :: "int \<Rightarrow> int \<Rightarrow> int \<Rightarrow> int \<times> int" where
  "era_1 last_year y result =
     (if last_year > y then era_1 last_year (y + 1) (result + SecondsPerYear y) else (y, result))"
  by pat_completeness auto
termination by (relation "measure (\<lambda>(l, y, _). nat (l - y))") auto

definition SecondsSinceCommonEra :: "DateTime \<Rightarrow> int" where
  "SecondsSinceCommonEra t =
     (let result = 0; y = 1;
          (y, result) =
            (if year t - y \<ge> 400 then
               let count_400years = (year t - y) div 400
               in (y + count_400years * 400, result + kSecondsPer400Years * count_400years)
             else (y, result));
          (y, result) = era_100 (year t) y result;
          (y, result) = era_4 (year t) y result;
          (y, result) = era_1 (year t) y result;
          m = month t;
          result = result + kSecondsPerDay * kDaysSinceJan ! nat m;
          result = (if m > 2 \<and> IsLeapYear y then result + kSecondsPerDay else result);
          result = result + kSecondsPerDay * (day t - 1)
      in result + (kSecondsPerHour * hour t + kSecondsPerMinute * minute t + second t))"

lemma year_lengths_pos: "SecondsPer100Years y \<ge> 1" "SecondsPer4Years y \<ge> 1" "SecondsPerYear y \<ge> 1"
  by (simp_all add: SecondsPer100Years_def SecondsPer4Years_def SecondsPerYear_def second_defs)

text \<open>The loops of \<^verbatim>\<open>SecondsToDateTime\<close>.\<close>

function date_100 :: "int \<Rightarrow> int \<Rightarrow> int \<times> int" where
  "date_100 y seconds =
     (if seconds \<ge> SecondsPer100Years y then date_100 (y + 100) (seconds - SecondsPer100Years y) else (y, seconds))"
  by pat_completeness auto
termination
proof (relation "measure (\<lambda>(_, s). nat s)")
  fix y s :: int
  assume "SecondsPer100Years y \<le> s"
  then show "((y + 100, s - SecondsPer100Years y), (y, s)) \<in> measure (\<lambda>(_, s). nat s)"
    using year_lengths_pos(1) [of y] by simp
qed simp

function date_4 :: "int \<Rightarrow> int \<Rightarrow> int \<times> int" where
  "date_4 y seconds =
     (if seconds \<ge> SecondsPer4Years y then date_4 (y + 4) (seconds - SecondsPer4Years y) else (y, seconds))"
  by pat_completeness auto
termination
proof (relation "measure (\<lambda>(_, s). nat s)")
  fix y s :: int
  assume "SecondsPer4Years y \<le> s"
  then show "((y + 4, s - SecondsPer4Years y), (y, s)) \<in> measure (\<lambda>(_, s). nat s)"
    using year_lengths_pos(2) [of y] by simp
qed simp

function date_1 :: "int \<Rightarrow> int \<Rightarrow> int \<times> int" where
  "date_1 y seconds =
     (if seconds \<ge> SecondsPerYear y then date_1 (y + 1) (seconds - SecondsPerYear y) else (y, seconds))"
  by pat_completeness auto
termination
proof (relation "measure (\<lambda>(_, s). nat s)")
  fix y s :: int
  assume "SecondsPerYear y \<le> s"
  then show "((y + 1, s - SecondsPerYear y), (y, s)) \<in> measure (\<lambda>(_, s). nat s)"
    using year_lengths_pos(3) [of y] by simp
qed simp

text \<open>The months are looked up in a table of 13 entries, so the loop ends at 13 at the latest.\<close>

function date_month :: "bool \<Rightarrow> int \<Rightarrow> int \<Rightarrow> (int \<times> int) pres" where
  "date_month leap m seconds =
     pbind (SecondsPerMonth m leap) (\<lambda>len.
       if seconds \<ge> len then date_month leap (m + 1) (seconds - len) else Ok (m, seconds))"
  by pat_completeness auto
termination
proof (relation "measure (\<lambda>(_, m, _). nat (13 - m))")
  fix leap :: bool and m s x :: int
  assume "SecondsPerMonth m leap = Ok x" "x \<le> s"
  then have "nat m < 13" by (auto simp: SecondsPerMonth_def rd_def kDaysInMonth_def pbind_eq_Ok split: if_splits)
  then show "((leap, m + 1, s - x), leap, m, s) \<in> measure (\<lambda>(_, m, _). nat (13 - m))" by simp
qed simp

declare era_100.simps [simp del] era_4.simps [simp del] era_1.simps [simp del]
  date_100.simps [simp del] date_4.simps [simp del] date_1.simps [simp del] date_month.simps [simp del]

text \<open>\<open>Ok None\<close>: the function returns false.\<close>

definition SecondsToDateTime :: "int \<Rightarrow> DateTime option pres" where
  "SecondsToDateTime seconds =
     (if seconds < kMinTime \<or> seconds > kMaxTime then Ok None
      else
        let seconds = seconds + kSecondsFromEraToEpoch;
            y = 1;
            (y, seconds) =
              (if seconds \<ge> kSecondsPer400Years then
                 let count_400years = seconds div kSecondsPer400Years
                 in (y + 400 * count_400years, seconds mod kSecondsPer400Years)
               else (y, seconds));
            (y, seconds) = date_100 y seconds;
            (y, seconds) = date_4 y seconds;
            (y, seconds) = date_1 y seconds;
            leap = IsLeapYear y
        in pbind (date_month leap 1 seconds) (\<lambda>(m, seconds).
             let d = 1 + seconds div kSecondsPerDay; seconds = seconds mod kSecondsPerDay;
                 h = seconds div kSecondsPerHour; seconds = seconds mod kSecondsPerHour;
                 mi = seconds div kSecondsPerMinute; seconds = seconds mod kSecondsPerMinute
             in Ok (Some \<lparr>year = y, month = m, day = d, hour = h, minute = mi, second = seconds\<rparr>)))"

definition DateTimeToSeconds :: "DateTime \<Rightarrow> int option" where
  "DateTimeToSeconds t =
     (if \<not> ValidateDateTime t then None else Some (SecondsSinceCommonEra t - kSecondsFromEraToEpoch))"

section \<open>Text\<close>

text \<open>\<^verbatim>\<open>"%0Nd"\<close> of a number that is not negative.\<close>

definition padded :: "nat \<Rightarrow> int \<Rightarrow> string" where
  "padded w n = pad_left CHR ''0'' w (digits False 10 (nat n))"

definition FormatNanos :: "int \<Rightarrow> string" where
  "FormatNanos nanos =
     (if nanos mod kNanosPerMillisecond = 0 then padded 3 (nanos div kNanosPerMillisecond)
      else if nanos mod kNanosPerMicrosecond = 0 then padded 6 (nanos div kNanosPerMicrosecond)
      else padded 9 nanos)"

fun parse_digits :: "nat \<Rightarrow> string \<Rightarrow> int \<Rightarrow> int \<times> string" where
  "parse_digits 0 data v = (v, data)"
| "parse_digits (Suc n) data v =
     (if ascii_isdigit (deref data) then parse_digits n (tl data) (v * 10 + (of_char (deref data) - 48)) else (v, data))"

definition ParseInt :: "string \<Rightarrow> nat \<Rightarrow> int \<Rightarrow> int \<Rightarrow> (int \<times> string) option" where
  "ParseInt data width min_value max_value =
     (if \<not> ascii_isdigit (deref data) then None
      else let (v, data) = parse_digits width data 0
           in if v \<ge> min_value \<and> v \<le> max_value then Some (v, data) else None)"

fun nanos_digits :: "string \<Rightarrow> int \<Rightarrow> nat \<Rightarrow> int \<times> nat \<times> string" where
  "nanos_digits [] v len = (v, len, [])"
| "nanos_digits (c # data) v len =
     (if ascii_isdigit c then nanos_digits data (if len < 9 then v * 10 + of_char c - 48 else v) (Suc len)
      else (v, len, c # data))"

definition ParseNanos :: "string \<Rightarrow> (int \<times> string) option" where
  "ParseNanos data =
     (if \<not> ascii_isdigit (deref data) then None
      else let (v, len, data) = nanos_digits data 0 0 in Some (((\<lambda>v. v * 10) ^^ (9 - len)) v, data))"

text \<open>\<^verbatim>\<open>if (*data++ != c) return false\<close>\<close>

definition expect :: "char \<Rightarrow> string \<Rightarrow> string option" where
  "expect c data = (if deref data = c then Some (tl data) else None)"

definition ParseTimezoneOffset :: "string \<Rightarrow> (int \<times> string) option" where
  "ParseTimezoneOffset data =
     Option.bind (ParseInt data 2 0 23) (\<lambda>(h, data).
     Option.bind (expect CHR '':'' data) (\<lambda>data.
     Option.bind (ParseInt data 2 0 59) (\<lambda>(m, data).
       Some ((h * 60 + m) * 60, data))))"

definition FormatTime :: "int \<Rightarrow> int \<Rightarrow> string pres" where
  "FormatTime seconds nanos =
     (if nanos < 0 \<or> nanos > 999999999 then Ok ''InvalidTime''
      else pbind (SecondsToDateTime seconds) (\<lambda>r. case r of
          None \<Rightarrow> Ok ''InvalidTime''
        | Some t \<Rightarrow>
            let result = padded 4 (year t) @ ''-'' @ padded 2 (month t) @ ''-'' @ padded 2 (day t) @ ''T''
                  @ padded 2 (hour t) @ '':'' @ padded 2 (minute t) @ '':'' @ padded 2 (second t);
                result = (if nanos \<noteq> 0 then result @ ''.'' @ FormatNanos nanos else result)
            in Ok (result @ ''Z'')))"

text \<open>\<open>None\<close>: the function returns false (what it may have written by then is not read).\<close>

definition ParseTime :: "string \<Rightarrow> (int \<times> int) option" where
  "ParseTime value =
     (let data = c_str value in
     Option.bind (ParseInt data 4 1 9999) (\<lambda>(y, data).
     Option.bind (expect CHR ''-'' data) (\<lambda>data.
     Option.bind (ParseInt data 2 1 12) (\<lambda>(mo, data).
     Option.bind (expect CHR ''-'' data) (\<lambda>data.
     Option.bind (ParseInt data 2 1 31) (\<lambda>(d, data).
     Option.bind (expect CHR ''T'' data) (\<lambda>data.
     Option.bind (ParseInt data 2 0 23) (\<lambda>(h, data).
     Option.bind (expect CHR '':'' data) (\<lambda>data.
     Option.bind (ParseInt data 2 0 59) (\<lambda>(mi, data).
     Option.bind (expect CHR '':'' data) (\<lambda>data.
     Option.bind (ParseInt data 2 0 59) (\<lambda>(s, data).
     Option.bind (DateTimeToSeconds \<lparr>year = y, month = mo, day = d, hour = h, minute = mi, second = s\<rparr>) (\<lambda>seconds.
     Option.bind (if deref data = CHR ''.'' then ParseNanos (tl data) else Some (0, data)) (\<lambda>(nanos, data).
     Option.bind
       (if deref data = CHR ''Z'' then Some (seconds, tl data)
        else if deref data = CHR ''+'' then
          Option.bind (ParseTimezoneOffset (tl data)) (\<lambda>(offset, data). Some (seconds - offset, data))
        else if deref data = CHR ''-'' then
          Option.bind (ParseTimezoneOffset (tl data)) (\<lambda>(offset, data). Some (seconds + offset, data))
        else None) (\<lambda>(seconds, data).
     if deref data = NUL then Some (seconds, nanos) else None)))))))))))))))"

section \<open>Years and months as day counts\<close>

text \<open>The days before the first of January of year \<open>y\<close>, counted from the year 1.\<close>

definition days_before :: "int \<Rightarrow> int" where
  "days_before y = 365 * (y - 1) + (y - 1) div 4 - (y - 1) div 100 + (y - 1) div 400"

lemma div_shift:
  fixes x k m :: int
  assumes "0 \<le> k" and "k \<le> m" and "0 < m"
  shows "(x + k) div m = x div m + (if m - k \<le> x mod m then 1 else 0)"
proof -
  have "x + k = x mod m + k + m * (x div m)" using mult_div_mod_eq [of m x] by linarith
  then have "(x + k) div m = x div m + (x mod m + k) div m"
    using assms(3) by (metis div_mult_self2 less_irrefl)
  moreover have "(x mod m + k) div m = (if m - k \<le> x mod m then 1 else 0)"
  proof (cases "m - k \<le> x mod m")
    case True
    have "x mod m < m" using assms(3) by simp
    then have "0 \<le> x mod m + k - m" "x mod m + k - m < m" using True assms by linarith+
    then have "(x mod m + k) div m = 1"
      by (intro int_div_pos_eq [of _ m 1 "x mod m + k - m"]) linarith+
    then show ?thesis using True by simp
  next
    case False
    then show ?thesis using pos_mod_sign [OF assms(3), of x] assms by (simp add: div_pos_pos_trivial)
  qed
  ultimately show ?thesis by simp
qed

lemma mod_succ:
  fixes y m :: int
  assumes "1 < m"
  shows "y mod m = (if (y - 1) mod m = m - 1 then 0 else (y - 1) mod m + 1)"
proof (cases "(y - 1) mod m = m - 1")
  case True
  have "y mod m = ((y - 1) mod m + 1) mod m" by (simp add: mod_simps)
  then show ?thesis using True by simp
next
  case False
  have "y mod m = ((y - 1) mod m + 1) mod m" by (simp add: mod_simps)
  moreover have "0 \<le> (y - 1) mod m + 1" "(y - 1) mod m + 1 < m"
  proof -
    have "(y - 1) mod m < m" "0 \<le> (y - 1) mod m" using assms by simp_all
    then show "0 \<le> (y - 1) mod m + 1" "(y - 1) mod m + 1 < m" using False by linarith+
  qed
  ultimately show ?thesis using False by simp
qed

lemma mod_nested:
  fixes x :: int
  shows "x mod 400 mod 100 = x mod 100" "x mod 100 mod 4 = x mod 4"
  by (simp_all add: mod_mod_cancel)

lemma mod_tops:
  fixes x :: int
  shows "x mod 400 = 399 \<Longrightarrow> x mod 100 = 99" "x mod 100 = 99 \<Longrightarrow> x mod 4 = 3"
    "396 \<le> x mod 400 \<Longrightarrow> 96 \<le> x mod 100"
proof -
  show "x mod 400 = 399 \<Longrightarrow> x mod 100 = 99" using mod_nested(1) [of x] by simp
  show "x mod 100 = 99 \<Longrightarrow> x mod 4 = 3" using mod_nested(2) [of x] by simp
  assume "396 \<le> x mod 400"
  moreover have "x mod 400 < 400" by simp
  ultimately have "x mod 400 = 396 \<or> x mod 400 = 397 \<or> x mod 400 = 398 \<or> x mod 400 = 399" by linarith
  then show "96 \<le> x mod 100" using mod_nested(1) [of x] by auto
qed

lemma year_lengths:
  "SecondsPerYear y = kSecondsPerDay * (days_before (y + 1) - days_before y)"
  "SecondsPer4Years y = kSecondsPerDay * (days_before (y + 4) - days_before y)"
  "SecondsPer100Years y = kSecondsPerDay * (days_before (y + 100) - days_before y)"
proof -
  define x a b c where "x = y - 1" and "a = x mod 4" and "b = x mod 100" and "c = x mod 400"
  have r: "0 \<le> a" "a < 4" "0 \<le> b" "b < 100" "0 \<le> c" "c < 400" by (simp_all add: a_def b_def c_def)
  have t: "c = 399 \<Longrightarrow> b = 99" "b = 99 \<Longrightarrow> a = 3" "396 \<le> c \<Longrightarrow> 96 \<le> b"
    using mod_tops [of x] by (simp_all add: a_def b_def c_def)
  have y: "y mod 4 = (if a = 3 then 0 else a + 1)" "y mod 100 = (if b = 99 then 0 else b + 1)"
    "y mod 400 = (if c = 399 then 0 else c + 1)"
    using mod_succ [of 4 y] mod_succ [of 100 y] mod_succ [of 400 y] by (simp_all add: a_def b_def c_def x_def)
  have m: "y mod 4 = 0 \<longleftrightarrow> a = 3" "y mod 100 = 0 \<longleftrightarrow> b = 99" "y mod 400 = 0 \<longleftrightarrow> c = 399"
    "y mod 100 = 0 \<or> y mod 100 > 96 \<longleftrightarrow> 96 \<le> b" "y mod 400 = 0 \<or> y mod 400 > 396 \<longleftrightarrow> 396 \<le> c"
    "y mod 400 = 0 \<or> y mod 400 > 300 \<longleftrightarrow> 300 \<le> c"
    unfolding y using r by (auto split: if_splits)
  have d: "days_before (y + k) = 365 * (x + k) + (x + k) div 4 - (x + k) div 100 + (x + k) div 400" for k
    by (simp add: days_before_def x_def algebra_simps)
  have d0: "days_before y = 365 * x + x div 4 - x div 100 + x div 400" by (simp add: days_before_def x_def)
  note div_shift [of 1 4 x] div_shift [of 1 100 x] div_shift [of 1 400 x]
    div_shift [of 4 4 x] div_shift [of 4 100 x] div_shift [of 4 400 x] div_shift [of 100 100 x] div_shift [of 100 400 x]
  note s = this [folded a_def b_def c_def]
  have "days_before (y + 1) - days_before y = (if IsLeapYear y then 366 else 365)"
    unfolding d d0 IsLeapYear_def m(1-3) using s(1-3) r t by (auto split: if_splits)
  then show "SecondsPerYear y = kSecondsPerDay * (days_before (y + 1) - days_before y)"
    by (simp add: SecondsPerYear_def)
  have "days_before (y + 4) - days_before y
      = (if 96 \<le> b \<and> \<not> 396 \<le> c then 4 * 365 else 4 * 365 + 1)"
    unfolding d d0 using s(4-6) r t by (auto split: if_splits)
  then show "SecondsPer4Years y = kSecondsPerDay * (days_before (y + 4) - days_before y)"
    unfolding SecondsPer4Years_def m(4,5) by simp
  have "(x + 100) div 4 = x div 4 + 25" by simp
  then have "days_before (y + 100) - days_before y = (if 300 \<le> c then 100 * 365 + 100 div 4 else 100 * 365 + 100 div 4 - 1)"
    unfolding d d0 using s(7,8) r by (auto split: if_splits)
  then show "SecondsPer100Years y = kSecondsPerDay * (days_before (y + 100) - days_before y)"
    unfolding SecondsPer100Years_def m(6) by simp
qed

lemma kSecondsPer400Years_eq: "kSecondsPer400Years * c = kSecondsPerDay * (days_before (y + 400 * c) - days_before y)"
proof -
  have "(y - 1 + 400 * c) div 4 = (y - 1) div 4 + 100 * c" "(y - 1 + 400 * c) div 100 = (y - 1) div 100 + 4 * c"
    "(y - 1 + 400 * c) div 400 = (y - 1) div 400 + c"
    by (simp_all add: div_plus_div_distrib_dvd_right)
  then have "days_before (y + 400 * c) - days_before y = 146097 * c" by (simp add: days_before_def algebra_simps)
  then show ?thesis by (simp add: kSecondsPer400Years_def)
qed


definition year_start :: "int \<Rightarrow> int" where
  "year_start y = kSecondsPerDay * days_before y"

lemma year_start_steps:
  "year_start (y + 1) = year_start y + SecondsPerYear y" "year_start (y + 4) = year_start y + SecondsPer4Years y"
  "year_start (y + 100) = year_start y + SecondsPer100Years y"
  "year_start (y + 400 * c) = year_start y + kSecondsPer400Years * c" "year_start 1 = 0"
  by (simp_all add: year_start_def year_lengths kSecondsPer400Years_eq [of c y] algebra_simps)
    (simp add: days_before_def)

lemma year_start_mono: "y < z \<Longrightarrow> year_start (y + 1) \<le> year_start z"
proof -
  have "year_start a \<le> year_start (a + int n)" for a n
  proof (induction n)
    case (Suc n)
    then show ?case using year_start_steps(1) [of "a + int n"] year_lengths_pos(3) [of "a + int n"] by (simp add: algebra_simps)
  qed simp
  from this [of "y + 1" "nat (z - y - 1)"] show "y < z \<Longrightarrow> year_start (y + 1) \<le> year_start z" by simp
qed

text \<open>Days before and in a month.\<close>

definition month_start :: "bool \<Rightarrow> int \<Rightarrow> int" where
  "month_start leap m = kDaysSinceJan ! nat m + (if m > 2 \<and> leap then 1 else 0)"

definition month_days :: "bool \<Rightarrow> int \<Rightarrow> int" where
  "month_days leap m = kDaysInMonth ! nat m + (if m = 2 \<and> leap then 1 else 0)"

lemma months_check:
  "\<forall>leap \<in> set [False, True]. \<forall>m \<in> set [1..12]. 1 \<le> month_days leap m \<and> month_days leap m \<le> 31
     \<and> (m < 12 \<longrightarrow> month_start leap (m + 1) = month_start leap m + month_days leap m)
     \<and> month_start leap 12 + month_days leap 12 = (if leap then 366 else 365) \<and> month_start leap 1 = 0
     \<and> (\<forall>n \<in> set [1..12]. m < n \<longrightarrow> month_start leap m + month_days leap m \<le> month_start leap n)"
  by code_simp

lemma months:
  assumes "1 \<le> m" and "m \<le> 12"
  shows "1 \<le> month_days leap m" "month_days leap m \<le> 31"
    "m < 12 \<Longrightarrow> month_start leap (m + 1) = month_start leap m + month_days leap m"
    "month_start leap 12 + month_days leap 12 = (if leap then 366 else 365)" "month_start leap 1 = 0"
    "m < n \<Longrightarrow> n \<le> 12 \<Longrightarrow> month_start leap m + month_days leap m \<le> month_start leap n"
    "SecondsPerMonth m leap = Ok (kSecondsPerDay * month_days leap m)"
proof -
  have "leap \<in> set [False, True]" "m \<in> set [1..12]" using assms by auto
  note c = bspec [OF bspec [OF months_check this(1)] this(2)]
  then show "1 \<le> month_days leap m" "month_days leap m \<le> 31"
    "m < 12 \<Longrightarrow> month_start leap (m + 1) = month_start leap m + month_days leap m"
    "month_start leap 12 + month_days leap 12 = (if leap then 366 else 365)" "month_start leap 1 = 0"
    by simp_all
  show "month_start leap m + month_days leap m \<le> month_start leap n" if "m < n" "n \<le> 12"
    using c that assms by auto
  have "nat m < 13" using assms by simp
  then show "SecondsPerMonth m leap = Ok (kSecondsPerDay * month_days leap m)"
    by (simp add: SecondsPerMonth_def rd_def month_days_def kDaysInMonth_def)
qed

text \<open>The seconds of a date since the start of the year 1.\<close>

definition era_seconds :: "DateTime \<Rightarrow> int" where
  "era_seconds t = year_start (year t)
     + kSecondsPerDay * (month_start (IsLeapYear (year t)) (month t) + (day t - 1))
     + (kSecondsPerHour * hour t + kSecondsPerMinute * minute t + second t)"

definition date_ok :: "DateTime \<Rightarrow> bool" where
  "date_ok t \<longleftrightarrow> 1 \<le> year t \<and> year t \<le> 9999 \<and> 1 \<le> month t \<and> month t \<le> 12
     \<and> 1 \<le> day t \<and> day t \<le> month_days (IsLeapYear (year t)) (month t)
     \<and> 0 \<le> hour t \<and> hour t \<le> 23 \<and> 0 \<le> minute t \<and> minute t \<le> 59 \<and> 0 \<le> second t \<and> second t \<le> 59"

lemma ValidateDateTime_eq: "ValidateDateTime t = date_ok t"
  using months(2) [of "month t" "IsLeapYear (year t)"]
  by (auto simp: ValidateDateTime_def date_ok_def month_days_def split: if_splits)

lemma era_100_eq: "era_100 l y r = (y', r') \<Longrightarrow> y \<le> l \<Longrightarrow> r' - year_start y' = r - year_start y \<and> y' \<le> l"
proof (induction l y r rule: era_100.induct)
  case (1 l y r)
  then show ?case
    by (subst (asm) (2) era_100.simps) (auto simp: year_start_steps(3) split: if_splits)
qed

lemma era_4_eq: "era_4 l y r = (y', r') \<Longrightarrow> y \<le> l \<Longrightarrow> r' - year_start y' = r - year_start y \<and> y' \<le> l"
proof (induction l y r rule: era_4.induct)
  case (1 l y r)
  then show ?case
    by (subst (asm) (2) era_4.simps) (auto simp: year_start_steps(2) split: if_splits)
qed

lemma era_1_eq: "era_1 l y r = (y', r') \<Longrightarrow> y \<le> l \<Longrightarrow> r' - year_start y' = r - year_start y \<and> y' = l"
proof (induction l y r rule: era_1.induct)
  case (1 l y r)
  then show ?case
    by (subst (asm) (2) era_1.simps) (auto simp: year_start_steps(1) split: if_splits)
qed

lemma SecondsSinceCommonEra_eq:
  assumes "1 \<le> year t"
  shows "SecondsSinceCommonEra t = era_seconds t"
proof -
  define c where "c = (if year t - 1 \<ge> 400 then (year t - 1) div 400 else 0)"
  have c: "1 + 400 * c \<le> year t" unfolding c_def using assms by (auto split: if_splits)
  obtain y1 r1 where 1: "era_100 (year t) (1 + 400 * c) (kSecondsPer400Years * c) = (y1, r1)" by fastforce
  obtain y2 r2 where 2: "era_4 (year t) y1 r1 = (y2, r2)" by fastforce
  obtain y3 r3 where 3: "era_1 (year t) y2 r2 = (y3, r3)" by fastforce
  have r1: "r1 = year_start y1" "y1 \<le> year t" using era_100_eq [OF 1 c] year_start_steps(4) [of 1 c] year_start_steps(5) by simp_all
  then have r2: "r2 = year_start y2" "y2 \<le> year t" using era_4_eq [OF 2] by simp_all
  then have r3: "r3 = year_start (year t)" "y3 = year t" using era_1_eq [OF 3] by simp_all
  have "(if year t - 1 \<ge> 400 then let k = (year t - 1) div 400 in (1 + k * 400, 0 + kSecondsPer400Years * k) else (1, 0))
      = (1 + 400 * c, kSecondsPer400Years * c)"
    by (simp add: c_def Let_def mult.commute)
  then show ?thesis
    unfolding SecondsSinceCommonEra_def Let_def
    using 1 2 3 r3 by (simp add: era_seconds_def month_start_def algebra_simps)
qed


section \<open>Seconds as a date\<close>

lemma year_start_split: "year_start y = year_start (y - 1) + SecondsPerYear (y - 1)"
  using year_start_steps(1) [of "y - 1"] by simp

lemma date_100_eq: "date_100 y s = (y', s') \<Longrightarrow> 0 \<le> s \<Longrightarrow> year_start y' + s' = year_start y + s \<and> 0 \<le> s' \<and> y \<le> y'"
proof (induction y s rule: date_100.induct)
  case (1 y s)
  then show ?case
    by (subst (asm) (2) date_100.simps) (auto simp: year_start_steps(3) split: if_splits)
qed

lemma date_4_eq: "date_4 y s = (y', s') \<Longrightarrow> 0 \<le> s \<Longrightarrow> year_start y' + s' = year_start y + s \<and> 0 \<le> s' \<and> y \<le> y'"
proof (induction y s rule: date_4.induct)
  case (1 y s)
  then show ?case
    by (subst (asm) (2) date_4.simps) (auto simp: year_start_steps(2) split: if_splits)
qed

lemma date_1_eq:
  "date_1 y s = (y', s') \<Longrightarrow> 0 \<le> s \<Longrightarrow> year_start y' + s' = year_start y + s \<and> 0 \<le> s' \<and> y \<le> y' \<and> s' < SecondsPerYear y'"
proof (induction y s rule: date_1.induct)
  case (1 y s)
  then show ?case
    by (subst (asm) (2) date_1.simps) (auto simp: year_start_steps(1) split: if_splits)
qed

lemma date_month_eq:
  assumes "1 \<le> m" and "m \<le> 12" and "0 \<le> s"
    and "kSecondsPerDay * month_start leap m + s < kSecondsPerDay * (if leap then 366 else 365)"
  shows "\<exists>m' s'. date_month leap m s = Ok (m', s') \<and> m \<le> m' \<and> m' \<le> 12 \<and> 0 \<le> s'
    \<and> s' < kSecondsPerDay * month_days leap m'
    \<and> kSecondsPerDay * month_start leap m' + s' = kSecondsPerDay * month_start leap m + s"
  using assms
proof (induction leap m s rule: date_month.induct)
  case (1 leap m s)
  note sm = months(7) [OF 1(2,3), of leap]
  show ?case
  proof (cases "kSecondsPerDay * month_days leap m \<le> s")
    case False
    then show ?thesis using 1(2-4) sm by (subst date_month.simps) auto
  next
    case True
    have "m \<noteq> 12"
    proof
      assume "m = 12"
      then show False using 1(5) True months(4) [of 12 leap] by (auto simp: second_defs split: if_splits)
    qed
    then have m: "m + 1 \<le> 12" "1 \<le> m + 1" "month_start leap (m + 1) = month_start leap m + month_days leap m"
      using months(3) [of m leap] 1(2,3) by auto
    have "\<exists>m' s'. date_month leap (m + 1) (s - kSecondsPerDay * month_days leap m) = Ok (m', s') \<and> m + 1 \<le> m' \<and> m' \<le> 12
      \<and> 0 \<le> s' \<and> s' < kSecondsPerDay * month_days leap m'
      \<and> kSecondsPerDay * month_start leap m' + s'
        = kSecondsPerDay * month_start leap (m + 1) + (s - kSecondsPerDay * month_days leap m)"
      using 1(5) True m by (intro 1(1) [OF sm True]) (simp_all add: algebra_simps)
    then obtain m' s' where *: "date_month leap (m + 1) (s - kSecondsPerDay * month_days leap m) = Ok (m', s')"
      "m + 1 \<le> m'" "m' \<le> 12" "0 \<le> s'" "s' < kSecondsPerDay * month_days leap m'"
      "kSecondsPerDay * month_start leap m' + s'
        = kSecondsPerDay * month_start leap (m + 1) + (s - kSecondsPerDay * month_days leap m)"
      by blast
    then show ?thesis
      using True sm m(3) by (subst date_month.simps) (auto simp: algebra_simps)
  qed
qed


definition year_day :: "DateTime \<Rightarrow> int" where
  "year_day t = month_start (IsLeapYear (year t)) (month t) + (day t - 1)"

definition day_seconds :: "DateTime \<Rightarrow> int" where
  "day_seconds t = kSecondsPerHour * hour t + kSecondsPerMinute * minute t + second t"

lemma kSecondsPerDay_eq: "kSecondsPerDay = 86400"
  by (simp add: second_defs)

lemma date_ok_bounds:
  assumes "date_ok t"
  shows "0 \<le> day_seconds t" "day_seconds t < kSecondsPerDay" "0 \<le> year_day t"
    "year_day t < (if IsLeapYear (year t) then 366 else 365)"
    "era_seconds t = year_start (year t) + kSecondsPerDay * year_day t + day_seconds t"
proof -
  let ?l = "IsLeapYear (year t)" and ?m = "month t"
  have m: "1 \<le> ?m" "?m \<le> 12" "1 \<le> day t" "day t \<le> month_days ?l ?m" using assms by (simp_all add: date_ok_def)
  show "0 \<le> day_seconds t" "day_seconds t < kSecondsPerDay"
    using assms by (simp_all add: date_ok_def day_seconds_def second_defs)
  show "era_seconds t = year_start (year t) + kSecondsPerDay * year_day t + day_seconds t"
    by (simp add: era_seconds_def year_day_def day_seconds_def)
  have "month_start ?l ?m + month_days ?l ?m \<le> month_start ?l 12 + month_days ?l 12"
    using months(6) [of ?m 12 ?l] months(1) [of 12 ?l] m by (cases "?m = 12") auto
  then show "year_day t < (if ?l then 366 else 365)"
    using months(4) [of 12 ?l] m by (simp add: year_day_def)
  have "0 \<le> month_start ?l ?m"
    using months(5) [of 1 ?l] months(6) [of 1 ?m ?l] months(1) [of 1 ?l] m by (cases "?m = 1") auto
  then show "0 \<le> year_day t" using m by (simp add: year_day_def)
qed

lemma date_ok_in_year:
  assumes "date_ok t"
  shows "year_start (year t) \<le> era_seconds t" "era_seconds t < year_start (year t + 1)"
proof -
  show "year_start (year t) \<le> era_seconds t" "era_seconds t < year_start (year t + 1)"
    using date_ok_bounds [OF assms] year_start_steps(1) [of "year t"]
    by (auto simp: SecondsPerYear_def kSecondsPerDay_eq split: if_splits)
qed

lemma era_seconds_inj:
  assumes "date_ok t" and "date_ok u" and "era_seconds t = era_seconds u"
  shows "t = u"
proof -
  have year: "year t = year u"
    using date_ok_in_year [OF assms(1)] date_ok_in_year [OF assms(2)] assms(3)
      year_start_mono [of "year t" "year u"] year_start_mono [of "year u" "year t"] by linarith
  have "year_day t = year_day u"
    using date_ok_bounds(1,2,5) [OF assms(1)] date_ok_bounds(1,2,5) [OF assms(2)] assms(3) year
    unfolding kSecondsPerDay_eq by simp
  then have d: "year_day t = year_day u" "day_seconds t = day_seconds u"
    using date_ok_bounds(5) [OF assms(1)] date_ok_bounds(5) [OF assms(2)] assms(3) year by simp_all
  have m: "1 \<le> month v" "month v \<le> 12" "1 \<le> day v" "day v \<le> month_days (IsLeapYear (year v)) (month v)" if "date_ok v" for v
    using that by (simp_all add: date_ok_def)
  note mt = m [OF assms(1)] and mu = m [OF assms(2)]
  have month: "month t = month u"
    using d(1) months(6) [OF mt(1,2), of "month u" "IsLeapYear (year u)"]
      months(6) [OF mu(1,2), of "month t" "IsLeapYear (year u)"] mt mu
    unfolding year_day_def year by linarith
  then have day: "day t = day u" using d(1) year by (simp add: year_day_def)
  have h: "0 \<le> minute v" "minute v \<le> 59" "0 \<le> second v" "second v \<le> 59"
    "day_seconds v = 3600 * hour v + 60 * minute v + second v" if "date_ok v" for v
    using that by (simp_all add: date_ok_def day_seconds_def second_defs)
  have hour: "hour t = hour u" using d(2) h [OF assms(1)] h [OF assms(2)] by linarith
  then have minute: "minute t = minute u" using d(2) h [OF assms(1)] h [OF assms(2)] by linarith
  then have "second t = second u" using d(2) hour h [OF assms(1)] h [OF assms(2)] by linarith
  with year month day hour minute show "t = u" by simp
qed

lemma era_seconds_range:
  assumes "date_ok t"
  shows "kMinTime + kSecondsFromEraToEpoch \<le> era_seconds t" "era_seconds t \<le> kMaxTime + kSecondsFromEraToEpoch"
proof -
  have y: "1 \<le> year t" "year t \<le> 9999" using assms by (simp_all add: date_ok_def)
  have e: "year_start 1 = 0" "year_start 10000 = kMaxTime + kSecondsFromEraToEpoch + 1"
    by (simp_all add: year_start_def days_before_def second_defs)
  show "kMinTime + kSecondsFromEraToEpoch \<le> era_seconds t"
    using date_ok_in_year [OF assms] year_start_mono [of 1 "year t"] year_start_mono [of 0 "year t"] y e
    by (simp add: second_defs)
  have "year_start (year t + 1) \<le> year_start 10000" using year_start_mono [of "year t" 10000] y by simp
  then show "era_seconds t \<le> kMaxTime + kSecondsFromEraToEpoch" using date_ok_in_year [OF assms] e by simp
qed


lemma date_of_parts:
  assumes "year_start y + s3 = e" and "1 \<le> y" and "y \<le> 9999" and "1 \<le> m" and "m \<le> 12" and "0 \<le> s4"
    and "s4 < kSecondsPerDay * month_days (IsLeapYear y) m" and "kSecondsPerDay * month_start (IsLeapYear y) m + s4 = s3"
  defines "t \<equiv> \<lparr>year = y, month = m, day = 1 + s4 div kSecondsPerDay, hour = s4 mod kSecondsPerDay div kSecondsPerHour,
    minute = s4 mod kSecondsPerDay mod kSecondsPerHour div kSecondsPerMinute,
    second = s4 mod kSecondsPerDay mod kSecondsPerHour mod kSecondsPerMinute\<rparr>"
  shows "date_ok t" "era_seconds t = e"
proof -
  define q r where "q = s4 div 86400" and "r = s4 mod 86400"
  have s4: "s4 = 86400 * q + r" "0 \<le> r" "r < 86400" by (simp_all add: q_def r_def)
  have q: "0 \<le> q" "q < month_days (IsLeapYear y) m"
    using assms(6,7) s4(2,3) unfolding kSecondsPerDay_eq s4(1) by linarith+
  define h u where "h = r div 3600" and "u = r mod 3600"
  have r: "r = 3600 * h + u" "0 \<le> u" "u < 3600" by (simp_all add: h_def u_def)
  define i v where "i = u div 60" and "v = u mod 60"
  have u: "u = 60 * i + v" "0 \<le> v" "v < 60" by (simp_all add: i_def v_def)
  have hi: "0 \<le> h" "h \<le> 23" "0 \<le> i" "i \<le> 59" using r(2,3) s4(2,3) u(2,3) unfolding r(1) u(1) by linarith+
  have t: "t = \<lparr>year = y, month = m, day = 1 + q, hour = h, minute = i, second = v\<rparr>"
    by (simp add: t_def kSecondsPerDay_eq kSecondsPerHour_def kSecondsPerMinute_def q_def r_def h_def u_def i_def v_def)
  show "date_ok t" using assms(2-5) q hi u by (simp add: t date_ok_def)
  show "era_seconds t = e"
    using assms(1,8) s4(1) r(1) u(1)
    by (simp add: t era_seconds_def kSecondsPerDay_eq kSecondsPerHour_def kSecondsPerMinute_def)
qed

lemma SecondsToDateTime_eq:
  assumes "kMinTime \<le> s" and "s \<le> kMaxTime"
  shows "\<exists>t. SecondsToDateTime s = Ok (Some t) \<and> date_ok t \<and> era_seconds t = s + kSecondsFromEraToEpoch"
proof -
  define e c where "e = s + kSecondsFromEraToEpoch"
    and "c = (if kSecondsPer400Years \<le> e then e div kSecondsPer400Years else 0)"
  have e: "0 \<le> e" "e < year_start 10000" using assms by (simp_all add: e_def year_start_def days_before_def second_defs)
  define r where "r = e - kSecondsPer400Years * c"
  have pos: "0 < kSecondsPer400Years" by (simp add: second_defs)
  have first: "(if e \<ge> kSecondsPer400Years then let k = e div kSecondsPer400Years in (1 + 400 * k, e mod kSecondsPer400Years)
      else (1, e)) = (1 + 400 * c, r)"
    by (simp add: c_def r_def Let_def minus_mult_div_eq_mod)
  have r: "0 \<le> r" "0 \<le> c" using e pos pos_mod_sign [OF pos, of e] minus_mult_div_eq_mod [of e kSecondsPer400Years, symmetric]
    by (simp_all add: r_def c_def pos_imp_zdiv_nonneg_iff)
  have r_eq: "year_start (1 + 400 * c) + r = e" using year_start_steps(4) [of 1 c] year_start_steps(5) by (simp add: r_def)
  obtain y1 s1 where 1: "date_100 (1 + 400 * c) r = (y1, s1)" by fastforce
  obtain y2 s2 where 2: "date_4 y1 s1 = (y2, s2)" by fastforce
  obtain y3 s3 where 3: "date_1 y2 s2 = (y3, s3)" by fastforce
  have "year_start y1 + s1 = e" "0 \<le> s1" "1 \<le> y1" using date_100_eq [OF 1 r(1)] r_eq r(2) by simp_all
  then have "year_start y2 + s2 = e" "0 \<le> s2" "1 \<le> y2" using date_4_eq [OF 2] by simp_all
  then have y3: "year_start y3 + s3 = e" "0 \<le> s3" "1 \<le> y3" "s3 < SecondsPerYear y3"
    using date_1_eq [OF 3] by simp_all
  have "y3 \<le> 9999" using year_start_mono [of 9999 y3] y3 e(2) by (cases "y3 \<le> 9999") simp_all
  note y3 = y3 this
  define leap where "leap = IsLeapYear y3"
  have "kSecondsPerDay * month_start leap 1 + s3 < kSecondsPerDay * (if leap then 366 else 365)"
    using y3(4) months(5) [of 1 leap] by (simp add: SecondsPerYear_def leap_def)
  from date_month_eq [OF _ _ y3(2) this] months(5) [of 1 leap]
  obtain m s4 where 4: "date_month leap 1 s3 = Ok (m, s4)" and m: "1 \<le> m" "m \<le> 12" "0 \<le> s4"
      "s4 < kSecondsPerDay * month_days leap m" "kSecondsPerDay * month_start leap m + s4 = s3"
    by auto
  define t where "t = \<lparr>year = y3, month = m, day = 1 + s4 div kSecondsPerDay, hour = s4 mod kSecondsPerDay div kSecondsPerHour,
    minute = s4 mod kSecondsPerDay mod kSecondsPerHour div kSecondsPerMinute,
    second = s4 mod kSecondsPerDay mod kSecondsPerHour mod kSecondsPerMinute\<rparr>"
  have "SecondsToDateTime s = Ok (Some t)"
    unfolding SecondsToDateTime_def using assms
    by (simp add: e_def [symmetric] first 1 2 3 Let_def leap_def [symmetric] 4 t_def)
  moreover have "date_ok t \<and> era_seconds t = e"
    using date_of_parts [OF y3(1,3,5) m [unfolded leap_def]] by (simp add: t_def)
  ultimately show ?thesis by (auto simp: e_def)
qed


section \<open>Dates and seconds are the same thing\<close>

lemma DateTimeToSeconds_eq: "DateTimeToSeconds t = (if date_ok t then Some (era_seconds t - kSecondsFromEraToEpoch) else None)"
proof (cases "date_ok t")
  case True
  then have "1 \<le> year t" by (simp add: date_ok_def)
  with True show ?thesis by (simp add: DateTimeToSeconds_def ValidateDateTime_eq SecondsSinceCommonEra_eq)
qed (simp add: DateTimeToSeconds_def ValidateDateTime_eq)

text \<open>
  C24: the two conversions are inverse to each other: every time from 0001-01-01 to 9999-12-31 is a
  date that the validity check accepts and that converts back to it, every accepted date is a time of
  that range that converts back to it, and the table of month lengths is never read behind its end.
\<close>

theorem calendar_bijection:
  "(SecondsToDateTime s = Ok (Some t) \<longleftrightarrow> DateTimeToSeconds t = Some s)
   \<and> (SecondsToDateTime s = Ok None \<longleftrightarrow> s < kMinTime \<or> s > kMaxTime)
   \<and> (\<exists>r. SecondsToDateTime s = Ok r)"
proof (intro conjI)
  show 2: "\<exists>r. SecondsToDateTime s = Ok r"
    using SecondsToDateTime_eq [of s] by (cases "s < kMinTime \<or> s > kMaxTime") (auto simp: SecondsToDateTime_def not_less)
  show 3: "SecondsToDateTime s = Ok None \<longleftrightarrow> s < kMinTime \<or> s > kMaxTime"
    using SecondsToDateTime_eq [of s] by (cases "s < kMinTime \<or> s > kMaxTime") (auto simp: SecondsToDateTime_def not_less)
  show "SecondsToDateTime s = Ok (Some t) \<longleftrightarrow> DateTimeToSeconds t = Some s"
  proof
    assume *: "SecondsToDateTime s = Ok (Some t)"
    then have "kMinTime \<le> s" "s \<le> kMaxTime" by (auto simp: SecondsToDateTime_def split: if_splits)
    from SecondsToDateTime_eq [OF this] * show "DateTimeToSeconds t = Some s" by (auto simp: DateTimeToSeconds_eq)
  next
    assume "DateTimeToSeconds t = Some s"
    then have t: "date_ok t" "era_seconds t = s + kSecondsFromEraToEpoch"
      by (auto simp: DateTimeToSeconds_eq split: if_splits)
    then have "kMinTime \<le> s" "s \<le> kMaxTime" using era_seconds_range [OF t(1)] by simp_all
    from SecondsToDateTime_eq [OF this] era_seconds_inj t show "SecondsToDateTime s = Ok (Some t)" by metis
  qed
qed


section \<open>The text of a time reads back\<close>

lemma padded_fixed: "0 \<le> n \<Longrightarrow> n < 10 ^ w \<Longrightarrow> 0 < w \<Longrightarrow> padded w n = fixed 10 w (nat n)"
  using pad_left_fixed [of 10 "nat n" "w - 1"] by (simp add: padded_def nat_less_iff)

lemma parse_digits_append:
  "parse_digits (k + j) (fixed 10 k n @ rest) v = parse_digits j rest (v * 10 ^ k + int (n mod 10 ^ k))"
proof (induction k arbitrary: n rest j)
  case (Suc k)
  have "n mod 10 ^ Suc k = 10 * (n div 10 mod 10 ^ k) + n mod 10"
    by (simp add: mod_mult2_eq)
  then show ?case
    using Suc.IH [of "Suc j" "n div 10" "digit_char False (n mod 10) # rest"] digit_char_digit [of "n mod 10"]
    by (simp add: deref_def algebra_simps)
qed simp

lemma ParseInt_padded:
  assumes "0 \<le> n" and "n < 10 ^ w" and "0 < w" and "a \<le> n" and "n \<le> b"
  shows "ParseInt (padded w n @ rest) w a b = Some (n, rest)"
proof -
  have "nat n mod 10 ^ w = nat n" using assms(1,2) by (simp add: nat_less_iff)
  then have d: "parse_digits w (fixed 10 w (nat n) @ rest) 0 = (n, rest)"
    using parse_digits_append [of w 0 "nat n" rest 0] assms(1) by simp
  obtain k where k: "w = Suc k" using assms(3) by (cases w) auto
  have "ascii_isdigit (deref (fixed 10 w m @ r))" for m r
    unfolding k by (induction k arbitrary: m r) (use digit_char_digit(1) in \<open>auto simp: deref_def\<close>)
  then show ?thesis using d assms padded_fixed [OF assms(1-3)] by (simp add: ParseInt_def)
qed

lemma nanos_digits_append:
  "len + k \<le> 9 \<Longrightarrow> nanos_digits (fixed 10 k n @ rest) v len
    = nanos_digits rest (v * 10 ^ k + int (n mod 10 ^ k)) (len + k)"
proof (induction k arbitrary: n rest)
  case (Suc k)
  have "n mod 10 ^ Suc k = 10 * (n div 10 mod 10 ^ k) + n mod 10"
    by (simp add: mod_mult2_eq)
  then show ?case
    using Suc.IH [of "n div 10" "digit_char False (n mod 10) # rest"] Suc.prems digit_char_digit [of "n mod 10"]
    by (simp add: algebra_simps)
qed simp

lemma scale: "((\<lambda>v. v * 10) ^^ k) (v :: int) = v * 10 ^ k"
  by (induction k) simp_all

lemma ParseNanos_fixed:
  assumes "0 \<le> n" and "n < 10 ^ w" and "0 < w" and "w \<le> 9" and "\<not> ascii_isdigit (deref rest)"
  shows "ParseNanos (padded w n @ rest) = Some (n * 10 ^ (9 - w), rest)"
proof -
  have "nat n mod 10 ^ w = nat n" using assms(1,2) by (simp add: nat_less_iff)
  moreover have "nanos_digits rest v len = (v, len, rest)" for v len
    using assms(5) by (cases rest) (simp_all add: deref_def)
  ultimately have d: "nanos_digits (fixed 10 w (nat n) @ rest) 0 0 = (n, w, rest)"
    using nanos_digits_append [of 0 w "nat n" rest 0] assms(1,4) by simp
  obtain k where k: "w = Suc k" using assms(3) by (cases w) auto
  have "ascii_isdigit (deref (fixed 10 w m @ r))" for m r
    unfolding k by (induction k arbitrary: m r) (use digit_char_digit(1) in \<open>auto simp: deref_def\<close>)
  then show ?thesis using d padded_fixed [OF assms(1-3)] by (simp add: ParseNanos_def scale)
qed


lemma fixed_no_nul: "NUL \<notin> set (fixed 10 k n)"
proof (induction k arbitrary: n)
  case (Suc k)
  have "digit_char False (n mod 10) \<noteq> NUL"
    using digit_char_digit(1) [of "n mod 10"] by (auto simp: ascii_isdigit_def)
  then show ?case using Suc.IH by auto
qed simp

lemma padded_no_nul: "0 \<le> n \<Longrightarrow> n < 10 ^ w \<Longrightarrow> 0 < w \<Longrightarrow> NUL \<notin> set (padded w n)"
  by (simp add: padded_fixed fixed_no_nul)

definition time_text :: "DateTime \<Rightarrow> int \<Rightarrow> string" where
  "time_text t nanos = padded 4 (year t) @ CHR ''-'' # padded 2 (month t) @ CHR ''-'' # padded 2 (day t) @ CHR ''T''
     # padded 2 (hour t) @ CHR '':'' # padded 2 (minute t) @ CHR '':'' # padded 2 (second t)
     @ (if nanos = 0 then ''Z'' else CHR ''.'' # FormatNanos nanos @ ''Z'')"

lemma FormatTime_eq:
  assumes "0 \<le> nanos" and "nanos \<le> 999999999"
  shows "SecondsToDateTime s = Ok (Some t) \<Longrightarrow> FormatTime s nanos = Ok (time_text t nanos)"
    "SecondsToDateTime s = Ok None \<Longrightarrow> FormatTime s nanos = Ok ''InvalidTime''"
  using assms by (simp_all add: FormatTime_def time_text_def)

lemma nanos_parts:
  assumes "0 \<le> n" and "n \<le> 999999999"
  shows "ParseNanos (FormatNanos n @ ''Z'') = Some (n, ''Z'')" "NUL \<notin> set (FormatNanos n)"
proof -
  have z: "\<not> ascii_isdigit (deref ''Z'')" by code_simp
  have p: "n mod 1000000 = 0 \<Longrightarrow> n div 1000000 * 1000000 = n" "n mod 1000 = 0 \<Longrightarrow> n div 1000 * 1000 = n"
    by auto
  show "ParseNanos (FormatNanos n @ ''Z'') = Some (n, ''Z'')"
    using ParseNanos_fixed [OF _ _ _ _ z, of "n div 1000000" 3] ParseNanos_fixed [OF _ _ _ _ z, of "n div 1000" 6]
      ParseNanos_fixed [OF _ _ _ _ z, of n 9] assms p
    by (auto simp: FormatNanos_def kNanosPerMillisecond_def kNanosPerMicrosecond_def)
  show "NUL \<notin> set (FormatNanos n)"
    using padded_no_nul [of "n div 1000000" 3] padded_no_nul [of "n div 1000" 6] padded_no_nul [of n 9] assms
    by (auto simp: FormatNanos_def kNanosPerMillisecond_def kNanosPerMicrosecond_def)
qed

lemma date_ok_fields:
  assumes "date_ok t"
  shows "1 \<le> year t" "year t \<le> 9999" "1 \<le> month t" "month t \<le> 12" "1 \<le> day t" "day t \<le> 31"
    "0 \<le> hour t" "hour t \<le> 23" "0 \<le> minute t" "minute t \<le> 59" "0 \<le> second t" "second t \<le> 59"
  using assms months(2) [of "month t" "IsLeapYear (year t)"] by (auto simp: date_ok_def)

lemma time_text_no_nul:
  assumes "date_ok t" and "0 \<le> n" and "n \<le> 999999999"
  shows "NUL \<notin> set (time_text t n)"
  using date_ok_fields [OF assms(1)] nanos_parts(2) [OF assms(2,3)]
    padded_no_nul [of "year t" 4] padded_no_nul [of "month t" 2] padded_no_nul [of "day t" 2]
    padded_no_nul [of "hour t" 2] padded_no_nul [of "minute t" 2] padded_no_nul [of "second t" 2]
  by (simp add: time_text_def)

lemma expect_Cons [simp]: "expect c (c # data) = Some data"
  by (simp add: expect_def)

lemma ParseTime_time_text:
  assumes "date_ok t" and "0 \<le> n" and "n \<le> 999999999"
  shows "ParseTime (time_text t n) = Some (era_seconds t - kSecondsFromEraToEpoch, n)"
proof -
  note f = date_ok_fields [OF assms(1)]
  have whole: "c_str (time_text t n) = time_text t n"
    using time_text_no_nul [OF assms] by (rule c_str_id)
  have p: "ParseInt (padded 4 (year t) @ r) 4 1 9999 = Some (year t, r)"
    "ParseInt (padded 2 (month t) @ r) 2 1 12 = Some (month t, r)"
    "ParseInt (padded 2 (day t) @ r) 2 1 31 = Some (day t, r)"
    "ParseInt (padded 2 (hour t) @ r) 2 0 23 = Some (hour t, r)"
    "ParseInt (padded 2 (minute t) @ r) 2 0 59 = Some (minute t, r)"
    "ParseInt (padded 2 (second t) @ r) 2 0 59 = Some (second t, r)" for r
    using f by (auto intro!: ParseInt_padded)
  have d: "DateTimeToSeconds \<lparr>year = year t, month = month t, day = day t, hour = hour t, minute = minute t, second = second t\<rparr>
      = Some (era_seconds t - kSecondsFromEraToEpoch)"
    using assms(1) by (cases t) (simp add: DateTimeToSeconds_eq)
  show ?thesis
  proof (cases "n = 0")
    case True
    then show ?thesis unfolding ParseTime_def whole Let_def by (simp add: time_text_def p d)
  next
    case False
    then show ?thesis unfolding ParseTime_def whole Let_def
      by (simp add: time_text_def p d nanos_parts(1) [OF assms(2,3)])
  qed
qed


text \<open>
  C25: the text that \<^verbatim>\<open>FormatTime\<close> writes of a time in the years 1 to 9999 is read back by
  \<^verbatim>\<open>ParseTime\<close> as the same seconds and nanoseconds.
\<close>

theorem time_text_roundtrip:
  assumes "kMinTime \<le> s" and "s \<le> kMaxTime" and "0 \<le> n" and "n \<le> 999999999"
  shows "\<exists>txt. FormatTime s n = Ok txt \<and> ParseTime txt = Some (s, n)"
proof -
  obtain t where t: "SecondsToDateTime s = Ok (Some t)" "date_ok t" "era_seconds t = s + kSecondsFromEraToEpoch"
    using SecondsToDateTime_eq [OF assms(1,2)] by blast
  then show ?thesis
    using FormatTime_eq(1) [OF assms(3,4) t(1)] ParseTime_time_text [OF t(2) assms(3,4)] by simp
qed

theorem time_text_roundtrip_witness: "\<exists>txt. FormatTime 1700000000 5000 = Ok txt \<and> ParseTime txt = Some (1700000000, 5000)"
  by (rule time_text_roundtrip) (simp_all add: second_defs)

section \<open>What is accepted\<close>

lemma digit_value: "ascii_isdigit c \<Longrightarrow> 0 \<le> (of_char c :: int) - 48 \<and> (of_char c :: int) - 48 \<le> 9"
  unfolding ascii_isdigit_def by linarith

lemma ParseInt_bounds: "ParseInt data w a b = Some (v, r) \<Longrightarrow> a \<le> v \<and> v \<le> b"
  by (auto simp: ParseInt_def split: if_splits prod.splits)

lemma DateTimeToSeconds_bounds: "DateTimeToSeconds t = Some s \<Longrightarrow> kMinTime \<le> s \<and> s \<le> kMaxTime"
  using era_seconds_range [of t] by (auto simp: DateTimeToSeconds_eq split: if_splits)

lemma ParseTimezoneOffset_bounds: "ParseTimezoneOffset data = Some (v, r) \<Longrightarrow> 0 \<le> v \<and> v \<le> 86340"
  by (auto simp: ParseTimezoneOffset_def bind_eq_Some_conv dest!: ParseInt_bounds split: prod.splits)

lemma nanos_digits_bounds:
  "nanos_digits data v len = (v', len', r) \<Longrightarrow> 0 \<le> v \<Longrightarrow> v < 10 ^ min len 9 \<Longrightarrow> 0 \<le> v' \<and> v' < 10 ^ min len' 9"
proof (induction data v len rule: nanos_digits.induct)
  case (2 c data v len)
  show ?case
  proof (cases "ascii_isdigit c")
    case True
    define v1 where "v1 = (if len < 9 then v * 10 + of_char c - 48 else v)"
    have "0 \<le> v1 \<and> v1 < 10 ^ min (Suc len) 9"
      using digit_value [OF True] 2(3,4) by (cases "len < 9") (simp_all add: v1_def)
    then show ?thesis using 2(1) [OF True, folded v1_def] 2(2) True by (simp add: v1_def [symmetric])
  qed (use 2 in auto)
qed auto

lemma ParseNanos_bounds:
  assumes "ParseNanos data = Some (v, r)"
  shows "0 \<le> v \<and> v \<le> 999999999"
proof -
  obtain x len r' where x: "nanos_digits data 0 0 = (x, len, r')" by (metis prod_cases3)
  then have v: "v = x * 10 ^ (9 - len)" using assms by (auto simp: ParseNanos_def scale split: if_splits)
  have b: "0 \<le> x" "x < 10 ^ min len 9" using nanos_digits_bounds [OF x] by auto
  have "x * 10 ^ (9 - len) < 10 ^ min len 9 * 10 ^ (9 - len)" using b(2) by simp
  also have "\<dots> = 10 ^ (min len 9 + (9 - len))" by (simp add: power_add)
  also have "min len 9 + (9 - len) = 9" by simp
  finally show ?thesis using b(1) v by simp
qed

text \<open>
  A time that \<^verbatim>\<open>ParseTime\<close> accepts has nanoseconds below a second and is off the range of
  \<^verbatim>\<open>FormatTime\<close> by less than a day. Off the range it can be: the range is checked before the UTC
  offset is applied, so an accepted text may name a time that cannot be written again.
\<close>

theorem parse_time_bounds:
  "(ParseTime txt = Some (s, n) \<longrightarrow> 0 \<le> n \<and> n \<le> 999999999 \<and> kMinTime - 86340 \<le> s \<and> s \<le> kMaxTime + 86340)
   \<and> (\<exists>s. ParseTime ''9999-12-31T23:59:59-00:01'' = Some (s, 0) \<and> FormatTime s 0 = Ok ''InvalidTime'')"
proof (intro conjI impI)
  assume "ParseTime txt = Some (s, n)"
  then show "0 \<le> n" "n \<le> 999999999" "kMinTime - 86340 \<le> s" "s \<le> kMaxTime + 86340"
    unfolding ParseTime_def Let_def
    by (auto simp: bind_eq_Some_conv dest!: DateTimeToSeconds_bounds ParseNanos_bounds ParseTimezoneOffset_bounds
        split: prod.splits if_splits)
next
  have "ParseTime ''9999-12-31T23:59:59-00:01'' = Some (253402300859, 0)" by code_simp
  moreover have "FormatTime 253402300859 0 = Ok ''InvalidTime''" by code_simp
  ultimately show "\<exists>s. ParseTime ''9999-12-31T23:59:59-00:01'' = Some (s, 0) \<and> FormatTime s 0 = Ok ''InvalidTime''"
    by blast
qed

theorem parse_time_bounds_witness:
  "\<exists>s n. ParseTime ''2015-05-20T13:29:35.120-08:00'' = Some (s, n) \<and> 0 \<le> n \<and> n \<le> 999999999
     \<and> kMinTime - 86340 \<le> s \<and> s \<le> kMaxTime + 86340"
proof -
  have "ParseTime ''2015-05-20T13:29:35.120-08:00'' = Some (1432157375, 120000000)" by code_simp
  with parse_time_bounds [of "''2015-05-20T13:29:35.120-08:00''"] show ?thesis by blast
qed

end
