(* ===== verification/Escape.thy ===== *)
theory Escape
  imports Ascii
begin

text \<open>
  The C escapes of \<^verbatim>\<open>protobuf/stubs/strutil.cc\<close>. A \<^verbatim>\<open>char*\<close> into the source is the list of the
  characters that follow. The result of writing into a buffer is \<open>Ok\<close> with the characters written,
  \<open>Null\<close> where the code returns -1, \<open>OOB\<close> for a write behind the buffer. The block that is
  switched off by \<^verbatim>\<open>#if 0\<close> (Unicode escapes) and the logging, which is always off, are left out.
\<close>

section \<open>Escaping\<close>

text \<open>The cases of the \<^verbatim>\<open>switch\<close> with a two-letter escape.\<close>

definition escape_letter :: "char \<Rightarrow> char option" where
  "escape_letter = map_of
     [(CHR 0x0A, CHR ''n''), (CHR 0x0D, CHR ''r''), (CHR 0x09, CHR ''t''), (CHR 0x22, CHR 0x22),
      (CHR 0x27, CHR 0x27), (backslash, backslash)]"

text \<open>\<^verbatim>\<open>sprintf(dest + used, use_hex ? "\x%02x" : "\%03o", (uint8_t)c)\<close>, with the backslashes single.\<close>

definition escape_code :: "bool \<Rightarrow> char \<Rightarrow> string" where
  "escape_code use_hex c =
     (if use_hex then backslash # CHR ''x'' # pad_left CHR ''0'' 2 (digits False 16 (nat (code c)))
      else backslash # pad_left CHR ''0'' 3 (digits False 8 (nat (code c))))"

text \<open>\<open>out\<close> holds the \<^verbatim>\<open>used\<close> characters of \<^verbatim>\<open>dest\<close>. \<^verbatim>\<open>sprintf\<close> ends what it writes with a NUL,
  a fifth character.\<close>

fun cescape_loop :: "bool \<Rightarrow> bool \<Rightarrow> int \<Rightarrow> string \<Rightarrow> string \<Rightarrow> bool \<Rightarrow> string pres" where
  "cescape_loop use_hex utf8_safe dest_len [] out last_hex_escape =
     (if dest_len - int (length out) < 1 then Null else Ok out)"
| "cescape_loop use_hex utf8_safe dest_len (c # src) out last_hex_escape =
     (if dest_len - int (length out) < 2 then Null
      else case escape_letter c of
          Some e \<Rightarrow> cescape_loop use_hex utf8_safe dest_len src (out @ [backslash, e]) False
        | None \<Rightarrow>
            if (\<not> utf8_safe \<or> code c < 128) \<and> (\<not> isprint c \<or> (last_hex_escape \<and> isxdigit c)) then
              if dest_len - int (length out) < 4 then Null
              else if dest_len - int (length out) < 5 then OOB
              else cescape_loop use_hex utf8_safe dest_len src (out @ escape_code use_hex c) use_hex
            else cescape_loop use_hex utf8_safe dest_len src (out @ [c]) False)"

definition CEscapeInternal :: "string \<Rightarrow> int \<Rightarrow> bool \<Rightarrow> bool \<Rightarrow> string pres" where
  "CEscapeInternal src dest_len use_hex utf8_safe = cescape_loop use_hex utf8_safe dest_len src [] False"

text \<open>\<^verbatim>\<open>src.size() * 4 + 1\<close> is converted to \<^verbatim>\<open>int\<close>; a size beyond \<^verbatim>\<open>INT_MAX\<close> turns negative or small.\<close>

definition escape_dest_length :: "string \<Rightarrow> int" where
  "escape_dest_length src = sint (of_nat (length src * 4 + 1) :: i32)"

definition Utf8SafeCEscape :: "string \<Rightarrow> string pres" where
  "Utf8SafeCEscape src = CEscapeInternal src (escape_dest_length src) False True"

definition CHexEscape :: "string \<Rightarrow> string pres" where
  "CHexEscape src = CEscapeInternal src (escape_dest_length src) True False"

definition c_escaped_len :: "nat list" where
  "c_escaped_len =
    [4, 4, 4, 4, 4, 4, 4, 4, 4, 2, 2, 4, 4, 2, 4, 4,
     4, 4, 4, 4, 4, 4, 4, 4, 4, 4, 4, 4, 4, 4, 4, 4,
     1, 1, 2, 1, 1, 1, 1, 2, 1, 1, 1, 1, 1, 1, 1, 1,
     1, 1, 1, 1, 1, 1, 1, 1, 1, 1, 1, 1, 1, 1, 1, 1,
     1, 1, 1, 1, 1, 1, 1, 1, 1, 1, 1, 1, 1, 1, 1, 1,
     1, 1, 1, 1, 1, 1, 1, 1, 1, 1, 1, 1, 2, 1, 1, 1,
     1, 1, 1, 1, 1, 1, 1, 1, 1, 1, 1, 1, 1, 1, 1, 1,
     1, 1, 1, 1, 1, 1, 1, 1, 1, 1, 1, 1, 1, 1, 1, 4,
     4, 4, 4, 4, 4, 4, 4, 4, 4, 4, 4, 4, 4, 4, 4, 4,
     4, 4, 4, 4, 4, 4, 4, 4, 4, 4, 4, 4, 4, 4, 4, 4,
     4, 4, 4, 4, 4, 4, 4, 4, 4, 4, 4, 4, 4, 4, 4, 4,
     4, 4, 4, 4, 4, 4, 4, 4, 4, 4, 4, 4, 4, 4, 4, 4,
     4, 4, 4, 4, 4, 4, 4, 4, 4, 4, 4, 4, 4, 4, 4, 4,
     4, 4, 4, 4, 4, 4, 4, 4, 4, 4, 4, 4, 4, 4, 4, 4,
     4, 4, 4, 4, 4, 4, 4, 4, 4, 4, 4, 4, 4, 4, 4, 4,
     4, 4, 4, 4, 4, 4, 4, 4, 4, 4, 4, 4, 4, 4, 4, 4]"

definition CEscapedLength :: "string \<Rightarrow> nat" where
  "CEscapedLength src = foldl (\<lambda>escaped_len c. escaped_len + c_escaped_len ! nat (code c)) 0 src"

definition append_escaped :: "char \<Rightarrow> string" where
  "append_escaped c =
     (case escape_letter c of
        Some e \<Rightarrow> [backslash, e]
      | None \<Rightarrow>
          if \<not> isprint c then
            [backslash, char_of (48 + code c div 64), char_of (48 + code c mod 64 div 8), char_of (48 + code c mod 8)]
          else [c])"

text \<open>The string grows by the computed length, filled with NULs; \<open>ptr\<close> is the offset of
  \<^verbatim>\<open>append_ptr\<close> into the new part, \<open>OOB\<close> a write behind it.\<close>

fun append_loop :: "string \<Rightarrow> string \<Rightarrow> nat \<Rightarrow> string pres" where
  "append_loop [] buf ptr = Ok buf"
| "append_loop (c # src) buf ptr =
     (let e = append_escaped c
      in if length buf < ptr + length e then OOB
         else append_loop src (take ptr buf @ e @ drop (ptr + length e) buf) (ptr + length e))"

definition CEscapeAndAppend :: "string \<Rightarrow> string \<Rightarrow> string pres" where
  "CEscapeAndAppend src dest =
     (let escaped_len = CEscapedLength src
      in if escaped_len = length src then Ok (dest @ src)
         else append_loop src (dest @ replicate escaped_len NUL) (length dest))"

definition CEscape :: "string \<Rightarrow> string pres" where
  "CEscape src = CEscapeAndAppend src []"

section \<open>Unescaping\<close>

definition unescape_letter :: "char \<Rightarrow> char option" where
  "unescape_letter = map_of
     [(CHR ''a'', CHR 0x07), (CHR ''b'', CHR 0x08), (CHR ''f'', CHR 0x0C), (CHR ''n'', CHR 0x0A),
      (CHR ''r'', CHR 0x0D), (CHR ''t'', CHR 0x09), (CHR ''v'', CHR 0x0B), (backslash, backslash),
      (CHR ''?'', CHR ''?''), (CHR 0x27, CHR 0x27), (CHR 0x22, CHR 0x22)]"

definition IS_OCTAL_DIGIT :: "char \<Rightarrow> bool" where
  "IS_OCTAL_DIGIT c \<longleftrightarrow> code c \<ge> 48 \<and> code c \<le> 55"

text \<open>One to three octal digits, the first of them \<open>c\<close>; the value is cut to a \<^verbatim>\<open>char\<close>.\<close>

definition unescape_octal :: "char \<Rightarrow> string \<Rightarrow> char \<times> string" where
  "unescape_octal c p =
     (let ch = code c - 48;
          (ch, p) = (if IS_OCTAL_DIGIT (deref p) then (ch * 8 + code (deref p) - 48, tl p) else (ch, p));
          (ch, p) = (if IS_OCTAL_DIGIT (deref p) then (ch * 8 + code (deref p) - 48, tl p) else (ch, p))
      in (char_of ch, p))"

text \<open>Any number of hex digits into an \<^verbatim>\<open>unsigned int\<close>.\<close>

fun unescape_hex :: "u32 \<Rightarrow> string \<Rightarrow> u32 \<times> string" where
  "unescape_hex ch [] = (ch, [])"
| "unescape_hex ch (c # p) =
     (if isxdigit c then unescape_hex (push_bit 4 ch + of_int (hex_digit_to_int c)) p else (ch, c # p))"

lemma unescape_lengths: "length (snd (unescape_octal c p)) \<le> length p" "length (snd (unescape_hex ch p)) \<le> length p"
proof -
  show "length (snd (unescape_octal c p)) \<le> length p"
    by (auto simp: unescape_octal_def Let_def)
  show "length (snd (unescape_hex ch p)) \<le> length p"
    by (induction ch p rule: unescape_hex.induct) auto
qed

text \<open>The rest of the source to what is still written to \<^verbatim>\<open>dest\<close>.\<close>

function unescape_loop :: "string \<Rightarrow> string" where
  "unescape_loop [] = []"
| "unescape_loop (c # p) =
     (if c \<noteq> backslash then c # unescape_loop p
      else case p of
          [] \<Rightarrow> []
        | e # p \<Rightarrow>
            (case unescape_letter e of
               Some d \<Rightarrow> d # unescape_loop p
             | None \<Rightarrow>
                 if IS_OCTAL_DIGIT e then
                   fst (unescape_octal e p) # unescape_loop (snd (unescape_octal e p))
                 else if e = CHR ''x'' \<or> e = CHR ''X'' then
                   if \<not> isxdigit (deref p) then unescape_loop p
                   else char_of (unat (fst (unescape_hex 0 p))) # unescape_loop (snd (unescape_hex 0 p))
                 else unescape_loop p))"
  by pat_completeness auto
termination by (relation "measure length") (auto simp: less_Suc_eq_le intro: le_SucI unescape_lengths)

declare unescape_loop.simps(2) [simp del]

definition UnescapeCEscapeSequences :: "string \<Rightarrow> string" where
  "UnescapeCEscapeSequences source = unescape_loop source"

text \<open>The buffer has \<^verbatim>\<open>src.size() + 1\<close> characters, with the NUL at the end.\<close>

definition UnescapeCEscapeString :: "string \<Rightarrow> string pres" where
  "UnescapeCEscapeString src =
     (let unescaped = UnescapeCEscapeSequences (c_str src)
      in if length unescaped + 1 > length src + 1 then OOB else Ok unescaped)"


section \<open>The escaped text\<close>

text \<open>What is written for a character and for the rest of the source after it.\<close>

definition needs_code :: "bool \<Rightarrow> bool \<Rightarrow> char \<Rightarrow> bool" where
  "needs_code utf8_safe lhex c \<longleftrightarrow> (\<not> utf8_safe \<or> code c < 128) \<and> (\<not> isprint c \<or> (lhex \<and> isxdigit c))"

definition escape1 :: "bool \<Rightarrow> bool \<Rightarrow> bool \<Rightarrow> char \<Rightarrow> string \<times> bool" where
  "escape1 use_hex utf8_safe lhex c =
     (case escape_letter c of
        Some e \<Rightarrow> ([backslash, e], False)
      | None \<Rightarrow> if needs_code utf8_safe lhex c then (escape_code use_hex c, use_hex) else ([c], False))"

fun escaped :: "bool \<Rightarrow> bool \<Rightarrow> string \<Rightarrow> bool \<Rightarrow> string" where
  "escaped use_hex utf8_safe [] lhex = []"
| "escaped use_hex utf8_safe (c # src) lhex =
     fst (escape1 use_hex utf8_safe lhex c) @ escaped use_hex utf8_safe src (snd (escape1 use_hex utf8_safe lhex c))"

lemma char_parts: "(of_char c :: nat) div 64 < 8" "(of_char c :: nat) div 16 < 16"
proof -
  have "(of_char c :: nat) < 8 * 64" "(of_char c :: nat) < 16 * 16"
    by (rule order.strict_trans2 [OF nat_of_char_less_256], simp)+
  then show "(of_char c :: nat) div 64 < 8" "(of_char c :: nat) div 16 < 16"
    by (simp_all add: less_mult_imp_div_less del: nat_of_char_less_256)
qed

lemma escape_code_hex:
  "escape_code True c = [backslash, CHR ''x'', digit_char False (of_char c div 16), digit_char False (of_char c mod 16)]"
proof -
  have n: "(of_char c :: nat) < 16 ^ Suc 1" using nat_of_char_less_256 [of c] by simp
  have "(of_char c :: nat) div 16 mod 16 = of_char c div 16"
    using char_parts(2) [of c] by simp
  then show ?thesis using pad_left_fixed [OF _ n] by (simp add: escape_code_def numeral_2_eq_2)
qed

lemma escape_code_octal: "escape_code False c = [backslash, digit_char False (of_char c div 64),
    digit_char False (of_char c div 8 mod 8), digit_char False (of_char c mod 8)]"
proof -
  have n: "(of_char c :: nat) < 8 ^ Suc 2" by (rule order.strict_trans [OF nat_of_char_less_256]) simp
  have "(of_char c :: nat) div 8 div 8 mod 8 = of_char c div 64"
    using char_parts(1) [of c] by (simp add: div_mult2_eq [symmetric])
  moreover have "pad_left CHR ''0'' 3 (digits False 8 (of_char c)) = fixed 8 (Suc 2) (of_char c)"
    using pad_left_fixed [OF _ n] by simp
  ultimately show ?thesis by (simp add: escape_code_def numeral_2_eq_2)
qed

lemma length_escape_code [simp]: "length (escape_code h c) = 4"
  by (cases h) (simp_all add: escape_code_hex escape_code_octal)

lemma length_escape1: "1 \<le> length (fst (escape1 h u l c))" "length (fst (escape1 h u l c)) \<le> 4"
  by (auto simp: escape1_def split: option.split)

lemma length_escaped: "length (escaped h u src l) \<le> 4 * length src"
  by (induction h u src l rule: escaped.induct) (use length_escape1(2) in \<open>force simp: add_le_mono\<close>)+

lemma cescape_loop_eq:
  "int (length out) + 4 * int (length src) + 1 \<le> n \<Longrightarrow> cescape_loop h u n src out l = Ok (out @ escaped h u src l)"
proof (induction src arbitrary: out l)
  case (Cons c src)
  then show ?case
    by (auto simp: escape1_def needs_code_def split: option.split)
qed simp

lemma CEscapeInternal_eq: "4 * int (length src) + 1 \<le> n \<Longrightarrow> CEscapeInternal src n h u = Ok (escaped h u src False)"
  by (simp add: CEscapeInternal_def cescape_loop_eq)


section \<open>Unescaping the escaped text\<close>

lemma unescape_hex_code:
  assumes "\<not> isxdigit (deref p)"
  shows "unescape_hex 0 (digit_char False (of_char c div 16) # digit_char False (of_char c mod 16) # p) = (of_int (code c), p)"
proof -
  have d: "(of_char c :: nat) div 16 < 16" "(of_char c :: nat) mod 16 < 16"
    using char_parts(2) [of c] by simp_all
  have stop: "unescape_hex v p = (v, p)" for v using assms by (cases p) simp_all
  have "code c = 16 * int (of_char c div 16) + int (of_char c mod 16)"
    using code_bounds(3) [of c] mult_div_mod_eq [of 16 "of_char c :: nat"] by linarith
  then have "of_int (code c) = push_bit 4 (of_int (int (of_char c div 16))) + (of_int (int (of_char c mod 16)) :: u32)"
    by (simp add: push_bit_eq_mult)
  then show ?thesis using digit_char_hex [OF d(1)] digit_char_hex [OF d(2)] stop by simp
qed

lemma octal_digit: "d < 8 \<Longrightarrow> IS_OCTAL_DIGIT (digit_char False d)"
  using digit_char_digit [of d] by (simp add: IS_OCTAL_DIGIT_def)

lemma unescape_octal_code:
  "unescape_octal (digit_char False (of_char c div 64)) (digit_char False (of_char c div 8 mod 8) # digit_char False (of_char c mod 8) # p)
    = (c, p)"
proof -
  define n where "n = (of_char c :: nat)"
  have d: "n div 64 < 8" "n div 8 mod 8 < 8" "n mod 8 < 8"
    using char_parts(1) [of c] by (simp_all add: n_def)
  have e: "n div 64 = n div 8 div 8" using div_mult2_eq [of n 8 8] by simp
  have v: "code (digit_char False k) = 48 + int k" if "k < 8" for k using that digit_char_digit(2) [of k] by simp
  have "((code (digit_char False (n div 64)) - 48) * 8 + code (digit_char False (n div 8 mod 8)) - 48) * 8
      + code (digit_char False (n mod 8)) - 48 = int (n div 64 * 64 + n div 8 mod 8 * 8 + n mod 8)"
    using v [OF d(1)] v [OF d(2)] v [OF d(3)] by simp
  also have "n div 64 * 64 + n div 8 mod 8 * 8 + n mod 8 = n"
    using mult_div_mod_eq [of 8 n] mult_div_mod_eq [of 8 "n div 8"] e by linarith
  finally show ?thesis
    unfolding unescape_octal_def n_def [symmetric] Let_def
    using octal_digit [OF d(2)] octal_digit [OF d(3)] by (simp add: n_def code_bounds(3) [symmetric])
qed

lemma letters_check:
  "\<forall>(c, e) \<in> set [(CHR 0x0A, CHR ''n''), (CHR 0x0D, CHR ''r''), (CHR 0x09, CHR ''t''), (CHR 0x22, CHR 0x22),
     (CHR 0x27, CHR 0x27), (backslash, backslash)]. unescape_letter e = Some c \<and> isprint e"
  "\<forall>(e, d) \<in> set [(CHR ''a'', CHR 0x07), (CHR ''b'', CHR 0x08), (CHR ''f'', CHR 0x0C), (CHR ''n'', CHR 0x0A),
      (CHR ''r'', CHR 0x0D), (CHR ''t'', CHR 0x09), (CHR ''v'', CHR 0x0B), (backslash, backslash),
      (CHR ''?'', CHR ''?''), (CHR 0x27, CHR 0x27), (CHR 0x22, CHR 0x22)]. \<not> IS_OCTAL_DIGIT e"
  by code_simp+

lemma escape_letter_back: "escape_letter c = Some e \<Longrightarrow> unescape_letter e = Some c \<and> isprint e"
  unfolding escape_letter_def using letters_check(1) by (blast dest: map_of_SomeD)

lemma no_letter_digit: "IS_OCTAL_DIGIT d \<Longrightarrow> unescape_letter d = None"
proof (rule ccontr)
  assume d: "IS_OCTAL_DIGIT d" and "unescape_letter d \<noteq> None"
  then obtain x where "unescape_letter d = Some x" by auto
  then show False
    using d letters_check(2) unfolding unescape_letter_def by (blast dest: map_of_SomeD)
qed

lemma escaped_no_xdigit: "\<not> isxdigit (deref (escaped True u src True))"
proof (cases src)
  case (Cons c s)
  have "isxdigit c \<Longrightarrow> code c < 128" "\<not> isxdigit backslash" by (auto simp: isxdigit_def)
  then show ?thesis using Cons
    by (auto simp: escape1_def needs_code_def escape_code_hex split: option.split)
qed (simp add: isxdigit_def)

lemma unescape_escape1:
  assumes "h \<Longrightarrow> snd (escape1 h u l c) \<Longrightarrow> \<not> isxdigit (deref p)"
  shows "unescape_loop (fst (escape1 h u l c) @ p) = c # unescape_loop p"
proof (cases "escape_letter c")
  case (Some e)
  then show ?thesis using escape_letter_back [OF Some] by (simp add: escape1_def unescape_loop.simps(2))
next
  case None
  then have "c \<noteq> backslash" by (auto simp: escape_letter_def)
  show ?thesis
  proof (cases "needs_code u l c")
    case False
    then show ?thesis using None \<open>c \<noteq> backslash\<close> by (simp add: escape1_def unescape_loop.simps(2))
  next
    case nc: True
    show ?thesis
    proof (cases h)
      case True
      have x: "\<not> isxdigit (deref p)" using assms nc None True by (simp add: escape1_def)
      have "isxdigit (digit_char False (of_char c div 16))"
        by (intro digit_char_hex char_parts)
      moreover have "\<not> IS_OCTAL_DIGIT CHR ''x''" "unescape_letter CHR ''x'' = None" by code_simp+
      moreover have "char_of (unat (of_int (code c) :: u32)) = c"
      proof -
        have "unat (of_nat (of_char c) :: u32) = of_char c"
          by (rule unat_of_nat_u32) (rule order.strict_trans [OF nat_of_char_less_256], simp)
        then show ?thesis by (simp add: code_bounds(3))
      qed
      ultimately show ?thesis
        using nc None True unescape_hex_code [OF x, of c]
        by (simp add: escape1_def escape_code_hex unescape_loop.simps(2))
    next
      case False
      note o = octal_digit [OF char_parts(1)] no_letter_digit [OF octal_digit [OF char_parts(1)]]
      show ?thesis
        using nc None False o unescape_octal_code [of c p]
        by (simp add: escape1_def escape_code_octal unescape_loop.simps(2))
    qed
  qed
qed

lemma unescape_escaped: "unescape_loop (escaped h u src l) = src"
proof (induction src arbitrary: l)
  case (Cons c src)
  have "h \<Longrightarrow> snd (escape1 h u l c) \<Longrightarrow> \<not> isxdigit (deref (escaped h u src (snd (escape1 h u l c))))"
    using escaped_no_xdigit by (cases "snd (escape1 h u l c)") simp_all
  from unescape_escape1 [OF this] Cons.IH show ?case by simp
qed simp


section \<open>Appending with the length known before\<close>

lemma c_escaped_len_check: "map (\<lambda>n. length (append_escaped (char_of n))) [0..255::int] = c_escaped_len"
  by code_simp

lemma c_escaped_len_eq: "c_escaped_len ! nat (code c) = length (append_escaped c)"
proof -
  have "[0..255::int] ! nat (code c) = code c" "nat (code c) < length [0..255::int]"
    using code_bounds(1,2) [of c] by (simp_all add: nth_upto del: nat_of_char)
  then have "map (\<lambda>n. length (append_escaped (char_of n))) [0..255::int] ! nat (code c) = length (append_escaped c)"
    by (simp del: nat_of_char)
  then show ?thesis unfolding c_escaped_len_check .
qed

lemma append_escaped_eq: "fst (escape1 False False False c) = append_escaped c" "\<not> snd (escape1 False False False c)"
proof -
  have d: "char_of (48 + int d) = digit_char False d" if "d < 8" for d
  proof -
    have e: "code (digit_char False d) = 48 + int d" by (rule digit_char_digit(2)) (use that in simp)
    show ?thesis unfolding e [symmetric] by simp
  qed
  have c: "code c div 64 = int (of_char c div 64)" "code c mod 64 div 8 = int (of_char c div 8 mod 8)"
    "code c mod 8 = int (of_char c mod 8)"
  proof -
    have "(of_char c :: nat) mod 64 div 8 = of_char c div 8 mod 8"
      using mod_mult2_eq [of "of_char c :: nat" 8 8] by simp
    from arg_cong [OF this, of int] show "code c div 64 = int (of_char c div 64)" "code c mod 64 div 8 = int (of_char c div 8 mod 8)"
      "code c mod 8 = int (of_char c mod 8)"
      unfolding code_bounds(3) [of c] by (simp_all add: zdiv_int zmod_int)
  qed
  show "fst (escape1 False False False c) = append_escaped c"
    unfolding escape1_def append_escaped_def needs_code_def escape_code_octal c
    using d [OF char_parts(1)] d [of "of_char c div 8 mod 8"] d [of "of_char c mod 8"] by (simp split: option.split)
  show "\<not> snd (escape1 False False False c)"
    by (simp add: escape1_def split: option.split)
qed

lemma escaped_concat: "escaped False False src False = concat (map append_escaped src)"
  using append_escaped_eq by (induction src) simp_all

lemma CEscapedLength_eq: "CEscapedLength src = length (concat (map append_escaped src))"
proof -
  have "foldl (\<lambda>n c. n + c_escaped_len ! nat (code c)) a src = a + length (concat (map append_escaped src))" for a
    by (induction src arbitrary: a) (simp_all add: c_escaped_len_eq del: nat_of_char)
  then show ?thesis by (simp add: CEscapedLength_def)
qed

lemma append_loop_eq:
  "length (concat (map append_escaped src)) = m \<Longrightarrow>
    append_loop src (a @ replicate m NUL) (length a) = Ok (a @ concat (map append_escaped src))"
proof (induction src arbitrary: a m)
  case (Cons c src)
  have "append_loop src ((a @ append_escaped c) @ replicate (m - length (append_escaped c)) NUL) (length (a @ append_escaped c))
      = Ok ((a @ append_escaped c) @ concat (map append_escaped src))"
    using Cons.prems by (intro Cons.IH) simp
  then show ?case using Cons.prems by (auto simp: Let_def)
qed simp

lemma append_escaped_single: "length (append_escaped c) = 1 \<Longrightarrow> append_escaped c = [c]"
  by (auto simp: append_escaped_def split: option.splits if_splits)

lemma append_escaped_id: "length (concat (map append_escaped src)) = length src \<Longrightarrow> concat (map append_escaped src) = src"
proof (induction src)
  case (Cons c src)
  have ge: "length s \<le> length (concat (map append_escaped s))" for s
    by (induction s) (auto simp: append_escaped_def add_increasing split: option.split)
  have one: "1 \<le> length (append_escaped c)" by (simp add: append_escaped_def split: option.split)
  have "length (append_escaped c) = 1" "length (concat (map append_escaped src)) = length src"
    using Cons.prems ge [of src] one by simp_all
  then show ?case using Cons.IH append_escaped_single [of c] by simp
qed simp

lemma CEscapeAndAppend_eq: "CEscapeAndAppend src dest = Ok (dest @ escaped False False src False)"
  using append_loop_eq [of src "CEscapedLength src" dest] append_escaped_id [of src, symmetric]
  by (simp add: CEscapeAndAppend_def Let_def escaped_concat CEscapedLength_eq)

section \<open>Characters and bounds\<close>

lemma isxdigit_isprint: "isxdigit c \<Longrightarrow> isprint c"
  by (auto simp: isxdigit_def isprint_def)

lemma escape_code_print: "d \<in> set (escape_code h c) \<Longrightarrow> isprint d"
proof -
  have x: "isprint (digit_char False k)" if "k < 16" for k using digit_char_hex(1) [OF that] isxdigit_isprint by blast
  have "isprint backslash" "isprint CHR ''x''" by code_simp+
  moreover have "(of_char c :: nat) div 64 < 16" using char_parts(1) [of c] by simp
  ultimately show "d \<in> set (escape_code h c) \<Longrightarrow> isprint d"
    using x char_parts(2) [of c] by (cases h) (auto simp: escape_code_hex escape_code_octal)
qed

lemma escape1_chars: "d \<in> set (fst (escape1 h u l c)) \<Longrightarrow> isprint d \<or> u \<and> 128 \<le> code d"
proof -
  have "isprint backslash" by code_simp
  then show "d \<in> set (fst (escape1 h u l c)) \<Longrightarrow> isprint d \<or> u \<and> 128 \<le> code d"
    using escape_letter_back [of c] escape_code_print [of d h c]
    by (auto simp: escape1_def needs_code_def split: option.splits if_splits)
qed

lemma escaped_chars: "d \<in> set (escaped h u src l) \<Longrightarrow> isprint d \<or> u \<and> 128 \<le> code d"
  by (induction h u src l rule: escaped.induct) (auto dest: escape1_chars)

lemma escaped_no_nul: "NUL \<notin> set (escaped h u src l)"
  using escaped_chars [of NUL h u src l] by (auto simp: isprint_def)

lemma unescape_length: "length (unescape_loop p) \<le> length p"
proof (induction p rule: unescape_loop.induct)
  case (2 c p)
  show ?case
  proof (cases "c = backslash")
    case False
    then show ?thesis using 2(1) by (simp add: unescape_loop.simps(2))
  next
    case c: True
    show ?thesis
    proof (cases p)
      case (Cons e q)
      note IH = 2(2-) [OF _ Cons, simplified c]
      have l: "length (snd (unescape_octal e q)) \<le> length q" "length (snd (unescape_hex 0 q)) \<le> length q"
        by (rule unescape_lengths)+
      show ?thesis using IH l unfolding Cons c
        by (subst unescape_loop.simps(2)) (auto split: option.split)
    qed (simp add: c unescape_loop.simps(2))
  qed
qed simp

lemma cescape_loop_Ok: "cescape_loop h u n src out l = Ok txt \<Longrightarrow> txt = out @ escaped h u src l"
  by (induction h u n src out l rule: cescape_loop.induct)
    (auto simp: escape1_def needs_code_def split: if_splits option.splits)

lemma cescape_loop_room: "cescape_loop h u n src out l = Ok txt \<Longrightarrow> int (length txt) < n"
  by (induction h u n src out l rule: cescape_loop.induct) (auto split: if_splits option.splits)


section \<open>Properties\<close>

text \<open>
  C26: escaping loses nothing. Into a buffer of four characters for each one and the NUL every
  string is escaped, in octal or in hex and with UTF-8 bytes kept or not, and unescaping the text gives
  the string back, NUL characters included.
\<close>

theorem escape_roundtrip:
  assumes "4 * int (length src) + 1 \<le> dest_len"
  shows "\<exists>txt. CEscapeInternal src dest_len use_hex utf8_safe = Ok txt \<and> UnescapeCEscapeString txt = Ok src"
proof -
  have "length src \<le> length (escaped use_hex utf8_safe src False)"
    using unescape_length [of "escaped use_hex utf8_safe src False"] by (simp add: unescape_escaped)
  then show ?thesis
    using assms by (simp add: CEscapeInternal_eq UnescapeCEscapeString_def UnescapeCEscapeSequences_def
        c_str_id [OF escaped_no_nul] unescape_escaped Let_def)
qed

theorem escape_roundtrip_witness:
  "\<exists>txt. CEscapeInternal [NUL, CHR ''a'', CHR 0xFF] 13 True False = Ok txt
     \<and> UnescapeCEscapeString txt = Ok [NUL, CHR ''a'', CHR 0xFF]"
  by (rule escape_roundtrip) simp

text \<open>
  C27: the faster \<^verbatim>\<open>CEscapeAndAppend\<close>, which takes the length of the text from a table of 256 entries
  and writes without looking at the space left, appends what \<^verbatim>\<open>CEscapeInternal\<close> writes in octal,
  and never writes behind the string.
\<close>

theorem escape_append_agrees:
  assumes "4 * int (length src) + 1 \<le> dest_len"
  shows "CEscapeAndAppend src dest = pbind (CEscapeInternal src dest_len False False) (\<lambda>txt. Ok (dest @ txt))"
  using assms by (simp add: CEscapeAndAppend_eq CEscapeInternal_eq)

theorem escape_append_agrees_witness:
  "CEscapeAndAppend [CHR 0x09, CHR ''y'', CHR 0x80, NUL] ''x'' = pbind (CEscapeInternal [CHR 0x09, CHR ''y'', CHR 0x80, NUL] 17 False False) (\<lambda>txt. Ok (''x'' @ txt))"
  by (rule escape_append_agrees) simp



text \<open>
  What is written stays below the length of the buffer, with room for the NUL, except that
  \<^verbatim>\<open>sprintf\<close> puts its own NUL behind a buffer that has room for just the four characters of the last
  escape. The unescaped string always fits in the buffer allocated for it.
\<close>

theorem escape_bounds:
  "(CEscapeInternal src dest_len use_hex utf8_safe = Ok txt \<longrightarrow> int (length txt) < dest_len)
   \<and> CEscapeInternal [CHR 0x01] 4 use_hex utf8_safe = OOB
   \<and> (\<exists>d. UnescapeCEscapeString src = Ok d \<and> length d \<le> length src)"
proof (intro conjI impI)
  show "int (length txt) < dest_len" if "CEscapeInternal src dest_len use_hex utf8_safe = Ok txt"
    using that cescape_loop_room by (simp add: CEscapeInternal_def)
  show "CEscapeInternal [CHR 0x01] 4 use_hex utf8_safe = OOB"
    by (simp add: CEscapeInternal_def escape_letter_def isprint_def)
  have "length (unescape_loop (c_str src)) \<le> length src"
    by (rule le_trans [OF unescape_length]) (simp add: c_str_def length_takeWhile_le)
  then show "\<exists>d. UnescapeCEscapeString src = Ok d \<and> length d \<le> length src"
    by (simp add: UnescapeCEscapeString_def UnescapeCEscapeSequences_def Let_def)
qed

theorem escape_bounds_witness: "int (length [backslash, CHR ''n'']) < 3"
proof -
  have "CEscapeInternal [CHR 0x0A] 3 False False = Ok [backslash, CHR ''n'']" by code_simp
  with escape_bounds [of "[CHR 0x0A]" 3 False False "[backslash, CHR ''n'']"] show ?thesis by blast
qed

end
