(* ===== verification/NumText.thy ===== *)
theory NumText
  imports Ascii
begin

text \<open>
  Numbers to and from text in \<^verbatim>\<open>protobuf/stubs/strutil.cc\<close>: the checked decimal parsers for the four
  integer types, the writers that fill a buffer from the right, and the unrolled writers that put
  two digits at a time from the left.

  A signed integer is an \<open>int\<close>; where the code negates it, \<open>OOB\<close> stands for an overflow. It also
  stands for a write in front of a buffer. The parsers are given the bounds of the integer type; they
  return what \<^verbatim>\<open>*value_p\<close> is left at together with the verdict. The unrolled writers work on words,
  their labels are functions of the rest of the number and of the text so far.
\<close>

section \<open>Text to number\<close>

text \<open>The blanks at both ends, then the sign; \<open>None\<close>: nothing is left.\<close>

definition safe_parse_sign :: "string \<Rightarrow> (bool \<times> string) option" where
  "safe_parse_sign txt =
     (let s = dropWhile (\<lambda>c. c = CHR '' '') txt;
          s = rev (dropWhile (\<lambda>c. c = CHR '' '') (rev s))
      in if s = [] then None
         else let negative = (hd s = CHR ''-'')
              in if negative \<or> hd s = CHR ''+'' then
                   (if tl s = [] then None else Some (negative, tl s))
                 else Some (negative, s))"

fun parse_positive_loop :: "int \<Rightarrow> string \<Rightarrow> int \<Rightarrow> bool \<times> int" where
  "parse_positive_loop vmax [] v = (True, v)"
| "parse_positive_loop vmax (c # txt) v =
     (let digit = code c - 48
      in if digit \<ge> 10 \<or> digit < 0 then (False, v)
         else if v > vmax div 10 then (False, vmax)
         else let v = v * 10
              in if v > vmax - digit then (False, vmax) else parse_positive_loop vmax txt (v + digit))"

definition safe_parse_positive_int :: "int \<Rightarrow> string \<Rightarrow> bool \<times> int" where
  "safe_parse_positive_int vmax txt = parse_positive_loop vmax txt 0"

text \<open>C++ divides towards zero.\<close>

definition vmin_over_base :: "int \<Rightarrow> int" where
  "vmin_over_base vmin =
     (let q = - ((- vmin) div 10); r = - ((- vmin) mod 10) in if r > 0 then q + 1 else q)"

fun parse_negative_loop :: "int \<Rightarrow> string \<Rightarrow> int \<Rightarrow> bool \<times> int" where
  "parse_negative_loop vmin [] v = (True, v)"
| "parse_negative_loop vmin (c # txt) v =
     (let digit = code c - 48
      in if digit \<ge> 10 \<or> digit < 0 then (False, v)
         else if v < vmin_over_base vmin then (False, vmin)
         else let v = v * 10
              in if v < vmin + digit then (False, vmin) else parse_negative_loop vmin txt (v - digit))"

definition safe_parse_negative_int :: "int \<Rightarrow> string \<Rightarrow> bool \<times> int" where
  "safe_parse_negative_int vmin txt = parse_negative_loop vmin txt 0"

definition safe_int_internal :: "int \<Rightarrow> int \<Rightarrow> string \<Rightarrow> bool \<times> int" where
  "safe_int_internal vmin vmax txt =
     (case safe_parse_sign txt of
        None \<Rightarrow> (False, 0)
      | Some (negative, txt) \<Rightarrow>
          if \<not> negative then safe_parse_positive_int vmax txt else safe_parse_negative_int vmin txt)"

definition safe_uint_internal :: "int \<Rightarrow> string \<Rightarrow> bool \<times> int" where
  "safe_uint_internal vmax txt =
     (case safe_parse_sign txt of
        None \<Rightarrow> (False, 0)
      | Some (negative, txt) \<Rightarrow> if negative then (False, 0) else safe_parse_positive_int vmax txt)"

definition safe_strto32 :: "string \<Rightarrow> bool \<times> int" where
  "safe_strto32 = safe_int_internal (- (2 ^ 31)) (2 ^ 31 - 1)"

definition safe_strtou32 :: "string \<Rightarrow> bool \<times> int" where
  "safe_strtou32 = safe_uint_internal (2 ^ 32 - 1)"

definition safe_strto64 :: "string \<Rightarrow> bool \<times> int" where
  "safe_strto64 = safe_int_internal (- (2 ^ 63)) (2 ^ 63 - 1)"

definition safe_strtou64 :: "string \<Rightarrow> bool \<times> int" where
  "safe_strtou64 = safe_uint_internal (2 ^ 64 - 1)"

definition memcasecmp :: "string \<Rightarrow> string \<Rightarrow> int" where
  "memcasecmp s1 s2 =
     foldr (\<lambda>(a, b) rest. let diff = code (ascii_tolower a) - code (ascii_tolower b)
        in if diff \<noteq> 0 then diff else rest) (zip s1 s2) 0"

definition CaseEqual :: "string \<Rightarrow> string \<Rightarrow> bool" where
  "CaseEqual s1 s2 = (if length s1 \<noteq> length s2 then False else memcasecmp s1 s2 = 0)"

text \<open>The value, or \<open>None\<close> for false.\<close>

definition safe_strtob :: "string \<Rightarrow> bool option" where
  "safe_strtob str =
     (if CaseEqual str ''true'' \<or> CaseEqual str ''t'' \<or> CaseEqual str ''yes'' \<or> CaseEqual str ''y''
         \<or> CaseEqual str ''1'' then Some True
      else if CaseEqual str ''false'' \<or> CaseEqual str ''f'' \<or> CaseEqual str ''no'' \<or> CaseEqual str ''n''
         \<or> CaseEqual str ''0'' then Some False
      else None)"

section \<open>Writing from the right\<close>

definition digit_of :: "int \<Rightarrow> char" where
  "digit_of d = char_of (48 + d)"

text \<open>\<^verbatim>\<open>do { *p-- = '0' + i % 10; i /= 10; } while (i > 0)\<close> in front of what is written already.\<close>

function digits_down :: "int \<Rightarrow> string \<Rightarrow> string" where
  "digits_down i written =
     (if i div 10 > 0 then digits_down (i div 10) (digit_of (i mod 10) # written) else digit_of (i mod 10) # written)"
  by pat_completeness auto
termination by (relation "measure (\<lambda>(i, _). nat i)") auto

declare digits_down.simps [simp del]

text \<open>A negation in a type of \<open>w\<close> bits.\<close>

definition negate :: "nat \<Rightarrow> int \<Rightarrow> int pres" where
  "negate w i = (if i = - (2 ^ (w - 1)) then OOB else Ok (- i))"

text \<open>The text in front of the NUL at offset \<open>n\<close> of the buffer.\<close>

definition before_offset :: "nat \<Rightarrow> string \<Rightarrow> string pres" where
  "before_offset n txt = (if length txt > n then OOB else Ok txt)"

definition int_to_buffer :: "nat \<Rightarrow> int \<Rightarrow> string pres" where
  "int_to_buffer w i =
     (if i \<ge> 0 then Ok (digits_down i [])
      else if i > -10 then pbind (negate w i) (\<lambda>i. Ok (CHR ''-'' # [digit_of i]))
      else pbind (negate w (i + 10)) (\<lambda>i. Ok (CHR ''-'' # digits_down (i div 10 + 1) [digit_of (i mod 10)])))"

definition kFastInt64ToBufferOffset :: nat where "kFastInt64ToBufferOffset = 21"
definition kFastInt32ToBufferOffset :: nat where "kFastInt32ToBufferOffset = 11"

definition FastInt64ToBuffer :: "int \<Rightarrow> string pres" where
  "FastInt64ToBuffer i = pbind (int_to_buffer 64 i) (before_offset kFastInt64ToBufferOffset)"

definition FastInt32ToBuffer :: "int \<Rightarrow> string pres" where
  "FastInt32ToBuffer i = pbind (int_to_buffer 32 i) (before_offset kFastInt32ToBufferOffset)"

definition hexdigits :: string where "hexdigits = ''0123456789abcdef''"

function hex_down :: "int \<Rightarrow> string \<Rightarrow> string" where
  "hex_down i written =
     (if i div 16 > 0 then hex_down (i div 16) (hexdigits ! nat (i mod 16) # written)
      else hexdigits ! nat (i mod 16) # written)"
  by pat_completeness auto
termination by (relation "measure (\<lambda>(i, _). nat i)") auto

declare hex_down.simps [simp del]

definition FastHexToBuffer :: "int \<Rightarrow> string pres" where
  "FastHexToBuffer i = (if \<not> i \<ge> 0 then Fatal else before_offset 21 (hex_down i []))"

text \<open>The loop counts down from the last of the \<open>n\<close> characters.\<close>

fun fast_hex_loop :: "nat \<Rightarrow> u64 \<Rightarrow> string \<Rightarrow> string" where
  "fast_hex_loop 0 v written = written"
| "fast_hex_loop (Suc n) v written = fast_hex_loop n (drop_bit 4 v) (hexdigits ! unat (v AND 0xf) # written)"

definition InternalFastHexToBuffer :: "u64 \<Rightarrow> nat \<Rightarrow> string" where
  "InternalFastHexToBuffer v num_byte = fast_hex_loop num_byte v []"

definition FastHex64ToBuffer :: "u64 \<Rightarrow> string" where
  "FastHex64ToBuffer v = InternalFastHexToBuffer v 16"

definition FastHex32ToBuffer :: "u32 \<Rightarrow> string" where
  "FastHex32ToBuffer v = InternalFastHexToBuffer (ucast v) 8"

section \<open>Writing from the left\<close>

definition two_ASCII_digits :: "(char \<times> char) list" where
  "two_ASCII_digits =
    [(CHR ''0'', CHR ''0''), (CHR ''0'', CHR ''1''), (CHR ''0'', CHR ''2''), (CHR ''0'', CHR ''3''), (CHR ''0'', CHR ''4''), (CHR ''0'', CHR ''5''), (CHR ''0'', CHR ''6''), (CHR ''0'', CHR ''7''), (CHR ''0'', CHR ''8''), (CHR ''0'', CHR ''9''),
     (CHR ''1'', CHR ''0''), (CHR ''1'', CHR ''1''), (CHR ''1'', CHR ''2''), (CHR ''1'', CHR ''3''), (CHR ''1'', CHR ''4''), (CHR ''1'', CHR ''5''), (CHR ''1'', CHR ''6''), (CHR ''1'', CHR ''7''), (CHR ''1'', CHR ''8''), (CHR ''1'', CHR ''9''),
     (CHR ''2'', CHR ''0''), (CHR ''2'', CHR ''1''), (CHR ''2'', CHR ''2''), (CHR ''2'', CHR ''3''), (CHR ''2'', CHR ''4''), (CHR ''2'', CHR ''5''), (CHR ''2'', CHR ''6''), (CHR ''2'', CHR ''7''), (CHR ''2'', CHR ''8''), (CHR ''2'', CHR ''9''),
     (CHR ''3'', CHR ''0''), (CHR ''3'', CHR ''1''), (CHR ''3'', CHR ''2''), (CHR ''3'', CHR ''3''), (CHR ''3'', CHR ''4''), (CHR ''3'', CHR ''5''), (CHR ''3'', CHR ''6''), (CHR ''3'', CHR ''7''), (CHR ''3'', CHR ''8''), (CHR ''3'', CHR ''9''),
     (CHR ''4'', CHR ''0''), (CHR ''4'', CHR ''1''), (CHR ''4'', CHR ''2''), (CHR ''4'', CHR ''3''), (CHR ''4'', CHR ''4''), (CHR ''4'', CHR ''5''), (CHR ''4'', CHR ''6''), (CHR ''4'', CHR ''7''), (CHR ''4'', CHR ''8''), (CHR ''4'', CHR ''9''),
     (CHR ''5'', CHR ''0''), (CHR ''5'', CHR ''1''), (CHR ''5'', CHR ''2''), (CHR ''5'', CHR ''3''), (CHR ''5'', CHR ''4''), (CHR ''5'', CHR ''5''), (CHR ''5'', CHR ''6''), (CHR ''5'', CHR ''7''), (CHR ''5'', CHR ''8''), (CHR ''5'', CHR ''9''),
     (CHR ''6'', CHR ''0''), (CHR ''6'', CHR ''1''), (CHR ''6'', CHR ''2''), (CHR ''6'', CHR ''3''), (CHR ''6'', CHR ''4''), (CHR ''6'', CHR ''5''), (CHR ''6'', CHR ''6''), (CHR ''6'', CHR ''7''), (CHR ''6'', CHR ''8''), (CHR ''6'', CHR ''9''),
     (CHR ''7'', CHR ''0''), (CHR ''7'', CHR ''1''), (CHR ''7'', CHR ''2''), (CHR ''7'', CHR ''3''), (CHR ''7'', CHR ''4''), (CHR ''7'', CHR ''5''), (CHR ''7'', CHR ''6''), (CHR ''7'', CHR ''7''), (CHR ''7'', CHR ''8''), (CHR ''7'', CHR ''9''),
     (CHR ''8'', CHR ''0''), (CHR ''8'', CHR ''1''), (CHR ''8'', CHR ''2''), (CHR ''8'', CHR ''3''), (CHR ''8'', CHR ''4''), (CHR ''8'', CHR ''5''), (CHR ''8'', CHR ''6''), (CHR ''8'', CHR ''7''), (CHR ''8'', CHR ''8''), (CHR ''8'', CHR ''9''),
     (CHR ''9'', CHR ''0''), (CHR ''9'', CHR ''1''), (CHR ''9'', CHR ''2''), (CHR ''9'', CHR ''3''), (CHR ''9'', CHR ''4''), (CHR ''9'', CHR ''5''), (CHR ''9'', CHR ''6''), (CHR ''9'', CHR ''7''), (CHR ''9'', CHR ''8''), (CHR ''9'', CHR ''9'')]"

definition two_digits :: "u32 \<Rightarrow> string" where
  "two_digits d = (let (a, b) = two_ASCII_digits ! unat d in [a, b])"

definition one_digit :: "u32 \<Rightarrow> char" where
  "one_digit d = char_of (48 + unat d)"

definition lt100 :: "u32 \<Rightarrow> string \<Rightarrow> string" where
  "lt100 u buf = (let d = u in buf @ two_digits d)"

definition sublt100 :: "u32 \<Rightarrow> u32 \<Rightarrow> string \<Rightarrow> string" where
  "sublt100 d u buf = lt100 (u - d * 100) buf"

definition lt10_000 :: "u32 \<Rightarrow> string \<Rightarrow> string" where
  "lt10_000 u buf = (let d = u div 100 in sublt100 d u (buf @ two_digits d))"

definition sublt10_000 :: "u32 \<Rightarrow> u32 \<Rightarrow> string \<Rightarrow> string" where
  "sublt10_000 d u buf = lt10_000 (u - d * 10000) buf"

definition lt1_000_000 :: "u32 \<Rightarrow> string \<Rightarrow> string" where
  "lt1_000_000 u buf = (let d = u div 10000 in sublt10_000 d u (buf @ two_digits d))"

definition sublt1_000_000 :: "u32 \<Rightarrow> u32 \<Rightarrow> string \<Rightarrow> string" where
  "sublt1_000_000 d u buf = lt1_000_000 (u - d * 1000000) buf"

definition lt100_000_000 :: "u32 \<Rightarrow> string \<Rightarrow> string" where
  "lt100_000_000 u buf = (let d = u div 1000000 in sublt1_000_000 d u (buf @ two_digits d))"

definition sublt100_000_000 :: "u32 \<Rightarrow> u32 \<Rightarrow> string \<Rightarrow> string" where
  "sublt100_000_000 d u buf = lt100_000_000 (u - d * 100000000) buf"

definition FastUInt32ToBufferLeft :: "u32 \<Rightarrow> string \<Rightarrow> string" where
  "FastUInt32ToBufferLeft u buf =
     (if u \<ge> 1000000000 then let d = u div 100000000 in sublt100_000_000 d u (buf @ two_digits d)
      else if u < 100 then (if u \<ge> 10 then lt100 u buf else buf @ [one_digit u])
      else if u < 10000 then
        (if u \<ge> 1000 then lt10_000 u buf else let d = u div 100 in sublt100 d u (buf @ [one_digit d]))
      else if u < 1000000 then
        (if u \<ge> 100000 then lt1_000_000 u buf else let d = u div 10000 in sublt10_000 d u (buf @ [one_digit d]))
      else if u < 100000000 then
        (if u \<ge> 10000000 then lt100_000_000 u buf
         else let d = u div 1000000 in sublt1_000_000 d u (buf @ [one_digit d]))
      else let d = u div 100000000 in sublt100_000_000 d u (buf @ [one_digit d]))"

definition FastInt32ToBufferLeft :: "i32 \<Rightarrow> string \<Rightarrow> string" where
  "FastInt32ToBufferLeft i buf =
     (if sint i < 0 then FastUInt32ToBufferLeft (0 - i) (buf @ ''-'') else FastUInt32ToBufferLeft i buf)"

lemma top_digits_less: "unat ((v :: u64) div 1000000000) < unat v \<or> ucast (ucast v :: u32) = v"
proof (cases "v = 0")
  case False
  then show ?thesis by (simp add: unat_div_distrib unat_gt_0 div_less_dividend)
qed simp

function FastUInt64ToBufferLeft :: "u64 \<Rightarrow> string \<Rightarrow> string" where
  "FastUInt64ToBufferLeft v buf =
     (let u = (ucast v :: u32)
      in if ucast u = v then FastUInt32ToBufferLeft u buf
         else
           let top_11_digits = v div 1000000000;
               buf = FastUInt64ToBufferLeft top_11_digits buf;
               u = (ucast (v - top_11_digits * 1000000000) :: u32);
               d = u div 10000000; buf = buf @ two_digits d; u = u - d * 10000000;
               d = u div 100000; buf = buf @ two_digits d; u = u - d * 100000;
               d = u div 1000; buf = buf @ two_digits d; u = u - d * 1000;
               d = u div 10; buf = buf @ two_digits d; u = u - d * 10
           in buf @ [one_digit u])"
  by pat_completeness auto
termination
proof (relation "measure (\<lambda>(v, _). unat v)")
  fix v :: u64 and buf :: string and u :: u32 and t :: u64
  assume "u = ucast v" "ucast u \<noteq> v" "t = v div 1000000000"
  then show "((t, buf), (v, buf)) \<in> measure (\<lambda>(v, _). unat v)" using top_digits_less [of v] by simp
qed simp

declare FastUInt64ToBufferLeft.simps [simp del]

definition FastInt64ToBufferLeft :: "u64 \<Rightarrow> string \<Rightarrow> string" where
  "FastInt64ToBufferLeft i buf =
     (if sint i < 0 then FastUInt64ToBufferLeft (0 - i) (buf @ ''-'') else FastUInt64ToBufferLeft i buf)"

text \<open>\<^verbatim>\<open>SimpleItoa\<close> of \<^verbatim>\<open>int\<close>, \<^verbatim>\<open>unsigned\<close>, \<^verbatim>\<open>long long\<close> and \<^verbatim>\<open>unsigned long long\<close>; \<^verbatim>\<open>long\<close> is as
  long as \<^verbatim>\<open>int\<close> on Windows.\<close>

definition SimpleItoa_int :: "i32 \<Rightarrow> string pres" where
  "SimpleItoa_int i = FastInt32ToBuffer (sint i)"

definition SimpleItoa_uint :: "u32 \<Rightarrow> string" where
  "SimpleItoa_uint i = FastUInt32ToBufferLeft i []"

definition SimpleItoa_int64 :: "u64 \<Rightarrow> string pres" where
  "SimpleItoa_int64 i = FastInt64ToBuffer (sint i)"

definition SimpleItoa_uint64 :: "u64 \<Rightarrow> string" where
  "SimpleItoa_uint64 i = FastUInt64ToBufferLeft i []"


section \<open>Decimal digits\<close>

definition dec_val :: "string \<Rightarrow> int" where
  "dec_val ds = foldl (\<lambda>v c. v * 10 + (code c - 48)) 0 ds"

abbreviation all_digits :: "string \<Rightarrow> bool" where
  "all_digits \<equiv> list_all ascii_isdigit"

lemma digits_all: "all_digits (digits False 10 n)"
proof (induction n rule: less_induct)
  case (less n)
  then show ?case
    using less [of "n div 10"] digit_char_digit(1) [of n] digit_char_digit(1) [of "n mod 10"]
    by (subst digits.simps) auto
qed

lemma dec_val_digits: "dec_val (digits False 10 n) = int n"
proof (induction n rule: less_induct)
  case (less n)
  show ?case
  proof (cases "n < 10")
    case True
    then show ?thesis using digit_char_digit(2) [of n] by (subst digits.simps) (simp add: dec_val_def)
  next
    case False
    then have "dec_val (digits False 10 n) = dec_val (digits False 10 (n div 10)) * 10 + int (n mod 10)"
      using digit_char_digit(2) [of "n mod 10"] by (subst digits.simps) (simp add: dec_val_def)
    moreover have "int (n div 10) * 10 + int (n mod 10) = int n" using div_mult_mod_eq [of n 10] by linarith
    ultimately show ?thesis using less [of "n div 10"] False by simp
  qed
qed

lemma length_digits: "2 \<le> b \<Longrightarrow> n < b ^ k \<Longrightarrow> 0 < k \<Longrightarrow> length (digits False b n) \<le> k"
proof (induction k arbitrary: n)
  case (Suc k)
  show ?case
  proof (cases "n < b")
    case True
    then show ?thesis by (subst digits.simps) simp
  next
    case False
    then have "0 < k" using Suc.prems by (cases k) auto
    then have "length (digits False b (n div b)) \<le> k"
      using Suc by (simp add: less_mult_imp_div_less mult.commute)
    then show ?thesis using False by (subst digits.simps) simp
  qed
qed simp

lemma fixed_mod: "fixed b k (n mod b ^ k) = fixed b k n"
proof (induction k arbitrary: n)
  case (Suc k)
  have "n mod (b * b ^ k) div b = n div b mod b ^ k" "n mod (b * b ^ k) mod b = n mod b"
    by (cases "b = 0"; simp add: mod_mult2_eq)+
  then show ?case using Suc.IH [of "n div b"] by simp
qed simp

lemma fixed_append: "fixed b (j + k) n = fixed b j (n div b ^ k) @ fixed b k n"
  by (induction k arbitrary: n) (simp_all add: div_mult2_eq mult.commute)

lemma digits_fixed: "10 ^ k \<le> n \<Longrightarrow> n < 10 ^ Suc k \<Longrightarrow> digits False 10 n = fixed 10 (Suc k) n"
proof (induction k arbitrary: n)
  case 0
  then show ?case by (subst digits.simps) simp
next
  case (Suc k)
  have "10 ^ k \<le> n div 10" "n div 10 < 10 ^ Suc k"
    using Suc.prems by (simp_all add: less_eq_div_iff_mult_less_eq less_mult_imp_div_less mult.commute)
  from Suc.IH [OF this] have "digits False 10 (n div 10) = fixed 10 (Suc k) (n div 10)" .
  moreover have "\<not> n < 10" using Suc.prems(1) le_trans [of 10 "10 ^ Suc k" n] by simp
  ultimately show ?case by (subst digits.simps) simp
qed

lemma digits_split: "0 < n div 10 ^ k \<Longrightarrow> 0 < k \<Longrightarrow> digits False 10 n = digits False 10 (n div 10 ^ k) @ fixed 10 k n"
proof -
  assume h: "0 < n div 10 ^ k" and k: "0 < k"
  have "digits False 10 (n div 10 ^ k * 10 ^ k + n mod 10 ^ k)
      = digits False 10 (n div 10 ^ k) @ pad_left CHR ''0'' k (digits False 10 (n mod 10 ^ k))"
    using pad_digits [OF _ h, of 10 "n mod 10 ^ k" k] k by simp
  moreover have "pad_left CHR ''0'' k (digits False 10 (n mod 10 ^ k)) = fixed 10 k n"
    using pad_left_fixed [of 10 "n mod 10 ^ k" "k - 1"] k fixed_mod [of 10 k n] by simp
  ultimately show ?thesis unfolding div_mult_mod_eq by simp
qed

section \<open>The parsers\<close>

lemma foldl_ge: "all_digits ds \<Longrightarrow> 0 \<le> v \<Longrightarrow> v \<le> foldl (\<lambda>v c. v * 10 + (code c - 48)) v ds"
proof (induction ds arbitrary: v)
  case (Cons c ds)
  have "v \<le> v * 10 + (code c - 48)" "0 \<le> v * 10 + (code c - 48)" using Cons.prems by (simp_all add: ascii_isdigit_def)
  then show ?case using Cons.IH [of "v * 10 + (code c - 48)"] Cons.prems by simp
qed simp

lemma parse_positive_digits:
  assumes "all_digits ds" and "0 \<le> v" and "v \<le> vmax"
  shows "parse_positive_loop vmax ds v
    = (let n = foldl (\<lambda>v c. v * 10 + (code c - 48)) v ds in if n \<le> vmax then (True, n) else (False, vmax))"
  using assms
proof (induction ds arbitrary: v)
  case (Cons c ds)
  define d w where "d = code c - 48" and "w = v * 10 + d"
  have d: "0 \<le> d" "d < 10" using Cons.prems(1) by (simp_all add: d_def ascii_isdigit_def)
  have ge: "w \<le> foldl (\<lambda>v c. v * 10 + (code c - 48)) w ds"
    using Cons.prems d by (intro foldl_ge) (simp_all add: w_def)
  have gt: "vmax < w \<longleftrightarrow> v > vmax div 10 \<or> v * 10 > vmax - d"
    using d Cons.prems(2) unfolding w_def by auto
  have e: "foldl (\<lambda>v c. v * 10 + (code c - 48)) v (c # ds) = foldl (\<lambda>v c. v * 10 + (code c - 48)) w ds"
    by (simp add: w_def d_def)
  show ?case
  proof (cases "w \<le> vmax")
    case True
    then have "parse_positive_loop vmax (c # ds) v = parse_positive_loop vmax ds w"
      using gt d by (simp add: Let_def d_def [symmetric] w_def)
    then show ?thesis using Cons.IH [of w] Cons.prems True d unfolding e by (simp add: w_def)
  next
    case False
    then have "parse_positive_loop vmax (c # ds) v = (False, vmax)"
      using gt d by (auto simp: Let_def d_def [symmetric])
    then show ?thesis using ge False unfolding e by simp
  qed
qed simp

lemma parse_positive_bad: "\<not> all_digits ds \<Longrightarrow> \<not> fst (parse_positive_loop vmax ds v)"
  by (induction ds arbitrary: v) (auto simp: Let_def ascii_isdigit_def)

lemma parse_positive_range: "0 \<le> v \<Longrightarrow> v \<le> vmax \<Longrightarrow> 0 \<le> snd (parse_positive_loop vmax ds v) \<and> snd (parse_positive_loop vmax ds v) \<le> vmax"
  by (induction ds arbitrary: v) (auto simp: Let_def)

lemma parse_negative_eq:
  "vmin \<le> 0 \<Longrightarrow> parse_negative_loop vmin ds v = map_prod id uminus (parse_positive_loop (- vmin) ds (- v))"
proof (induction ds arbitrary: v)
  case (Cons c ds)
  have "vmin_over_base vmin = - ((- vmin) div 10)" by (simp add: vmin_over_base_def Let_def)
  then show ?case using Cons by (simp add: Let_def algebra_simps)
qed simp


section \<open>The writers\<close>

lemma digit_of_eq: "0 \<le> d \<Longrightarrow> d < 10 \<Longrightarrow> digit_of d = digit_char False (nat d)"
proof -
  assume d: "0 \<le> d" "d < 10"
  have "code (digit_char False (nat d)) = 48 + d" using d digit_char_digit(2) [of "nat d"] by simp
  then show "digit_of d = digit_char False (nat d)" unfolding digit_of_def by (metis char_of_char)
qed

lemma digits_down_eq: "0 \<le> i \<Longrightarrow> digits_down i w = digits False 10 (nat i) @ w"
proof (induction i w rule: digits_down.induct)
  case (1 i w)
  have m: "nat i mod 10 = nat (i mod 10)" "nat i div 10 = nat (i div 10)"
    using 1(2) by (simp_all add: nat_mod_distrib nat_div_distrib)
  show ?case
  proof (cases "i div 10 > 0")
    case True
    then have "\<not> nat i < 10" by linarith
    then show ?thesis using 1 True digit_of_eq [of "i mod 10"] m
      by (subst digits_down.simps, subst digits.simps) simp
  next
    case False
    then have "nat i < 10" "i mod 10 = i" using 1(2) by auto
    then show ?thesis using False digit_of_eq [of i] 1(2)
      by (subst digits_down.simps, subst digits.simps) simp
  qed
qed

definition int_text :: "int \<Rightarrow> string" where
  "int_text i = (if i < 0 then CHR ''-'' # digits False 10 (nat (- i)) else digits False 10 (nat i))"

lemma int_to_buffer_eq:
  assumes "5 \<le> w"
  shows "int_to_buffer w i = (if i = - (2 ^ (w - 1)) - 10 then OOB else Ok (int_text i))"
proof -
  have big: "(2 :: int) ^ 4 \<le> 2 ^ (w - 1)" using assms by (intro power_increasing) simp_all
  consider "i \<ge> 0" | "i < 0" "i > -10" | "i \<le> -10" by linarith
  then show ?thesis
  proof cases
    case 1
    then show ?thesis using big by (auto simp: int_to_buffer_def int_text_def digits_down_eq)
  next
    case 2
    then have "nat (- i) < 10" by linarith
    then have "digits False 10 (nat (- i)) = [digit_of (- i)]" using 2 digit_of_eq [of "- i"] by (subst digits.simps) simp
    then show ?thesis using 2 big by (auto simp: int_to_buffer_def int_text_def negate_def)
  next
    case 3
    define j where "j = - (i + 10)"
    have j: "0 \<le> j" "i = - (j + 10)" using 3 by (simp_all add: j_def)
    have "digits False 10 (nat (j + 10)) = digits False 10 (nat ((j + 10) div 10)) @ [digit_char False (nat ((j + 10) mod 10))]"
    proof -
      have "nat (j + 10) = nat j + 10" "nat ((j + 10) div 10) = nat j div 10 + 1" "nat ((j + 10) mod 10) = nat j mod 10"
        using j(1) by (simp_all add: nat_add_distrib nat_div_distrib nat_mod_distrib)
      moreover have "(nat j + 10) div 10 = nat j div 10 + 1" "(nat j + 10) mod 10 = nat j mod 10" by simp_all
      ultimately show ?thesis by (subst digits.simps) (simp del: div_add_self1 div_add_self2)
    qed
    moreover have "(j + 10) div 10 = j div 10 + 1" "(j + 10) mod 10 = j mod 10" by simp_all
    ultimately have "digits_down (j div 10 + 1) [digit_of (j mod 10)] = digits False 10 (nat (j + 10))"
      using j(1) digits_down_eq [of "j div 10 + 1"] digit_of_eq [of "j mod 10"]
      by (simp add: pos_imp_zdiv_nonneg_iff)
    then show ?thesis using 3 j big by (auto simp: int_to_buffer_def int_text_def negate_def add.commute)
  qed
qed

lemma length_int_text: "- (10 ^ k) < i \<Longrightarrow> i < 10 ^ k \<Longrightarrow> 0 < k \<Longrightarrow> length (int_text i) \<le> Suc k"
  using length_digits [of 10 "nat i" k] length_digits [of 10 "nat (- i)" k] by (auto simp: int_text_def nat_less_iff)

lemma FastInt32ToBuffer_eq: "FastInt32ToBuffer (sint (i :: i32)) = Ok (int_text (sint i))"
proof -
  have r: "- 2147483648 \<le> sint i" "sint i < 2147483648" using sint_ge [of i] sint_lt [of i] by simp_all
  then have "length (int_text (sint i)) \<le> 11" using length_int_text [of 10 "sint i"] by simp
  then show ?thesis using r int_to_buffer_eq [of 32 "sint i"]
    by (simp add: FastInt32ToBuffer_def before_offset_def kFastInt32ToBufferOffset_def)
qed

lemma FastInt64ToBuffer_eq: "FastInt64ToBuffer (sint (i :: u64)) = Ok (int_text (sint i))"
proof -
  have r: "- 9223372036854775808 \<le> sint i" "sint i < 9223372036854775808" using sint_ge [of i] sint_lt [of i] by simp_all
  then have "length (int_text (sint i)) \<le> 20" using length_int_text [of 19 "sint i"] by simp
  then show ?thesis using r int_to_buffer_eq [of 64 "sint i"]
    by (simp add: FastInt64ToBuffer_def before_offset_def kFastInt64ToBufferOffset_def)
qed

text \<open>Two digits at a time.\<close>

lemma two_ASCII_digits_check:
  "map (\<lambda>(a, b). [a, b]) two_ASCII_digits = map (\<lambda>n. [digit_of (n div 10), digit_of (n mod 10)]) [0..99]"
  by code_simp

lemma nat_uminus_sint:
  fixes i :: "'a :: len word"
  assumes "sint i < 0"
  shows "nat (- sint i) = unat (- i)"
proof -
  have "- sint i \<le> 2 ^ (LENGTH('a) - 1)" using sint_ge [of i] by simp
  also have "(2 :: int) ^ (LENGTH('a) - 1) < 2 ^ LENGTH('a)" by (rule power_strict_increasing) simp_all
  finally have "take_bit LENGTH('a) (- sint i) = - sint i" using assms by (intro take_bit_int_eq_self) simp_all
  moreover have "uint (- i) = take_bit LENGTH('a) (- sint i)"
    using uint_word_of_int_eq [of "- sint i", where ?'a = 'a] by simp
  ultimately have "uint (- i) = - sint i" by simp
  then show ?thesis by (metis nat_uint_eq)
qed

lemma nat_sint_pos:
  fixes i :: "'a :: len word"
  assumes "\<not> sint i < 0"
  shows "nat (sint i) = unat i"
proof -
  have "sint i < 2 ^ (LENGTH('a) - 1)" by (rule sint_lt)
  also have "(2 :: int) ^ (LENGTH('a) - 1) < 2 ^ LENGTH('a)" by (rule power_strict_increasing) simp_all
  finally have "take_bit LENGTH('a) (sint i) = sint i" using assms by (intro take_bit_int_eq_self) simp_all
  then have "uint i = sint i" using uint_sint [of i] by simp
  then show ?thesis by (metis nat_uint_eq)
qed

lemma two_digits_eq: "unat d < 100 \<Longrightarrow> two_digits d = fixed 10 2 (unat d)"
proof -
  define n where "n = unat d"
  assume "unat d < 100"
  then have n: "n < 100" by (simp add: n_def)
  have l: "length two_ASCII_digits = 100" using arg_cong [OF two_ASCII_digits_check, of length] by simp
  have "two_digits d = map (\<lambda>(a, b). [a, b]) two_ASCII_digits ! n"
    using n l by (simp add: two_digits_def n_def [symmetric] split: prod.split)
  also have "\<dots> = [digit_of (int n div 10), digit_of (int n mod 10)]"
    unfolding two_ASCII_digits_check using n by (simp add: nth_upto)
  also have "\<dots> = [digit_char False (n div 10), digit_char False (n mod 10)]"
    using n by (simp add: digit_of_eq nat_div_distrib nat_mod_distrib)
  finally show ?thesis using n by (simp add: numeral_2_eq_2 n_def [symmetric])
qed

lemma one_digit_eq: "unat d < 10 \<Longrightarrow> one_digit d = digit_char False (unat d)"
proof -
  define n where "n = unat d"
  assume "unat d < 10"
  then have n: "n < 10" by (simp add: n_def)
  have "(of_char (digit_char False n) :: nat) = 48 + n"
    using digit_char_digit(2) [OF n] code_bounds(3) [of "digit_char False n"] by simp
  then show "one_digit d = digit_char False (unat d)"
    unfolding one_digit_def n_def [symmetric] by (metis char_of_char)
qed

lemma div_rest: "unat (u - u div d * d) = unat u mod unat (d :: 'a :: len word)"
  by (simp add: minus_div_mult_eq_mod unat_mod_distrib)

lemma unat_div_less: "unat u < m * unat d \<Longrightarrow> unat (u div d) < m"
  by (simp add: unat_div_distrib less_mult_imp_div_less)

lemma lt100_eq: "unat u < 100 \<Longrightarrow> lt100 u buf = buf @ fixed 10 2 (unat u)"
  by (simp add: lt100_def two_digits_eq)

lemma lt10_000_eq: "unat u < 10000 \<Longrightarrow> lt10_000 u buf = buf @ fixed 10 4 (unat u)"
proof -
  assume u: "unat u < 10000"
  have "unat (u div 100) < 100" "unat (u - u div 100 * 100) < 100"
    using u unat_div_less [of u 100 100] div_rest [of u 100] by simp_all
  then show ?thesis
    using fixed_append [of 10 2 2 "unat u"] fixed_mod [of 10 2 "unat u"] div_rest [of u 100]
    by (simp add: lt10_000_def sublt100_def Let_def lt100_eq two_digits_eq unat_div_distrib)
qed

lemma lt1_000_000_eq: "unat u < 1000000 \<Longrightarrow> lt1_000_000 u buf = buf @ fixed 10 6 (unat u)"
proof -
  assume u: "unat u < 1000000"
  have "unat (u div 10000) < 100" "unat (u - u div 10000 * 10000) < 10000"
    using u unat_div_less [of u 100 10000] div_rest [of u 10000] by simp_all
  then show ?thesis
    using fixed_append [of 10 2 4 "unat u"] fixed_mod [of 10 4 "unat u"] div_rest [of u 10000]
    by (simp add: lt1_000_000_def sublt10_000_def Let_def lt10_000_eq two_digits_eq unat_div_distrib)
qed

lemma lt100_000_000_eq: "unat u < 100000000 \<Longrightarrow> lt100_000_000 u buf = buf @ fixed 10 8 (unat u)"
proof -
  assume u: "unat u < 100000000"
  have "unat (u div 1000000) < 100" "unat (u - u div 1000000 * 1000000) < 1000000"
    using u unat_div_less [of u 100 1000000] div_rest [of u 1000000] by simp_all
  then show ?thesis
    using fixed_append [of 10 2 6 "unat u"] fixed_mod [of 10 6 "unat u"] div_rest [of u 1000000]
    by (simp add: lt100_000_000_def sublt1_000_000_def Let_def lt1_000_000_eq two_digits_eq unat_div_distrib)
qed


lemma lead_digits:
  assumes "0 < k" and "unat p = 10 ^ k" and "unat p \<le> unat u"
  shows "digits False 10 (unat (u div p)) @ fixed 10 k (unat (u - u div p * p)) = digits False 10 (unat u)"
proof -
  have "0 < unat u div 10 ^ k" using assms(2,3) by (simp add: div_greater_zero_iff)
  moreover have "unat (u div p) = unat u div 10 ^ k" using assms(2) by (simp add: unat_div_distrib)
  moreover have "fixed 10 k (unat (u - u div p * p)) = fixed 10 k (unat u)"
    unfolding div_rest assms(2) by (rule fixed_mod)
  ultimately show ?thesis using assms(1) digits_split [of "unat u" k] by simp
qed

lemma one_digit_digits: "unat d < 10 \<Longrightarrow> [one_digit d] = digits False 10 (unat d)"
  by (subst digits.simps) (simp add: one_digit_eq)

lemma two_digits_digits: "10 \<le> unat d \<Longrightarrow> unat d < 100 \<Longrightarrow> two_digits d = digits False 10 (unat d)"
  using digits_fixed [of 1 "unat d"] by (simp add: two_digits_eq numeral_2_eq_2)

lemma FastUInt32ToBufferLeft_eq: "FastUInt32ToBufferLeft u buf = buf @ digits False 10 (unat u)"
proof -
  have big: "unat u < 4294967296" using unsigned_less [of u, where ?'a = nat] by simp
  have rest: "unat (u - u div 100000000 * 100000000) < 100000000" "unat (u - u div 1000000 * 1000000) < 1000000"
    "unat (u - u div 10000 * 10000) < 10000" "unat (u - u div 100 * 100) < 100"
    using div_rest [of u 100000000] div_rest [of u 1000000] div_rest [of u 10000] div_rest [of u 100] by simp_all
  have q: "unat (u div 100000000) = unat u div 100000000" "unat (u div 1000000) = unat u div 1000000"
    "unat (u div 10000) = unat u div 10000" "unat (u div 100) = unat u div 100"
    by (simp_all add: unat_div_distrib)
  note lead = lead_digits [of 8 100000000 u] lead_digits [of 6 1000000 u] lead_digits [of 4 10000 u] lead_digits [of 2 100 u]
  note labels = sublt100_000_000_def sublt1_000_000_def sublt10_000_def sublt100_def
  have one: "buf @ one_digit d # s = buf @ digits False 10 (unat d) @ s" if "unat d < 10" for d s
    using one_digit_digits [OF that] by (metis append_Cons append_Nil)
  consider "unat u \<ge> 1000000000" | "unat u < 10" | "10 \<le> unat u" "unat u < 100" | "100 \<le> unat u" "unat u < 1000"
    | "1000 \<le> unat u" "unat u < 10000" | "10000 \<le> unat u" "unat u < 100000" | "100000 \<le> unat u" "unat u < 1000000"
    | "1000000 \<le> unat u" "unat u < 10000000" | "10000000 \<le> unat u" "unat u < 100000000"
    | "100000000 \<le> unat u" "unat u < 1000000000" by linarith
  then show ?thesis
  proof cases
    case 1
    then have "10 \<le> unat (u div 100000000)" "unat (u div 100000000) < 100" unfolding q using big by linarith+
    then show ?thesis using 1 lead(1) rest(1)
      by (simp add: FastUInt32ToBufferLeft_def word_le_nat_alt labels lt100_000_000_eq two_digits_digits Let_def)
  next
    case 2
    then show ?thesis using one_digit_digits [of u]
      by (simp add: FastUInt32ToBufferLeft_def word_le_nat_alt word_less_nat_alt)
  next
    case 3
    then show ?thesis using two_digits_digits [of u]
      by (simp add: FastUInt32ToBufferLeft_def word_le_nat_alt word_less_nat_alt lt100_def)
  next
    case 4
    then have "unat (u div 100) < 10" unfolding q by linarith
    then show ?thesis using 4 lead(4) rest(4) one
      by (simp add: FastUInt32ToBufferLeft_def word_le_nat_alt word_less_nat_alt labels lt100_eq Let_def)
  next
    case 5
    then show ?thesis using digits_fixed [of 3 "unat u"]
      by (simp add: FastUInt32ToBufferLeft_def word_le_nat_alt word_less_nat_alt lt10_000_eq)
  next
    case 6
    then have "unat (u div 10000) < 10" unfolding q by linarith
    then show ?thesis using 6 lead(3) rest(3) one
      by (simp add: FastUInt32ToBufferLeft_def word_le_nat_alt word_less_nat_alt labels lt10_000_eq Let_def)
  next
    case 7
    then show ?thesis using digits_fixed [of 5 "unat u"]
      by (simp add: FastUInt32ToBufferLeft_def word_le_nat_alt word_less_nat_alt lt1_000_000_eq)
  next
    case 8
    then have "unat (u div 1000000) < 10" unfolding q by linarith
    then show ?thesis using 8 lead(2) rest(2) one
      by (simp add: FastUInt32ToBufferLeft_def word_le_nat_alt word_less_nat_alt labels lt1_000_000_eq Let_def)
  next
    case 9
    then show ?thesis using digits_fixed [of 7 "unat u"]
      by (simp add: FastUInt32ToBufferLeft_def word_le_nat_alt word_less_nat_alt lt100_000_000_eq)
  next
    case 10
    then have "unat (u div 100000000) < 10" unfolding q by linarith
    then show ?thesis using 10 lead(1) rest(1) one
      by (simp add: FastUInt32ToBufferLeft_def word_le_nat_alt word_less_nat_alt labels lt100_000_000_eq Let_def)
  qed
qed


lemma fixed_lead:
  assumes "unat p = 10 ^ k" and "unat u < 10 ^ (2 + k)"
  shows "fixed 10 (2 + k) (unat u) = two_digits (u div p) @ fixed 10 k (unat (u - u div p * p))"
    "unat (u - u div p * p) < 10 ^ k"
proof -
  have q: "unat (u div p) = unat u div 10 ^ k" using assms(1) by (simp add: unat_div_distrib)
  then have "unat (u div p) < 100" using assms(2) by (simp add: less_mult_imp_div_less)
  then show "fixed 10 (2 + k) (unat u) = two_digits (u div p) @ fixed 10 k (unat (u - u div p * p))"
    using q fixed_append [of 10 2 k "unat u"] unfolding div_rest assms(1) by (simp add: two_digits_eq fixed_mod)
  show "unat (u - u div p * p) < 10 ^ k" unfolding div_rest assms(1) by simp
qed

lemma FastUInt64ToBufferLeft_eq: "FastUInt64ToBufferLeft v buf = buf @ digits False 10 (unat v)"
proof (induction v buf rule: FastUInt64ToBufferLeft.induct)
  case (1 v buf)
  show ?case
  proof (cases "ucast (ucast v :: u32) = v")
    case True
    have "unat (ucast v :: u32) = unat v" using arg_cong [OF True, of unat] by (simp add: unsigned_ucast_eq unsigned_take_bit_eq)
    then show ?thesis using True by (subst FastUInt64ToBufferLeft.simps) (simp add: Let_def FastUInt32ToBufferLeft_eq)
  next
    case False
    define t r where "t = v div 1000000000" and "r = (ucast (v - t * 1000000000) :: u32)"
    have IH: "FastUInt64ToBufferLeft t buf = buf @ digits False 10 (unat t)"
      using 1 False by (simp add: t_def)
    have small: "ucast (ucast v :: u32) = v" if "unat v < 4294967296"
      using that by (simp add: word_unat_eq_iff unsigned_ucast_eq unsigned_take_bit_eq take_bit_nat_eq_self)
    then have big: "1000000000 \<le> unat v" using False by (cases "unat v < 4294967296") auto
    have m: "unat (v - t * 1000000000) = unat v mod 1000000000" using div_rest [of v 1000000000] by (simp add: t_def)
    then have r: "unat r = unat v mod 1000000000"
      by (simp add: r_def unsigned_ucast_eq take_bit_nat_eq_self)
    then have r9: "unat r < 10 ^ (2 + 7)" by simp
    define r7 where "r7 = r - r div 10000000 * 10000000"
    define r5 where "r5 = r7 - r7 div 100000 * 100000"
    define r3 where "r3 = r5 - r5 div 1000 * 1000"
    define r1 where "r1 = r3 - r3 div 10 * 10"
    note f7 = fixed_lead [of 10000000 7 r, OF _ r9, folded r7_def, simplified]
    note f5 = fixed_lead [of 100000 5 r7, folded r5_def, simplified, OF f7(2)]
    note f3 = fixed_lead [of 1000 3 r5, folded r3_def, simplified, OF f5(2)]
    note f1 = fixed_lead [of 10 1 r3, folded r1_def, simplified, OF f3(2)]
    have "fixed 10 9 (unat r) = two_digits (r div 10000000) @ two_digits (r7 div 100000) @ two_digits (r5 div 1000)
        @ two_digits (r3 div 10) @ [one_digit r1]"
      using f7(1) f5(1) f3(1) f1 one_digit_eq [of r1] by simp
    moreover have "FastUInt64ToBufferLeft v buf = FastUInt64ToBufferLeft t buf @ two_digits (r div 10000000)
        @ two_digits (r7 div 100000) @ two_digits (r5 div 1000) @ two_digits (r3 div 10) @ [one_digit r1]"
      using False by (subst FastUInt64ToBufferLeft.simps)
        (simp add: Let_def t_def [symmetric] r_def [symmetric] r7_def [symmetric] r5_def [symmetric] r3_def [symmetric]
          r1_def [symmetric])
    moreover have "fixed 10 9 (unat r) = fixed 10 9 (unat v)" using fixed_mod [of 10 9 "unat v"] by (simp add: r)
    moreover have "digits False 10 (unat v) = digits False 10 (unat t) @ fixed 10 9 (unat v)"
    proof -
      have "0 < unat v div 10 ^ 9" using big by (simp add: div_greater_zero_iff)
      moreover have "unat t = unat v div 10 ^ 9" by (simp add: t_def unat_div_distrib)
      ultimately show ?thesis using digits_split [of "unat v" 9] by simp
    qed
    ultimately show ?thesis using IH by simp
  qed
qed


lemma hexdigits_eq: "hexdigits ! d = digit_char False d"
  by (simp add: hexdigits_def digit_char_def)

lemma hex_down_eq: "0 \<le> i \<Longrightarrow> hex_down i w = digits False 16 (nat i) @ w"
proof (induction i w rule: hex_down.induct)
  case (1 i w)
  have m: "nat i mod 16 = nat (i mod 16)" "nat i div 16 = nat (i div 16)"
    using 1(2) by (simp_all add: nat_mod_distrib nat_div_distrib)
  show ?case
  proof (cases "i div 16 > 0")
    case True
    then have "\<not> nat i < 16" by linarith
    then have "digits False 16 (nat i) = digits False 16 (nat (i div 16)) @ [digit_char False (nat (i mod 16))]"
      using m by (subst digits.simps) simp
    moreover have "hex_down i w = hex_down (i div 16) (digit_char False (nat (i mod 16)) # w)"
      using True by (subst hex_down.simps) (simp add: hexdigits_eq)
    ultimately show ?thesis using 1(1) True by (simp add: hexdigits_eq)
  next
    case False
    then have i: "nat i < 16" "i mod 16 = i" using 1(2) by auto
    then have "digits False 16 (nat i) = [digit_char False (nat i)]" by (subst digits.simps) simp
    moreover have "hex_down i w = digit_char False (nat i) # w"
      using False i(2) by (subst hex_down.simps) (simp add: hexdigits_eq)
    ultimately show ?thesis by simp
  qed
qed

lemma fast_hex_loop_eq: "fast_hex_loop n v w = fixed 16 n (unat v) @ w"
proof (induction n arbitrary: v w)
  case (Suc n)
  have "(0xf :: u64) = mask 4" by (simp add: mask_eq_exp_minus_1)
  then have "unat (v AND 0xf) = take_bit 4 (unat v)"
    by (simp only: unsigned_take_bit_eq flip: take_bit_eq_mask)
  then have "unat (v AND 0xf) = unat v mod 16" by (simp add: take_bit_eq_mod)
  then show ?case using Suc.IH by (simp add: hexdigits_eq unat_drop_bit_eq drop_bit_nat_def)
qed simp

lemma fast_hex_writers:
  "FastHex64ToBuffer v = fixed 16 16 (unat v)" "FastHex32ToBuffer u = fixed 16 8 (unat u)"
  "i < 2 ^ 31 \<Longrightarrow> FastHexToBuffer i = (if i < 0 then Fatal else Ok (digits False 16 (nat i)))"
proof -
  have "take_bit 64 (unat u) = unat u"
    by (rule take_bit_nat_eq_self) (use unsigned_less [of u, where ?'a = nat] in simp)
  then show "FastHex64ToBuffer v = fixed 16 16 (unat v)" "FastHex32ToBuffer u = fixed 16 8 (unat u)"
    by (simp_all add: FastHex64ToBuffer_def FastHex32ToBuffer_def InternalFastHexToBuffer_def fast_hex_loop_eq
        unsigned_ucast_eq unsigned_take_bit_eq)
  assume "i < 2 ^ 31"
  then have "length (digits False 16 (nat i)) \<le> 8" by (intro length_digits) simp_all
  then show "FastHexToBuffer i = (if i < 0 then Fatal else Ok (digits False 16 (nat i)))"
    by (simp add: FastHexToBuffer_def before_offset_def hex_down_eq)
qed

lemma CaseEqual_eq: "CaseEqual s t \<longleftrightarrow> map ascii_tolower s = map ascii_tolower t"
proof -
  have "memcasecmp s t = 0 \<longleftrightarrow> map ascii_tolower s = map ascii_tolower t" if "length s = length t"
    using that by (induction s t rule: list_induct2) (auto simp: memcasecmp_def Let_def code_inj)
  then show ?thesis by (auto simp: CaseEqual_def dest: map_eq_imp_length_eq)
qed

section \<open>Texts of numbers are parsed back\<close>

lemma digits_no_sign:
  "s \<in> {digits False 10 n, CHR ''-'' # digits False 10 n} \<Longrightarrow> hd s \<noteq> CHR '' ''"
  "last (digits False 10 n) \<noteq> CHR '' ''" "hd (digits False 10 n) \<noteq> CHR ''-''" "hd (digits False 10 n) \<noteq> CHR ''+''"
proof -
  have d: "ascii_isdigit c" if "c \<in> set (digits False 10 n)" for c
    using digits_all [of n] that by (simp add: list_all_iff)
  have n: "\<not> ascii_isdigit CHR '' ''" "\<not> ascii_isdigit CHR ''-''" "\<not> ascii_isdigit CHR ''+''" by code_simp+
  have h: "hd (digits False 10 n) \<in> set (digits False 10 n)" "last (digits False 10 n) \<in> set (digits False 10 n)"
    using digits_nonempty by simp_all
  show "s \<in> {digits False 10 n, CHR ''-'' # digits False 10 n} \<Longrightarrow> hd s \<noteq> CHR '' ''"
    "last (digits False 10 n) \<noteq> CHR '' ''" "hd (digits False 10 n) \<noteq> CHR ''-''" "hd (digits False 10 n) \<noteq> CHR ''+''"
    using d [OF h(1)] d [OF h(2)] n by auto
qed

lemma safe_parse_sign_trimmed:
  assumes "s \<noteq> []" and "hd s \<noteq> CHR '' ''" and "last s \<noteq> CHR '' ''"
  shows "safe_parse_sign s = (let negative = (hd s = CHR ''-'')
    in if negative \<or> hd s = CHR ''+'' then (if tl s = [] then None else Some (negative, tl s)) else Some (negative, s))"
proof -
  have d: "dropWhile (\<lambda>c. c = CHR '' '') r = r" if "r \<noteq> []" "hd r \<noteq> CHR '' ''" for r
    using that by (cases r) auto
  have "dropWhile (\<lambda>c. c = CHR '' '') (rev s) = rev s" using assms by (intro d) (simp_all add: hd_rev)
  then show ?thesis
    using assms(1) d [OF assms(1,2)] by (simp add: safe_parse_sign_def Let_def del: dropWhile_eq_Nil_conv)
qed

lemma safe_parse_sign_digits:
  "safe_parse_sign (digits False 10 n) = Some (False, digits False 10 n)"
  "safe_parse_sign (CHR ''-'' # digits False 10 n) = Some (True, digits False 10 n)"
  using digits_no_sign(1) [of _ n] digits_no_sign(2-4) [of n] digits_nonempty [of False 10 n]
    safe_parse_sign_trimmed [of "digits False 10 n"] safe_parse_sign_trimmed [of "CHR ''-'' # digits False 10 n"]
  by simp_all

lemma parse_digits:
  "0 \<le> vmax \<Longrightarrow> safe_parse_positive_int vmax (digits False 10 n) = (if int n \<le> vmax then (True, int n) else (False, vmax))"
  "vmin \<le> 0 \<Longrightarrow> safe_parse_negative_int vmin (digits False 10 n) = (if vmin \<le> - int n then (True, - int n) else (False, vmin))"
  using parse_positive_digits [OF digits_all, of 0 vmax n] parse_positive_digits [OF digits_all, of 0 "- vmin" n]
    dec_val_digits [of n]
  by (auto simp: safe_parse_positive_int_def safe_parse_negative_int_def parse_negative_eq dec_val_def Let_def)

lemma safe_int_text:
  assumes "vmin \<le> 0" and "0 \<le> vmax" and "vmin \<le> i" and "i \<le> vmax"
  shows "safe_int_internal vmin vmax (int_text i) = (True, i)"
  using assms parse_digits(1) [OF assms(2), of "nat i"] parse_digits(2) [OF assms(1), of "nat (- i)"]
  by (simp add: int_text_def safe_int_internal_def safe_parse_sign_digits)

lemma safe_uint_text: "int n \<le> vmax \<Longrightarrow> safe_uint_internal vmax (digits False 10 n) = (True, int n)"
  using parse_digits(1) [of vmax n] by (simp add: safe_uint_internal_def safe_parse_sign_digits)

section \<open>What the parsers accept\<close>

text \<open>Blanks, an optional sign, digits, blanks.\<close>

definition denotes :: "string \<Rightarrow> bool \<Rightarrow> int \<Rightarrow> bool" where
  "denotes s neg n \<longleftrightarrow> (\<exists>i j sign ds. s = replicate i CHR '' '' @ sign @ ds @ replicate j CHR '' '' \<and> sign \<in> {[], ''+'', ''-''}
     \<and> ds \<noteq> [] \<and> all_digits ds \<and> neg = (sign = ''-'') \<and> n = (if neg then - dec_val ds else dec_val ds))"

abbreviation blank :: "char \<Rightarrow> bool" where
  "blank c \<equiv> c = CHR '' ''"

lemma takeWhile_blank: "takeWhile blank s = replicate (length (takeWhile blank s)) CHR '' ''"
  by (rule replicate_eqI) (auto dest: set_takeWhileD)

lemma trim_split:
  "\<exists>i j. s = replicate i CHR '' '' @ rev (dropWhile blank (rev (dropWhile blank s))) @ replicate j CHR '' ''"
proof -
  define t where "t = dropWhile blank s"
  have "rev t = takeWhile blank (rev t) @ dropWhile blank (rev t)" by simp
  then have "t = rev (dropWhile blank (rev t)) @ rev (takeWhile blank (rev t))" by (metis rev_append rev_rev_ident)
  also have "rev (takeWhile blank (rev t)) = replicate (length (takeWhile blank (rev t))) CHR '' ''"
    by (subst takeWhile_blank) simp
  finally have t: "t = rev (dropWhile blank (rev t)) @ replicate (length (takeWhile blank (rev t))) CHR '' ''" .
  have "s = takeWhile blank s @ t" by (simp add: t_def)
  also have "takeWhile blank s = replicate (length (takeWhile blank s)) CHR '' ''" by (rule takeWhile_blank)
  finally show ?thesis using t unfolding t_def by metis
qed

lemma trim_blanks:
  assumes "m \<noteq> []" and "\<not> blank (hd m)" and "\<not> blank (last m)"
  shows "rev (dropWhile blank (rev (dropWhile blank (replicate i CHR '' '' @ m @ replicate j CHR '' '')))) = m"
proof -
  have d: "dropWhile blank (replicate k CHR '' '' @ r) = r" if "r \<noteq> []" "\<not> blank (hd r)" for k r
    using that by (induction k) (cases r; simp)+
  have "dropWhile blank (replicate i CHR '' '' @ m @ replicate j CHR '' '') = m @ replicate j CHR '' ''"
    using assms by (intro d) (simp_all add: hd_append)
  moreover have "dropWhile blank (replicate j CHR '' '' @ rev m) = rev m" using assms by (intro d) (simp_all add: hd_rev)
  ultimately show ?thesis by (simp del: dropWhile_append)
qed

lemma digit_not_sign: "ascii_isdigit c \<Longrightarrow> \<not> blank c \<and> c \<noteq> CHR ''-'' \<and> c \<noteq> CHR ''+''"
  by (auto simp: ascii_isdigit_def)

lemma safe_parse_sign_iff:
  assumes "all_digits ds"
  shows "safe_parse_sign s = Some (neg, ds) \<longleftrightarrow> (\<exists>i j sign. s = replicate i CHR '' '' @ sign @ ds @ replicate j CHR '' ''
    \<and> sign \<in> {[], ''+'', ''-''} \<and> ds \<noteq> [] \<and> neg = (sign = ''-''))"
proof
  define m where "m = rev (dropWhile blank (rev (dropWhile blank s)))"
  obtain i j where s: "s = replicate i CHR '' '' @ m @ replicate j CHR '' ''"
    using trim_split [of s] unfolding m_def [symmetric] by (elim exE)
  assume p: "safe_parse_sign s = Some (neg, ds)"
  have m: "safe_parse_sign s = (if m = [] then None else let negative = (hd m = CHR ''-'')
      in if negative \<or> hd m = CHR ''+'' then (if tl m = [] then None else Some (negative, tl m)) else Some (negative, m))"
    unfolding safe_parse_sign_def Let_def m_def by (rule refl)
  from p have "m \<noteq> []" unfolding m by auto
  then obtain c r where c: "m = c # r" by (cases m) auto
  have "(if c = CHR ''-'' \<or> c = CHR ''+'' then r \<noteq> [] \<and> ds = r \<and> neg = (c = CHR ''-'') else ds = m \<and> \<not> neg)"
    using p unfolding m c by (auto simp: Let_def split: if_splits)
  then have "m = (if c = CHR ''-'' \<or> c = CHR ''+'' then [c] else []) @ ds \<and> ds \<noteq> [] \<and> neg = (c = CHR ''-'')"
    using c by (simp split: if_splits)
  then obtain sign where "m = sign @ ds" "sign \<in> {[], ''+'', ''-''}" "ds \<noteq> []" "neg = (sign = ''-'')"
    by (cases "c = CHR ''-''"; cases "c = CHR ''+''") simp_all
  then show "\<exists>i j sign. s = replicate i CHR '' '' @ sign @ ds @ replicate j CHR '' '' \<and> sign \<in> {[], ''+'', ''-''}
      \<and> ds \<noteq> [] \<and> neg = (sign = ''-'')"
    using s by (intro exI [of _ i] exI [of _ j] exI [of _ sign]) simp
next
  assume "\<exists>i j sign. s = replicate i CHR '' '' @ sign @ ds @ replicate j CHR '' '' \<and> sign \<in> {[], ''+'', ''-''}
    \<and> ds \<noteq> [] \<and> neg = (sign = ''-'')"
  then obtain i j sign where s: "s = replicate i CHR '' '' @ (sign @ ds) @ replicate j CHR '' ''"
    "sign \<in> {[], ''+'', ''-''}" "ds \<noteq> []" "neg = (sign = ''-'')" by auto
  have "ascii_isdigit (hd ds)" "ascii_isdigit (last ds)" using assms s(3) by (simp_all add: list_all_iff)
  note h = digit_not_sign [OF this(1)] digit_not_sign [OF this(2)]
  have "sign @ ds \<noteq> []" "\<not> blank (hd (sign @ ds))" "\<not> blank (last (sign @ ds))" using s(2,3) h by auto
  note t = trim_blanks [OF this, of i j, folded s(1)]
  show "safe_parse_sign s = Some (neg, ds)"
    using s(2-4) h unfolding safe_parse_sign_def Let_def t by auto
qed

lemma denotes_iff: "denotes s neg n \<longleftrightarrow>
    (\<exists>ds. safe_parse_sign s = Some (neg, ds) \<and> all_digits ds \<and> n = (if neg then - dec_val ds else dec_val ds))"
proof
  assume "denotes s neg n"
  then show "\<exists>ds. safe_parse_sign s = Some (neg, ds) \<and> all_digits ds \<and> n = (if neg then - dec_val ds else dec_val ds)"
    unfolding denotes_def by (metis safe_parse_sign_iff)
next
  assume "\<exists>ds. safe_parse_sign s = Some (neg, ds) \<and> all_digits ds \<and> n = (if neg then - dec_val ds else dec_val ds)"
  then obtain ds where ds: "safe_parse_sign s = Some (neg, ds)" "all_digits ds" "n = (if neg then - dec_val ds else dec_val ds)"
    by blast
  then obtain i j sign where "s = replicate i CHR '' '' @ sign @ ds @ replicate j CHR '' ''" "sign \<in> {[], ''+'', ''-''}"
    "ds \<noteq> []" "neg = (sign = ''-'')" unfolding safe_parse_sign_iff [OF ds(2)] by blast
  then show "denotes s neg n"
    unfolding denotes_def using ds(2,3) by (intro exI [of _ i] exI [of _ j] exI [of _ sign] exI [of _ ds]) simp
qed

lemma dec_val_pos: "all_digits ds \<Longrightarrow> 0 \<le> dec_val ds"
  using foldl_ge [of ds 0] by (simp add: dec_val_def)

lemma positive_iff:
  "0 \<le> vmax \<Longrightarrow> safe_parse_positive_int vmax ds = (True, n) \<longleftrightarrow> all_digits ds \<and> n = dec_val ds \<and> n \<le> vmax"
  using parse_positive_digits [of ds 0 vmax] parse_positive_bad [of ds vmax 0]
  by (cases "all_digits ds") (auto simp: safe_parse_positive_int_def dec_val_def Let_def)

lemma negative_iff:
  "vmin \<le> 0 \<Longrightarrow> safe_parse_negative_int vmin ds = (True, n) \<longleftrightarrow> all_digits ds \<and> n = - dec_val ds \<and> vmin \<le> n"
  using parse_positive_digits [of ds 0 "- vmin"] parse_positive_bad [of ds "- vmin" 0]
  by (cases "parse_positive_loop (- vmin) ds 0"; cases "all_digits ds")
    (auto simp: safe_parse_negative_int_def parse_negative_eq dec_val_def Let_def split: if_splits)

lemma safe_int_iff:
  assumes "vmin \<le> 0" and "0 \<le> vmax"
  shows "safe_int_internal vmin vmax s = (True, n) \<longleftrightarrow> (\<exists>neg. denotes s neg n) \<and> vmin \<le> n \<and> n \<le> vmax"
proof (cases "safe_parse_sign s")
  case (Some p)
  obtain neg ds where p: "p = (neg, ds)" by fastforce
  have d: "(\<exists>b. denotes s b n) \<longleftrightarrow> all_digits ds \<and> n = (if neg then - dec_val ds else dec_val ds)"
    unfolding denotes_iff Some p by auto
  show ?thesis
    unfolding d safe_int_internal_def Some p
    using positive_iff [OF assms(2), of ds n] negative_iff [OF assms(1), of ds n] dec_val_pos [of ds] assms by auto
qed (simp add: safe_int_internal_def denotes_iff)

lemma safe_uint_iff:
  assumes "0 \<le> vmax"
  shows "safe_uint_internal vmax s = (True, n) \<longleftrightarrow> denotes s False n \<and> n \<le> vmax"
  using positive_iff [OF assms]
  by (auto simp: safe_uint_internal_def denotes_iff split: option.split)

lemma safe_uint_range: "0 \<le> vmax \<Longrightarrow> snd (safe_uint_internal vmax s) \<in> {0..vmax}"
  using parse_positive_range [of 0 vmax]
  by (simp add: safe_uint_internal_def safe_parse_positive_int_def split: option.split)

lemma safe_int_range: "vmin \<le> 0 \<Longrightarrow> 0 \<le> vmax \<Longrightarrow> snd (safe_int_internal vmin vmax s) \<in> {vmin..vmax}"
proof -
  assume v: "vmin \<le> 0" "0 \<le> vmax"
  have "snd (safe_parse_positive_int vmax ds) \<in> {vmin..vmax}" for ds
    using parse_positive_range [of 0 vmax ds] v by (simp add: safe_parse_positive_int_def)
  moreover have "snd (safe_parse_negative_int vmin ds) \<in> {vmin..vmax}" for ds
    using parse_positive_range [of 0 "- vmin" ds] v by (simp add: safe_parse_negative_int_def parse_negative_eq)
  ultimately show ?thesis using v by (simp add: safe_int_internal_def split: option.split)
qed

section \<open>Properties\<close>

text \<open>
  C38: every 32-bit and 64-bit number, signed or not, is written as a text that the parser of its type
  reads back as the number; in particular the smallest negative ones are written without an
  overflow and inside their buffers.
\<close>

theorem itoa_roundtrip:
  "(\<exists>txt. SimpleItoa_int i = Ok txt \<and> safe_strto32 txt = (True, sint i))
   \<and> safe_strtou32 (SimpleItoa_uint u) = (True, uint u)
   \<and> (\<exists>txt. SimpleItoa_int64 j = Ok txt \<and> safe_strto64 txt = (True, sint j))
   \<and> safe_strtou64 (SimpleItoa_uint64 v) = (True, uint v)"
proof (intro conjI)
  have i: "- 2147483648 \<le> sint i" "sint i < 2147483648" using sint_ge [of i] sint_lt [of i] by simp_all
  have j: "- 9223372036854775808 \<le> sint j" "sint j < 9223372036854775808" using sint_ge [of j] sint_lt [of j] by simp_all
  have u: "int (unat u) \<le> 4294967295" using unsigned_less [of u, where ?'a = int] by simp
  have v: "int (unat v) \<le> 18446744073709551615" using unsigned_less [of v, where ?'a = int] by simp
  show "\<exists>txt. SimpleItoa_int i = Ok txt \<and> safe_strto32 txt = (True, sint i)"
    using i safe_int_text [of "- 2147483648" 2147483647 "sint i"]
    by (simp add: SimpleItoa_int_def FastInt32ToBuffer_eq safe_strto32_def)
  show "\<exists>txt. SimpleItoa_int64 j = Ok txt \<and> safe_strto64 txt = (True, sint j)"
    using j safe_int_text [of "- 9223372036854775808" 9223372036854775807 "sint j"]
    by (simp add: SimpleItoa_int64_def FastInt64ToBuffer_eq safe_strto64_def)
  show "safe_strtou32 (SimpleItoa_uint u) = (True, uint u)"
    using safe_uint_text [OF u] by (simp add: SimpleItoa_uint_def FastUInt32ToBufferLeft_eq safe_strtou32_def)
  show "safe_strtou64 (SimpleItoa_uint64 v) = (True, uint v)"
    using safe_uint_text [OF v] by (simp add: SimpleItoa_uint64_def FastUInt64ToBufferLeft_eq safe_strtou64_def)
qed

text \<open>
  The unrolled writers, which print two digits at a time from a table of a hundred pairs and
  jump into the middle of the sequence for shorter numbers, print the same decimal digits as the loop
  that divides by ten; the negation of the smallest number wraps to the right value.
\<close>

theorem left_writers_agree:
  "FastInt32ToBuffer (sint i) = Ok (FastInt32ToBufferLeft i []) \<and> FastInt64ToBuffer (sint j) = Ok (FastInt64ToBufferLeft j [])
   \<and> FastUInt32ToBufferLeft u buf = buf @ digits False 10 (unat u)
   \<and> FastUInt64ToBufferLeft v buf = buf @ digits False 10 (unat v)"
proof (intro conjI)
  show "FastInt32ToBuffer (sint i) = Ok (FastInt32ToBufferLeft i [])"
    by (simp add: FastInt32ToBuffer_eq FastInt32ToBufferLeft_def FastUInt32ToBufferLeft_eq int_text_def nat_uminus_sint nat_sint_pos)
  show "FastInt64ToBuffer (sint j) = Ok (FastInt64ToBufferLeft j [])"
    by (simp add: FastInt64ToBuffer_eq FastInt64ToBufferLeft_def FastUInt64ToBufferLeft_eq int_text_def nat_uminus_sint nat_sint_pos)
qed (rule FastUInt32ToBufferLeft_eq FastUInt64ToBufferLeft_eq)+



end
