(* ===== verification/Base64.thy ===== *)
theory Base64
  imports Ascii
begin

text \<open>
  Base64 in \<^verbatim>\<open>protobuf/stubs/strutil.cc\<close>. Texts and data are byte lists. \<open>Null\<close> is the result -1 of
  the decoder, \<open>OOB\<close> a read behind the input or a write behind the output, \<open>Fatal\<close> the log message
  for a state that should not occur. The output buffer is given by its size; the decoder's
  check-only mode, a second copy of its first loop for a null output, is left out: the string overloads
  reach it only with an empty text, for which the loop does not run.
\<close>

section \<open>Encoder\<close>

text \<open>\<^verbatim>\<open>BigEndian::Load16\<close> and \<^verbatim>\<open>Load32\<close>\<close>

definition be_load :: "byte list \<Rightarrow> u32" where
  "be_load bs = foldl (\<lambda>v b. push_bit 8 v OR ucast b) 0 bs"

text \<open>The number of characters; an \<^verbatim>\<open>int\<close>, which the sizes here do not overflow.\<close>

definition CalculateBase64EscapedLen :: "nat \<Rightarrow> bool \<Rightarrow> nat" where
  "CalculateBase64EscapedLen input_len do_padding =
     (let len = input_len div 3 * 4
      in if input_len mod 3 = 0 then len
         else if input_len mod 3 = 1 then (if do_padding then len + 2 + 2 else len + 2)
         else (if do_padding then len + 3 + 1 else len + 3))"

definition kPad64 :: byte where "kPad64 = 0x3D"

text \<open>The four characters of 24 bits.\<close>

definition four_chars :: "byte list \<Rightarrow> u32 \<Rightarrow> byte list" where
  "four_chars base64 n =
     (let c0 = base64 ! unat (drop_bit 18 n); n = n AND 0x3FFFF;
          c1 = base64 ! unat (drop_bit 12 n); n = n AND 0xFFF;
          c2 = base64 ! unat (drop_bit 6 n); n = n AND 0x3F;
          c3 = base64 ! unat n
      in [c0, c1, c2, c3])"

definition put_chars :: "nat \<Rightarrow> byte list \<Rightarrow> byte list \<Rightarrow> byte list pres" where
  "put_chars szdest dest cs = (if length dest + length cs > szdest then OOB else Ok (dest @ cs))"

text \<open>Three bytes at a time while more than three are left; then what was written and what is left.\<close>

fun escape_loop :: "byte list \<Rightarrow> nat \<Rightarrow> byte list \<Rightarrow> byte list \<Rightarrow> (byte list \<times> byte list) pres" where
  "escape_loop base64 szdest (b0 # b1 # b2 # b3 # src) dest =
     pbind (put_chars szdest dest (four_chars base64 (drop_bit 8 (be_load [b0, b1, b2, b3]))))
       (escape_loop base64 szdest (b3 # src))"
| "escape_loop base64 szdest src dest = Ok (dest, src)"

text \<open>The last one to three bytes; \<open>Ok []\<close>: returns 0.\<close>

definition escape_tail :: "byte list \<Rightarrow> nat \<Rightarrow> bool \<Rightarrow> byte list \<Rightarrow> byte list \<Rightarrow> byte list pres" where
  "escape_tail base64 szdest do_padding dest src =
     (let room = int szdest - int (length dest)
      in case src of
        [] \<Rightarrow> Ok dest
      | [b0] \<Rightarrow>
          if room - 2 < 0 then Ok []
          else let n = (ucast b0 :: u32); c0 = base64 ! unat (drop_bit 2 n); n = n AND 0x3; c1 = base64 ! unat (push_bit 4 n)
            in pbind (put_chars szdest dest [c0, c1]) (\<lambda>dest.
              if do_padding then (if room - 2 - 2 < 0 then Ok [] else put_chars szdest dest [kPad64, kPad64]) else Ok dest)
      | [b0, b1] \<Rightarrow>
          if room - 3 < 0 then Ok []
          else let n = be_load [b0, b1]; c0 = base64 ! unat (drop_bit 10 n); n = n AND 0x3FF;
              c1 = base64 ! unat (drop_bit 4 n); n = n AND 0xF; c2 = base64 ! unat (push_bit 2 n)
            in pbind (put_chars szdest dest [c0, c1, c2]) (\<lambda>dest.
              if do_padding then (if room - 3 - 1 < 0 then Ok [] else put_chars szdest dest [kPad64]) else Ok dest)
      | [b0, b1, b2] \<Rightarrow>
          if room - 4 < 0 then Ok []
          else put_chars szdest dest (four_chars base64 (push_bit 16 (ucast b0) + be_load [b1, b2]))
      | _ \<Rightarrow> Fatal)"

definition Base64EscapeInternal :: "byte list \<Rightarrow> nat \<Rightarrow> byte list \<Rightarrow> bool \<Rightarrow> byte list pres" where
  "Base64EscapeInternal src szdest base64 do_padding =
     (if src = [] then Ok []
      else if length src * 4 > szdest * 3 then Ok []
      else pbind (escape_loop base64 szdest src []) (\<lambda>(dest, src). escape_tail base64 szdest do_padding dest src))"

text \<open>The overload for a string: it is resized to the computed length first.\<close>

definition Base64EscapeInternal_string :: "byte list \<Rightarrow> bool \<Rightarrow> byte list \<Rightarrow> byte list pres" where
  "Base64EscapeInternal_string src do_padding base64_chars =
     Base64EscapeInternal src (CalculateBase64EscapedLen (length src) do_padding) base64_chars do_padding"

definition kBase64Chars :: "byte list" where
  "kBase64Chars = map of_char ''ABCDEFGHIJKLMNOPQRSTUVWXYZabcdefghijklmnopqrstuvwxyz0123456789+/''"

definition kWebSafeBase64Chars :: "byte list" where
  "kWebSafeBase64Chars = map of_char ''ABCDEFGHIJKLMNOPQRSTUVWXYZabcdefghijklmnopqrstuvwxyz0123456789-_''"

definition Base64Escape :: "byte list \<Rightarrow> bool \<Rightarrow> byte list pres" where
  "Base64Escape src do_padding = Base64EscapeInternal_string src do_padding kBase64Chars"

definition WebSafeBase64Escape :: "byte list \<Rightarrow> bool \<Rightarrow> byte list pres" where
  "WebSafeBase64Escape src do_padding = Base64EscapeInternal_string src do_padding kWebSafeBase64Chars"

text \<open>The overloads with fixed padding.\<close>

definition CalculateBase64EscapedLen_padded :: "nat \<Rightarrow> nat" where
  "CalculateBase64EscapedLen_padded input_len = CalculateBase64EscapedLen input_len True"

definition Base64Escape_piece :: "byte list \<Rightarrow> byte list pres" where
  "Base64Escape_piece src = Base64Escape src True"

definition WebSafeBase64Escape_piece :: "byte list \<Rightarrow> byte list pres" where
  "WebSafeBase64Escape_piece src = WebSafeBase64Escape src False"

definition WebSafeBase64EscapeWithPadding :: "byte list \<Rightarrow> byte list pres" where
  "WebSafeBase64EscapeWithPadding src = WebSafeBase64Escape src True"

text \<open>The overloads that write to a buffer of the caller.\<close>

definition Base64Escape_buffer :: "byte list \<Rightarrow> nat \<Rightarrow> byte list pres" where
  "Base64Escape_buffer src szdest = Base64EscapeInternal src szdest kBase64Chars True"

definition WebSafeBase64Escape_buffer :: "byte list \<Rightarrow> nat \<Rightarrow> bool \<Rightarrow> byte list pres" where
  "WebSafeBase64Escape_buffer src szdest do_padding = Base64EscapeInternal src szdest kWebSafeBase64Chars do_padding"

section \<open>Decoder\<close>

definition kUnBase64 :: "int list" where
  "kUnBase64 =
    [-1, -1, -1, -1, -1, -1, -1, -1, -1, -1, -1, -1, -1, -1, -1, -1,
     -1, -1, -1, -1, -1, -1, -1, -1, -1, -1, -1, -1, -1, -1, -1, -1,
     -1, -1, -1, -1, -1, -1, -1, -1, -1, -1, -1, 62, -1, -1, -1, 63,
     52, 53, 54, 55, 56, 57, 58, 59, 60, 61, -1, -1, -1, -1, -1, -1,
     -1, 0, 1, 2, 3, 4, 5, 6, 7, 8, 9, 10, 11, 12, 13, 14,
     15, 16, 17, 18, 19, 20, 21, 22, 23, 24, 25, -1, -1, -1, -1, -1,
     -1, 26, 27, 28, 29, 30, 31, 32, 33, 34, 35, 36, 37, 38, 39, 40,
     41, 42, 43, 44, 45, 46, 47, 48, 49, 50, 51, -1, -1, -1, -1, -1,
     -1, -1, -1, -1, -1, -1, -1, -1, -1, -1, -1, -1, -1, -1, -1, -1,
     -1, -1, -1, -1, -1, -1, -1, -1, -1, -1, -1, -1, -1, -1, -1, -1,
     -1, -1, -1, -1, -1, -1, -1, -1, -1, -1, -1, -1, -1, -1, -1, -1,
     -1, -1, -1, -1, -1, -1, -1, -1, -1, -1, -1, -1, -1, -1, -1, -1,
     -1, -1, -1, -1, -1, -1, -1, -1, -1, -1, -1, -1, -1, -1, -1, -1,
     -1, -1, -1, -1, -1, -1, -1, -1, -1, -1, -1, -1, -1, -1, -1, -1,
     -1, -1, -1, -1, -1, -1, -1, -1, -1, -1, -1, -1, -1, -1, -1, -1,
     -1, -1, -1, -1, -1, -1, -1, -1, -1, -1, -1, -1, -1, -1, -1, -1]"

definition kUnWebSafeBase64 :: "int list" where
  "kUnWebSafeBase64 =
    [-1, -1, -1, -1, -1, -1, -1, -1, -1, -1, -1, -1, -1, -1, -1, -1,
     -1, -1, -1, -1, -1, -1, -1, -1, -1, -1, -1, -1, -1, -1, -1, -1,
     -1, -1, -1, -1, -1, -1, -1, -1, -1, -1, -1, -1, -1, 62, -1, -1,
     52, 53, 54, 55, 56, 57, 58, 59, 60, 61, -1, -1, -1, -1, -1, -1,
     -1, 0, 1, 2, 3, 4, 5, 6, 7, 8, 9, 10, 11, 12, 13, 14,
     15, 16, 17, 18, 19, 20, 21, 22, 23, 24, 25, -1, -1, -1, -1, 63,
     -1, 26, 27, 28, 29, 30, 31, 32, 33, 34, 35, 36, 37, 38, 39, 40,
     41, 42, 43, 44, 45, 46, 47, 48, 49, 50, 51, -1, -1, -1, -1, -1,
     -1, -1, -1, -1, -1, -1, -1, -1, -1, -1, -1, -1, -1, -1, -1, -1,
     -1, -1, -1, -1, -1, -1, -1, -1, -1, -1, -1, -1, -1, -1, -1, -1,
     -1, -1, -1, -1, -1, -1, -1, -1, -1, -1, -1, -1, -1, -1, -1, -1,
     -1, -1, -1, -1, -1, -1, -1, -1, -1, -1, -1, -1, -1, -1, -1, -1,
     -1, -1, -1, -1, -1, -1, -1, -1, -1, -1, -1, -1, -1, -1, -1, -1,
     -1, -1, -1, -1, -1, -1, -1, -1, -1, -1, -1, -1, -1, -1, -1, -1,
     -1, -1, -1, -1, -1, -1, -1, -1, -1, -1, -1, -1, -1, -1, -1, -1,
     -1, -1, -1, -1, -1, -1, -1, -1, -1, -1, -1, -1, -1, -1, -1, -1]"

text \<open>The local variables; \<open>out\<close> are the \<^verbatim>\<open>destidx\<close> bytes written.\<close>

record decoder =
  src :: "byte list"
  out :: "byte list"
  decode :: int
  ch :: byte
  temp :: u32
  dstate :: nat

definition space_byte :: "byte \<Rightarrow> bool" where
  "space_byte b = ascii_isspace (char_of (unat b))"

text \<open>\<^verbatim>\<open>temp = (temp << 6) | decode\<close>\<close>

definition shift_in :: "u32 \<Rightarrow> int \<Rightarrow> u32" where
  "shift_in t d = push_bit 6 t OR of_int d"

text \<open>\<^verbatim>\<open>GET_INPUT\<close>; \<open>False\<close>: it left the loop.\<close>

fun get_input :: "int list \<Rightarrow> nat \<Rightarrow> byte list \<Rightarrow> decoder \<Rightarrow> (bool \<times> decoder) pres" where
  "get_input unbase64 remain [] s = OOB"
| "get_input unbase64 remain (c # rest) s =
     (let d = unbase64 ! unat c; s = s\<lparr>src := rest, ch := c, decode := d\<rparr>
      in if d < 0 then
           (if space_byte c \<and> length rest \<ge> remain then get_input unbase64 remain rest s
            else Ok (False, s\<lparr>dstate := 4 - remain\<rparr>))
         else Ok (True, s))"

definition next_input :: "int list \<Rightarrow> nat \<Rightarrow> decoder \<Rightarrow> (bool \<times> decoder) pres" where
  "next_input unbase64 remain s =
     pbind (get_input unbase64 remain (src s) s) (\<lambda>(ok, s).
       Ok (ok, if ok then s\<lparr>temp := shift_in (temp s) (decode s)\<rparr> else s))"

definition slow_group :: "int list \<Rightarrow> decoder \<Rightarrow> (bool \<times> decoder) pres" where
  "slow_group unbase64 s =
     pbind (get_input unbase64 4 (src s) s) (\<lambda>(ok, s).
       if \<not> ok then Ok (False, s)
       else pbind (next_input unbase64 3 (s\<lparr>temp := of_int (decode s)\<rparr>)) (\<lambda>(ok, s).
         if \<not> ok then Ok (False, s)
         else pbind (next_input unbase64 2 s) (\<lambda>(ok, s).
           if \<not> ok then Ok (False, s) else next_input unbase64 1 s)))"

definition write_three :: "nat \<Rightarrow> decoder \<Rightarrow> decoder pres" where
  "write_three szdest s =
     (if length (out s) + 3 > szdest then Null
      else Ok (s\<lparr>out := out s @ [ucast (drop_bit 16 (temp s)), ucast (drop_bit 8 (temp s)), ucast (temp s)],
                 temp := drop_bit 16 (temp s)\<rparr>))"

definition quick_temp :: "int list \<Rightarrow> byte \<Rightarrow> byte \<Rightarrow> byte \<Rightarrow> byte \<Rightarrow> u32" where
  "quick_temp unbase64 b0 b1 b2 b3 =
     push_bit 18 (of_int (unbase64 ! unat b0)) OR push_bit 12 (of_int (unbase64 ! unat b1))
     OR push_bit 6 (of_int (unbase64 ! unat b2)) OR of_int (unbase64 ! unat b3)"

lemma get_input_shrinks: "get_input t r bs s = Ok (b, s') \<Longrightarrow> length (src s') < length bs"
  by (induction t r bs s rule: get_input.induct) (auto simp: Let_def less_Suc_eq split: if_splits)

lemma slow_group_shrinks: "slow_group t s = Ok (b, s') \<Longrightarrow> length (src s') < length (src s)"
  by (auto simp: slow_group_def next_input_def pbind_eq_Ok split: if_splits dest!: get_input_shrinks)

text \<open>The first loop; \<^verbatim>\<open>temp\<close> is assigned when none of the first three characters is NUL.\<close>

function decode_groups :: "int list \<Rightarrow> nat \<Rightarrow> decoder \<Rightarrow> decoder pres" where
  "decode_groups unbase64 szdest s =
     (case src s of
        b0 # b1 # b2 # b3 # rest \<Rightarrow>
          let nul = (b0 = 0 \<or> b1 = 0 \<or> b2 = 0);
              t = quick_temp unbase64 b0 b1 b2 b3;
              s = (if nul then s else s\<lparr>temp := t\<rparr>)
          in if nul \<or> t AND 0x80000000 \<noteq> 0 then
               pbind (slow_group unbase64 s) (\<lambda>(ok, s).
                 if \<not> ok then Ok s else pbind (write_three szdest s) (decode_groups unbase64 szdest))
             else pbind (write_three szdest (s\<lparr>src := rest, decode := -1, ch := 0\<rparr>)) (decode_groups unbase64 szdest)
      | _ \<Rightarrow> Ok s)"
  by pat_completeness auto
termination
  by (relation "measure (\<lambda>(_, _, s). length (src s))")
    (auto simp: write_three_def dest!: slow_group_shrinks split: if_splits)

declare decode_groups.simps [simp del]

definition is_pad :: "byte \<Rightarrow> bool" where
  "is_pad c \<longleftrightarrow> c = 0x3D \<or> c = 0x2E"

text \<open>The second loop, one character at a time.\<close>

fun decode_tail :: "int list \<Rightarrow> nat \<Rightarrow> byte list \<Rightarrow> decoder \<Rightarrow> decoder pres" where
  "decode_tail unbase64 szdest [] s = Ok s"
| "decode_tail unbase64 szdest (c # rest) s =
     (let d = unbase64 ! unat c; s = s\<lparr>src := rest, ch := c, decode := d\<rparr>
      in if d < 0 then
           (if space_byte c then decode_tail unbase64 szdest rest s
            else if c = 0 then Ok s
            else if is_pad c then Ok (s\<lparr>src := c # rest\<rparr>)
            else Null)
         else let s = s\<lparr>temp := shift_in (temp s) d, dstate := dstate s + 1\<rparr>
              in if dstate s = 4 then
                   pbind (write_three szdest s) (\<lambda>s. decode_tail unbase64 szdest rest (s\<lparr>dstate := 0, temp := 0\<rparr>))
                 else decode_tail unbase64 szdest rest s)"

text \<open>The bits left over; the number of pad characters expected with them.\<close>

definition decode_leftover :: "nat \<Rightarrow> decoder \<Rightarrow> (decoder \<times> nat) pres" where
  "decode_leftover szdest s =
     (if dstate s = 0 then Ok (s, 0)
      else if dstate s = 1 then Null
      else if dstate s = 2 then
        (if length (out s) + 1 > szdest then Null
         else Ok (s\<lparr>out := out s @ [ucast (drop_bit 4 (temp s))]\<rparr>, 2))
      else if dstate s = 3 then
        (if length (out s) + 2 > szdest then Null
         else let t = drop_bit 2 (temp s) in Ok (s\<lparr>out := out s @ [ucast (drop_bit 8 t), ucast t]\<rparr>, 1))
      else Fatal)"

fun count_equals :: "byte list \<Rightarrow> nat \<Rightarrow> nat pres" where
  "count_equals [] equals = Ok equals"
| "count_equals (c # rest) equals =
     (if c = 0 then Ok equals
      else if is_pad c then count_equals rest (equals + 1)
      else if \<not> space_byte c then Null
      else count_equals rest equals)"

text \<open>Everything after the first loop.\<close>

definition decode_finish :: "int list \<Rightarrow> nat \<Rightarrow> decoder \<Rightarrow> byte list pres" where
  "decode_finish unbase64 szdest s =
     (if decode s < 0 \<and> ch s \<noteq> 0 \<and> \<not> is_pad (ch s) \<and> \<not> space_byte (ch s) then Null
      else pbind (if is_pad (ch s) then Ok (s\<lparr>src := ch s # src s\<rparr>) else decode_tail unbase64 szdest (src s) s) (\<lambda>s.
        pbind (decode_leftover szdest s) (\<lambda>(s, expected_equals).
          pbind (count_equals (src s) 0) (\<lambda>equals.
            if equals = 0 \<or> equals = expected_equals then Ok (out s) else Null))))"

definition Base64UnescapeInternal :: "byte list \<Rightarrow> nat \<Rightarrow> int list \<Rightarrow> byte list pres" where
  "Base64UnescapeInternal src_param szdest unbase64 =
     pbind (decode_groups unbase64 szdest \<lparr>src = src_param, out = [], decode = 0, ch = 0, temp = 0, dstate = 0\<rparr>)
       (decode_finish unbase64 szdest)"

text \<open>The overload for a string; \<open>Ok None\<close>: returns false.\<close>

definition Base64UnescapeInternal_string :: "byte list \<Rightarrow> int list \<Rightarrow> byte list option pres" where
  "Base64UnescapeInternal_string src_param unbase64 =
     (let dest_len = 3 * (length src_param div 4) + length src_param mod 4
      in case Base64UnescapeInternal src_param dest_len unbase64 of
           Ok bs \<Rightarrow> Ok (Some bs) | Null \<Rightarrow> Ok None | OOB \<Rightarrow> OOB | Fatal \<Rightarrow> Fatal | NoFuel \<Rightarrow> NoFuel)"

definition Base64Unescape :: "byte list \<Rightarrow> byte list option pres" where
  "Base64Unescape s = Base64UnescapeInternal_string s kUnBase64"

definition WebSafeBase64Unescape_buffer :: "byte list \<Rightarrow> nat \<Rightarrow> byte list pres" where
  "WebSafeBase64Unescape_buffer src_param szdest = Base64UnescapeInternal src_param szdest kUnWebSafeBase64"

definition WebSafeBase64Unescape :: "byte list \<Rightarrow> byte list option pres" where
  "WebSafeBase64Unescape s = Base64UnescapeInternal_string s kUnWebSafeBase64"


section \<open>Words of 24 bits\<close>

lemma unat_or_shift:
  fixes x y :: u32
  assumes "unat y < 2 ^ k" and "unat x * 2 ^ k < 2 ^ 32"
  shows "unat (push_bit k x OR y) = unat x * 2 ^ k + unat y"
proof -
  have "unat (push_bit k x) = take_bit LENGTH(32) (push_bit k (unat x))" by (rule unsigned_push_bit_eq)
  also have "\<dots> = unat x * 2 ^ k" using assms(2) by (simp add: push_bit_eq_mult take_bit_nat_eq_self)
  finally have "unat (push_bit k x) = unat x * 2 ^ k" .
  moreover have "push_bit k (unat x) OR unat y = push_bit k (unat x) + unat y"
  proof (rule disjunctive_add_eq_or [symmetric], rule bit_eqI)
    fix n
    have "take_bit k (unat y) = unat y" using assms(1) by (rule take_bit_nat_eq_self)
    then have "\<not> bit (unat y) n" if "k \<le> n"
      using that bit_take_bit_iff [of k "unat y" n] by simp
    then show "bit (push_bit k (unat x) AND unat y) n = bit 0 n" by (auto simp: bit_simps)
  qed
  ultimately show ?thesis by (simp add: unsigned_or_eq push_bit_eq_mult)
qed

lemma unat_and_mask: "unat ((w :: u32) AND mask k) = unat w mod 2 ^ k"
proof -
  have "unat (w AND mask k) = take_bit k (unat w)" by (simp only: unsigned_take_bit_eq flip: take_bit_eq_mask)
  then show ?thesis by (simp only: take_bit_eq_mod)
qed

lemma mod_div: "0 < a \<Longrightarrow> n mod (a * b) div a = n div a mod (b :: nat)"
  by (simp add: mod_mult2_eq)

lemma masks: "(0x3FFFF :: u32) = mask 18" "(0xFFF :: u32) = mask 12" "(0x3F :: u32) = mask 6"
  "(0x3 :: u32) = mask 2" "(0x3FF :: u32) = mask 10" "(0xF :: u32) = mask 4"
  by (simp_all add: mask_eq_exp_minus_1)

lemma unat_be_load:
  "unat (be_load [b0, b1]) = unat b0 * 256 + unat b1"
  "unat (be_load [b0, b1, b2, b3]) = ((unat b0 * 256 + unat b1) * 256 + unat b2) * 256 + unat b3"
proof -
  have u: "unat (ucast (b :: byte) :: u32) = unat b" "unat b < 256" for b
    using unat_byte_less [of b] by (simp_all add: unsigned_ucast_eq take_bit_nat_eq_self)
  have step: "unat (push_bit 8 v OR ucast b) = unat v * 256 + unat b" if "unat v < 2 ^ 24" for v :: u32 and b :: byte
    using that u [of b] unat_or_shift [of "ucast b :: u32" 8 v] by simp
  have 0: "unat (push_bit 8 0 OR ucast b0 :: u32) = unat b0" using step [of 0 b0] by simp
  have 1: "unat (push_bit 8 (push_bit 8 0 OR ucast b0) OR ucast b1 :: u32) = unat b0 * 256 + unat b1"
    using u(2) [of b0] by (subst step) (simp_all only: 0, simp)
  then show "unat (be_load [b0, b1]) = unat b0 * 256 + unat b1" by (simp add: be_load_def)
  have 2: "unat (push_bit 8 (push_bit 8 (push_bit 8 0 OR ucast b0) OR ucast b1) OR ucast b2 :: u32)
      = (unat b0 * 256 + unat b1) * 256 + unat b2"
    using u(2) [of b0] u(2) [of b1] by (subst step) (simp_all only: 1, simp)
  show "unat (be_load [b0, b1, b2, b3]) = ((unat b0 * 256 + unat b1) * 256 + unat b2) * 256 + unat b3"
    using u(2) [of b0] u(2) [of b1] u(2) [of b2] unfolding be_load_def foldl.simps
    by (subst step) (simp_all only: 2, simp)
qed

text \<open>The four six-bit groups of 24 bits.\<close>

definition sextets :: "nat \<Rightarrow> nat list" where
  "sextets n = [n div 2 ^ 18 mod 64, n div 2 ^ 12 mod 64, n div 2 ^ 6 mod 64, n mod 64]"

lemma four_chars_eq: "unat n < 2 ^ 24 \<Longrightarrow> four_chars base64 n = map ((!) base64) (sextets (unat n))"
proof -
  assume n: "unat n < 2 ^ 24"
  have m: "unat n mod 2 ^ 18 div 2 ^ 12 = unat n div 2 ^ 12 mod 64" "unat n mod 2 ^ 12 div 2 ^ 6 = unat n div 2 ^ 6 mod 64"
    using mod_div [of "2 ^ 12" "unat n" 64] mod_div [of "2 ^ 6" "unat n" 64] by simp_all
  have "unat n div 2 ^ 18 mod 64 = unat n div 2 ^ 18" using n by (simp add: less_mult_imp_div_less)
  then show ?thesis
    using m by (simp add: four_chars_def Let_def masks unat_and_mask sextets_def unat_drop_bit_eq drop_bit_nat_def mod_mod_cancel)
qed


section \<open>The text of some data\<close>

fun enc :: "byte list \<Rightarrow> bool \<Rightarrow> byte list \<Rightarrow> byte list" where
  "enc base64 pad [] = []"
| "enc base64 pad [x] = map ((!) base64) (take 2 (sextets (unat x * 65536))) @ (if pad then [kPad64, kPad64] else [])"
| "enc base64 pad [x, y] =
     map ((!) base64) (take 3 (sextets (unat x * 65536 + unat y * 256))) @ (if pad then [kPad64] else [])"
| "enc base64 pad (x # y # z # rest) =
     map ((!) base64) (sextets (unat x * 65536 + unat y * 256 + unat z)) @ enc base64 pad rest"

lemma length_enc: "length (enc base64 pad bs) = CalculateBase64EscapedLen (length bs) pad"
proof (induction base64 pad bs rule: enc.induct)
  case (4 base64 pad x y z rest)
  have "CalculateBase64EscapedLen (length (x # y # z # rest)) pad = 4 + CalculateBase64EscapedLen (length rest) pad"
  proof -
    have "(3 + length rest) div 3 = length rest div 3 + 1" by simp
    then show ?thesis by (simp add: CalculateBase64EscapedLen_def Let_def)
  qed
  then show ?case using 4 by (simp add: sextets_def)
qed (simp_all add: CalculateBase64EscapedLen_def sextets_def)

lemma bytes_24: "unat (x :: byte) * 65536 + unat y * 256 + unat z < 2 ^ 24" for y z :: byte
  using unat_byte_less [of x] unat_byte_less [of y] unat_byte_less [of z] by simp

lemma escape_loop_eq:
  "length dest + length (enc base64 pad bs) \<le> n \<Longrightarrow> \<exists>d r. escape_loop base64 n bs dest = Ok (dest @ d, r)
     \<and> length r \<le> 3 \<and> enc base64 pad bs = d @ enc base64 pad r \<and> (r = [] \<longrightarrow> bs = [])"
proof (induction base64 n bs dest rule: escape_loop.induct)
  case (1 base64 n b0 b1 b2 b3 bs dest)
  define m where "m = drop_bit 8 (be_load [b0, b1, b2, b3])"
  have m: "unat m = unat b0 * 65536 + unat b1 * 256 + unat b2"
    using unat_byte_less [of b3] by (simp add: m_def unat_drop_bit_eq drop_bit_nat_def unat_be_load)
  have four: "four_chars base64 m = map ((!) base64) (sextets (unat b0 * 65536 + unat b1 * 256 + unat b2))"
    using four_chars_eq [of m base64] bytes_24 [of b0 b1 b2] by (simp only: m)
  have l: "length (four_chars base64 m) = 4" by (simp add: four sextets_def)
  have put: "put_chars n dest (four_chars base64 m) = Ok (dest @ four_chars base64 m)"
    using 1(2) l by (simp add: put_chars_def sextets_def)
  have "length (dest @ four_chars base64 m) + length (enc base64 pad (b3 # bs)) \<le> n"
    using 1(2) l by (simp add: sextets_def)
  from 1(1) [OF put [unfolded m_def] this [unfolded m_def]] obtain d r where
    "escape_loop base64 n (b3 # bs) (dest @ four_chars base64 m) = Ok ((dest @ four_chars base64 m) @ d, r)"
    "length r \<le> 3" "enc base64 pad (b3 # bs) = d @ enc base64 pad r" "r = [] \<longrightarrow> b3 # bs = []"
    unfolding m_def by blast
  then show ?case
    using put four by (intro exI [of _ "four_chars base64 m @ d"] exI [of _ r]) (simp add: m_def)
qed auto

lemma scaled:
  fixes a m :: nat
  shows "a * 65536 div 2 ^ 18 = a div 4" "a * 65536 div 2 ^ 12 mod 64 = a mod 4 * 16"
    "m * 256 div 2 ^ 18 = m div 1024" "m * 256 div 2 ^ 12 mod 64 = m mod 1024 div 16" "m * 256 div 2 ^ 6 mod 64 = m mod 16 * 4"
proof -
  show "a * 65536 div 2 ^ 18 = a div 4" using div_mult_mult2 [of 65536 a 4] by simp
  show "a * 65536 div 2 ^ 12 mod 64 = a mod 4 * 16"
    using nonzero_mult_div_cancel_right [of "4096 :: nat" "a * 16"] mod_mult_mult2 [of a 16 4] by (simp add: mult.commute)
  show "m * 256 div 2 ^ 18 = m div 1024" using div_mult_mult2 [of 256 m 1024] by simp
  show "m * 256 div 2 ^ 12 mod 64 = m mod 1024 div 16"
    using div_mult_mult2 [of 256 m 16] mod_div [of 16 m 64] by simp
  show "m * 256 div 2 ^ 6 mod 64 = m mod 16 * 4"
    using nonzero_mult_div_cancel_right [of "64 :: nat" "m * 4"] mod_mult_mult2 [of m 4 16] by (simp add: mult.commute)
qed

lemma unat_shift: "unat (w :: u32) * 2 ^ k < 2 ^ 32 \<Longrightarrow> unat (push_bit k w) = unat w * 2 ^ k"
  using unat_or_shift [of 0 k w] by simp

lemma unat_ucast_byte: "unat (ucast (b :: byte) :: u32) = unat b"
  using unat_byte_less [of b] by (simp add: unsigned_ucast_eq take_bit_nat_eq_self)

lemma escape_tail_eq:
  assumes "length r \<le> 3" and "length dest + length (enc base64 pad r) \<le> n"
  shows "escape_tail base64 n pad dest r = Ok (dest @ enc base64 pad r)"
proof -
  consider "r = []" | x where "r = [x]" | x y where "r = [x, y]" | x y z where "r = [x, y, z]"
    using assms(1) by (cases r; cases "tl r"; cases "tl (tl r)"; cases "tl (tl (tl r))") auto
  then show ?thesis
  proof cases
    case 1
    then show ?thesis by (simp add: escape_tail_def)
  next
    case (2 x)
    have x: "unat x < 256" by (rule unat_byte_less)
    have "unat (drop_bit 2 (ucast x :: u32)) = unat x div 4" by (simp add: unat_drop_bit_eq drop_bit_nat_def unat_ucast_byte)
    moreover have "unat (push_bit 4 (ucast x AND 3 :: u32)) = unat x mod 4 * 16"
      by (subst unat_shift) (simp_all add: masks unat_and_mask unat_ucast_byte)
    moreover have "unat x div 4 mod 64 = unat x div 4" using x by (simp add: less_mult_imp_div_less)
    ultimately show ?thesis
      using 2 assms(2) scaled(1,2) [of "unat x"]
      by (cases pad) (simp_all add: escape_tail_def put_chars_def sextets_def Let_def)
  next
    case (3 x y)
    define m where "m = be_load [x, y]"
    have m: "unat m = unat x * 256 + unat y" by (simp add: m_def unat_be_load)
    then have lt: "unat m < 65536" using unat_byte_less [of x] unat_byte_less [of y] by simp
    have "unat (drop_bit 10 m) = unat m div 1024" by (simp add: unat_drop_bit_eq drop_bit_nat_def)
    moreover have "unat (drop_bit 4 (m AND 0x3FF)) = unat m mod 1024 div 16"
    proof -
      have "unat (drop_bit 4 (m AND 0x3FF)) = unat (m AND mask 10) div 2 ^ 4"
        by (simp only: unat_drop_bit_eq drop_bit_nat_def masks(5))
      then show ?thesis unfolding unat_and_mask by simp
    qed
    moreover have "unat (push_bit 2 ((m AND 0x3FF) AND 0xF)) = unat m mod 16 * 4"
    proof -
      have "unat ((m AND 0x3FF) AND 0xF) = unat m mod 16"
        unfolding masks(5,6) unat_and_mask by (simp add: mod_mod_cancel)
      then show ?thesis by (subst unat_shift) simp_all
    qed
    moreover have "unat m div 1024 mod 64 = unat m div 1024" using lt by (simp add: less_mult_imp_div_less)
    moreover have "unat x * 65536 + unat y * 256 = unat m * 256" by (simp add: m)
    ultimately show ?thesis
      using 3 assms(2) scaled(3-5) [of "unat m"] unfolding escape_tail_def m_def [symmetric]
      by (cases pad) (simp_all add: put_chars_def sextets_def Let_def m_def [symmetric])
  next
    case (4 x y z)
    define m where "m = push_bit 16 (ucast x) + be_load [y, z]"
    have s: "unat (push_bit 16 (ucast x) :: u32) = unat x * 65536"
      using unat_byte_less [of x] by (subst unat_shift) (simp_all add: unat_ucast_byte)
    have "unat (push_bit 16 (ucast x) :: u32) + unat (be_load [y, z]) < 2 ^ 32"
      using unat_byte_less [of x] unat_byte_less [of y] unat_byte_less [of z] unfolding s unat_be_load by simp
    then have m: "unat m = unat x * 65536 + unat y * 256 + unat z"
      using s by (simp add: m_def unat_word_ariths unat_be_load)
    have "four_chars base64 m = map ((!) base64) (sextets (unat x * 65536 + unat y * 256 + unat z))"
      using four_chars_eq [of m base64] bytes_24 [of x y z] by (simp only: m)
    then show ?thesis using 4 assms(2) by (simp add: escape_tail_def put_chars_def sextets_def Let_def m_def [symmetric])
  qed
qed

lemma Base64EscapeInternal_eq:
  assumes "length (enc base64 pad bs) = n"
  shows "Base64EscapeInternal bs n base64 pad = Ok (enc base64 pad bs)"
proof (cases "bs = []")
  case False
  obtain d r where d: "escape_loop base64 n bs [] = Ok (d, r)" "length r \<le> 3" "enc base64 pad bs = d @ enc base64 pad r"
    using escape_loop_eq [of "[]" base64 pad bs n] assms by auto
  have "4 * length bs \<le> 3 * length (enc base64 pad bs)"
  proof -
    define q r where "q = length bs div 3" and "r = length bs mod 3"
    have "length bs = 3 * q + r" "r = 0 \<or> r = 1 \<or> r = 2" by (auto simp: q_def r_def)
    then show ?thesis
      unfolding length_enc CalculateBase64EscapedLen_def Let_def q_def [symmetric] r_def [symmetric] by auto
  qed
  then show ?thesis
    using False d escape_tail_eq [OF d(2), of d base64 pad n] assms by (simp add: Base64EscapeInternal_def)
qed (simp add: Base64EscapeInternal_def)


section \<open>Decoding the text\<close>

lemma unat_push6_mod:
  fixes t a :: u32
  assumes "unat a < 64" and "j \<le> 26"
  shows "unat (push_bit 6 t OR a) mod 2 ^ (6 + j) = unat t mod 2 ^ j * 64 + unat a"
proof -
  have a: "take_bit (6 + j) a = a"
  proof -
    have "unat a < 2 ^ (6 + j)" using assms(1) by (rule less_le_trans) (simp add: power_add)
    then show ?thesis by (simp add: word_unat_eq_iff unsigned_take_bit_eq take_bit_nat_eq_self)
  qed
  have "take_bit (6 + j) (push_bit 6 t OR a) = push_bit 6 (take_bit j t) OR a"
    by (simp add: take_bit_or a take_bit_push_bit)
  then have "unat (push_bit 6 t OR a) mod 2 ^ (6 + j) = unat (push_bit 6 (take_bit j t) OR a)"
    by (metis take_bit_eq_mod unsigned_take_bit_eq)
  also have "\<dots> = unat (take_bit j t) * 2 ^ 6 + unat a"
  proof (rule unat_or_shift)
    have "unat (take_bit j t) < 2 ^ j" by (simp add: unsigned_take_bit_eq take_bit_nat_less_exp)
    also have "(2 :: nat) ^ j \<le> 2 ^ 26" using assms(2) by (rule power_increasing) simp
    finally show "unat (take_bit j t) * 2 ^ 6 < 2 ^ 32" by simp
  qed (use assms(1) in simp)
  also have "unat (take_bit j t) = unat t mod 2 ^ j" by (simp only: unsigned_take_bit_eq) (simp only: take_bit_eq_mod)
  finally show ?thesis by simp
qed

lemma unat_low_byte: "unat (ucast (w :: u32) :: byte) = unat w mod 256"
  by (simp add: unsigned_ucast_eq take_bit_eq_mod)

lemma low_byte_of: "unat w div 2 ^ k mod 256 = unat (b :: byte) \<Longrightarrow> ucast (drop_bit k (w :: u32)) = b"
  by (simp add: word_unat_eq_iff unat_low_byte unat_drop_bit_eq drop_bit_nat_def)

lemma bit_top: "bit (0x80000000 :: u32) n \<longleftrightarrow> n = 31"
proof -
  have "(0x80000000 :: u32) = push_bit 31 1" by (simp add: push_bit_eq_mult)
  moreover have "bit (push_bit 31 1 :: u32) n \<longleftrightarrow> n = 31"
    by (auto simp only: bit_push_bit_iff bit_1_iff) (auto dest: bit_imp_le_length)
  ultimately show ?thesis by metis
qed

lemma top_bit: "(t :: u32) AND 0x80000000 \<noteq> 0 \<longleftrightarrow> bit t 31"
proof
  assume "t AND 0x80000000 \<noteq> 0"
  then obtain n where "bit (t AND 0x80000000) n" using bit_eqI [of "t AND 0x80000000" 0] by auto
  then show "bit t 31" by (auto simp only: bit_and_iff bit_top)
next
  assume "bit t 31"
  then have "bit (t AND 0x80000000) 31" by (simp only: bit_and_iff bit_top simp_thms)
  then show "t AND 0x80000000 \<noteq> 0" by (metis bit_0_eq bot_apply bot_bool_def)
qed

lemma top_bit_clear: "unat (t :: u32) < 2 ^ 31 \<Longrightarrow> \<not> bit t 31"
proof -
  assume "unat t < 2 ^ 31"
  then have "take_bit 31 t = t" by (simp add: word_unat_eq_iff unsigned_take_bit_eq take_bit_nat_eq_self)
  then show ?thesis using bit_take_bit_iff [of 31 t 31] by simp
qed

lemma base256:
  fixes a b c :: nat
  assumes "b < 256" and "c < 256"
  shows "(a * 65536 + b * 256 + c) div 2 ^ 16 = a" "(a * 65536 + b * 256 + c) div 2 ^ 8 mod 256 = b"
    "(a * 65536 + b * 256 + c) mod 256 = c"
proof -
  define m where "m = a * 256 + b"
  have e: "a * 65536 + b * 256 + c = m * 256 + c" by (simp add: m_def)
  have d: "(m * 256 + c) div 256 = m" "(m * 256 + c) mod 256 = c" using assms by simp_all
  have d': "m div 256 = a" "m mod 256 = b" using assms by (simp_all add: m_def)
  have "(m * 256 + c) div 2 ^ 16 = (m * 256 + c) div 256 div 256" by (simp add: div_mult2_eq [symmetric])
  then show "(a * 65536 + b * 256 + c) div 2 ^ 16 = a" "(a * 65536 + b * 256 + c) div 2 ^ 8 mod 256 = b"
    "(a * 65536 + b * 256 + c) mod 256 = c"
    unfolding e using d d' by simp_all
qed

lemma write_three_eq:
  assumes "unat (temp s) = unat x * 65536 + unat y * 256 + unat z" and "length (out s) + 3 \<le> n"
  shows "write_three n s = Ok (s\<lparr>out := out s @ [x, y, z], temp := drop_bit 16 (temp s)\<rparr>)"
proof -
  note b = base256 [OF unat_byte_less [of y] unat_byte_less [of z], of "unat x", folded assms(1)]
  have "unat (temp s) div 2 ^ 16 mod 256 = unat x" "unat (temp s) div 2 ^ 8 mod 256 = unat y" "unat (temp s) div 2 ^ 0 mod 256 = unat z"
    using b unat_byte_less [of x] by simp_all
  from this [THEN low_byte_of] show ?thesis using assms(2) by (simp add: write_three_def)
qed

lemma digits_64: "b1 * 64 + b0 = b \<Longrightarrow> b * 64 + a0 = a \<Longrightarrow> a * 64 + m0 = m
    \<Longrightarrow> b1 * 2 ^ 18 + b0 * 2 ^ 12 + a0 * 2 ^ 6 + m0 = (m :: nat)"
  by (hypsubst, simp)

lemma digits_16: "p * 1024 + q = w \<Longrightarrow> r * 16 + s = q \<Longrightarrow> (p * 64 + r) * 64 + s * 4 = (4 :: nat) * w"
  by (hypsubst, simp)

lemma sextets_value: "m < 2 ^ 24 \<Longrightarrow> (m div 2 ^ 18 mod 64) * 2 ^ 18 + (m div 2 ^ 12 mod 64) * 2 ^ 12 + (m div 2 ^ 6 mod 64) * 2 ^ 6 + m mod 64 = (m :: nat)"
proof -
  assume m: "m < 2 ^ 24"
  define a b where "a = m div 64" and "b = m div 64 div 64"
  have d: "m div 2 ^ 12 = b" "m div 2 ^ 18 = b div 64" "m div 2 ^ 6 = a"
    by (simp_all add: a_def b_def div_mult2_eq [symmetric])
  have "b div 64 < 64" using m unfolding d [symmetric] by (simp add: less_mult_imp_div_less)
  then have "b div 64 mod 64 = b div 64" by simp
  moreover have "b div 64 * 64 + b mod 64 = b" by (rule div_mult_mod_eq)
  moreover have "b * 64 + a mod 64 = a" "a * 64 + m mod 64 = m" by (simp_all add: a_def b_def)
  ultimately show ?thesis unfolding d by (simp only: digits_64)
qed

lemma bytes_8: "unat (x :: byte) * 65536 div 2 ^ 18 mod 64 * 64 + unat x * 65536 div 2 ^ 12 mod 64 < 4096"
    "(unat x * 65536 div 2 ^ 18 mod 64 * 64 + unat x * 65536 div 2 ^ 12 mod 64) div 16 = unat x"
proof -
  have "unat x div 4 mod 64 = unat x div 4" using unat_byte_less [of x] by (simp add: less_mult_imp_div_less)
  moreover have "unat x div 4 * 4 + unat x mod 4 = unat x" by simp
  ultimately show "unat x * 65536 div 2 ^ 18 mod 64 * 64 + unat x * 65536 div 2 ^ 12 mod 64 < 4096"
    "(unat x * 65536 div 2 ^ 18 mod 64 * 64 + unat x * 65536 div 2 ^ 12 mod 64) div 16 = unat x"
    using unat_byte_less [of x] unfolding scaled(1,2) by linarith+
qed

lemma bytes_16:
  fixes x y :: byte
  defines "m \<equiv> unat x * 65536 + unat y * 256"
  shows "((m div 2 ^ 18 mod 64 * 64 + m div 2 ^ 12 mod 64) * 64 + m div 2 ^ 6 mod 64) div 4 = unat x * 256 + unat y"
proof -
  define w where "w = unat x * 256 + unat y"
  have m: "m = w * 256" by (simp add: m_def w_def)
  have "w < 65536" using unat_byte_less [of x] unat_byte_less [of y] by (simp add: w_def)
  then have "w div 1024 mod 64 = w div 1024" by (simp add: less_mult_imp_div_less)
  moreover have "w div 1024 * 1024 + w mod 1024 = w" "w mod 1024 div 16 * 16 + w mod 1024 mod 16 = w mod 1024"
    by (rule div_mult_mod_eq)+
  moreover have "w mod 1024 mod 16 = w mod 16" by (simp add: mod_mod_cancel)
  ultimately have "(w div 1024 mod 64 * 64 + w mod 1024 div 16) * 64 + w mod 16 * 4 = 4 * w" by (metis digits_16)
  then show ?thesis unfolding m scaled(3-5) w_def [symmetric] by simp
qed

lemma triple_induct [case_names Nil One Two Three]:
  assumes "P []" "\<And>x. P [x]" "\<And>x y. P [x, y]" "\<And>x y z rest. P rest \<Longrightarrow> P (x # y # z # rest)"
  shows "P (bs :: byte list)"
  using enc.induct [of "\<lambda>_ _ bs. P bs" "[]" False bs] assms by blast

text \<open>What the decoder relies on in a pair of tables: the second inverts the first, no character
  of the alphabet is NUL, and the pad characters are not in it.\<close>

locale base64_tables =
  fixes base64 :: "byte list" and unbase64 :: "int list"
  assumes decode_char: "i < 64 \<Longrightarrow> unbase64 ! unat (base64 ! i) = int i"
    and char_not_nul: "i < 64 \<Longrightarrow> base64 ! i \<noteq> 0"
    and pad_not_data: "unbase64 ! unat kPad64 = -1"
begin

lemma quick_temp_data:
  assumes "i < 64" and "j < 64" and "k < 64" and "l < 64"
  shows "unat (quick_temp unbase64 (base64 ! i) (base64 ! j) (base64 ! k) (base64 ! l)) = i * 2 ^ 18 + j * 2 ^ 12 + k * 2 ^ 6 + l"
proof -
  have u: "unat (of_int (int m) :: u32) = m" if "m < 64" for m
    using that by (simp add: unsigned_of_nat take_bit_nat_eq_self)
  have 1: "unat (push_bit 6 (of_int (int k)) OR of_int (int l) :: u32) = k * 2 ^ 6 + l"
    using assms u [of k] u [of l] by (subst unat_or_shift) simp_all
  have 2: "unat (push_bit 12 (of_int (int j)) OR push_bit 6 (of_int (int k)) OR of_int (int l) :: u32) = j * 2 ^ 12 + (k * 2 ^ 6 + l)"
    using assms u [of j] by (subst unat_or_shift; simp only: 1) simp_all
  have "unat (push_bit 18 (of_int (int i)) OR push_bit 12 (of_int (int j)) OR push_bit 6 (of_int (int k)) OR of_int (int l) :: u32)
      = i * 2 ^ 18 + (j * 2 ^ 12 + (k * 2 ^ 6 + l))"
    using assms u [of i] by (subst unat_or_shift; simp only: 2) simp_all
  then show ?thesis using assms by (simp add: quick_temp_def decode_char)
qed

lemma quick_temp_pad: "b2 = kPad64 \<or> b3 = kPad64 \<Longrightarrow> bit (quick_temp unbase64 b0 b1 b2 b3) 31"
proof -
  have "bit (push_bit 6 (-1) :: u32) 31" "bit (-1 :: u32) 31" by (simp_all add: bit_simps)
  then show "b2 = kPad64 \<or> b3 = kPad64 \<Longrightarrow> bit (quick_temp unbase64 b0 b1 b2 b3) 31"
    using pad_not_data by (auto simp: quick_temp_def bit_or_iff)
qed

lemma pad_bytes: "is_pad kPad64" "\<not> space_byte kPad64" "kPad64 \<noteq> 0" "\<not> is_pad 0" "\<not> space_byte 0"
  by code_simp+

lemma finish_none: "src s = [] \<Longrightarrow> dstate s = 0 \<Longrightarrow> ch s = 0 \<Longrightarrow> decode_finish unbase64 n s = Ok (out s)"
  by (simp add: decode_finish_def decode_leftover_def pad_bytes)

lemma leftover_two:
  assumes "unat (temp s) mod 2 ^ 12 = i * 64 + j" and "(i * 64 + j) div 16 = unat x" and "dstate s = 2"
    and "length (out s) + 1 \<le> n"
  shows "decode_leftover n s = Ok (s\<lparr>out := out s @ [x]\<rparr>, 2)"
proof -
  have "unat (temp s) div 2 ^ 4 mod 256 = unat (temp s) mod (2 ^ 4 * 256) div 2 ^ 4" by (rule mod_div [symmetric]) simp
  also have "\<dots> = unat x" using assms(1,2) by simp
  finally have "ucast (drop_bit 4 (temp s)) = x" by (rule low_byte_of)
  then show ?thesis using assms(3,4) by (simp add: decode_leftover_def)
qed

lemma leftover_three:
  assumes "unat (temp s) mod 2 ^ 18 = m" and "m div 4 = unat x * 256 + unat y" and "dstate s = 3"
    and "length (out s) + 2 \<le> n"
  shows "decode_leftover n s = Ok (s\<lparr>out := out s @ [x, y]\<rparr>, 1)"
proof -
  define t where "t = drop_bit 2 (temp s)"
  have "unat t mod 2 ^ 16 = unat (temp s) mod (2 ^ 2 * 2 ^ 16) div 2 ^ 2"
    unfolding t_def by (subst mod_div) (simp_all add: unat_drop_bit_eq drop_bit_nat_def)
  then have t: "unat t mod 65536 = unat x * 256 + unat y" using assms(1,2) by simp
  have "unat t div 2 ^ 8 mod 256 = unat t mod (2 ^ 8 * 256) div 2 ^ 8" by (rule mod_div [symmetric]) simp
  then have "unat t div 2 ^ 8 mod 256 = unat x" using t unat_byte_less [of y] by simp
  moreover have "unat t div 2 ^ 0 mod 256 = unat y"
  proof -
    have "unat t mod 256 = unat t mod 65536 mod 256" by (simp add: mod_mod_cancel)
    then show ?thesis using t unat_byte_less [of y] by simp
  qed
  ultimately have "ucast (drop_bit 8 t) = x" "ucast t = y" using low_byte_of [of t 8 x] low_byte_of [of t 0 y] by simp_all
  then show ?thesis using assms(3,4) by (simp add: decode_leftover_def t_def)
qed

lemma u32_small: "m < 64 \<Longrightarrow> unat (of_int (int m) :: u32) = m"
  by (simp add: unsigned_of_nat take_bit_nat_eq_self)

lemma shift_in_mod: "m < 64 \<Longrightarrow> j \<le> 26 \<Longrightarrow> unat (shift_in t (int m)) mod 2 ^ (6 + j) = unat t mod 2 ^ j * 64 + m"
  using unat_push6_mod [of "of_int (int m)" j t] by (simp only: shift_in_def u32_small)

lemma shifted_two: "unat t mod 64 = i \<Longrightarrow> j < 64 \<Longrightarrow> unat (shift_in t (int j)) mod 2 ^ 12 = i * 64 + j"
  using shift_in_mod [of j 6 t] by simp

lemma shifted_three: "unat t mod 2 ^ 12 = m \<Longrightarrow> j < 64 \<Longrightarrow> unat (shift_in t (int j)) mod 2 ^ 18 = m * 64 + j"
  using shift_in_mod [of j 12 t] by simp

lemma shifted_one: "i < 64 \<Longrightarrow> unat (shift_in t (int i)) mod 64 = i"
  using shift_in_mod [of i 0 t] by simp

lemma decode_tail_step:
  "i < 64 \<Longrightarrow> dstate s < 3 \<Longrightarrow> decode_tail unbase64 n (base64 ! i # rest) s = decode_tail unbase64 n rest
     (s\<lparr>src := rest, ch := base64 ! i, decode := int i, temp := shift_in (temp s) (int i), dstate := dstate s + 1\<rparr>)"
  by (simp add: decode_char Let_def)

lemma get_input_step:
  "i < 64 \<Longrightarrow> get_input unbase64 r (base64 ! i # rest) s = Ok (True, s\<lparr>src := rest, ch := base64 ! i, decode := int i\<rparr>)"
  by (simp add: decode_char)

lemma get_input_pad:
  "get_input unbase64 r (kPad64 # rest) s = Ok (False, s\<lparr>src := rest, ch := kPad64, decode := -1, dstate := 4 - r\<rparr>)"
  by (simp add: pad_not_data pad_bytes)

lemma short_groups: "length (src s) < 4 \<Longrightarrow> decode_groups unbase64 n s = Ok s"
  by (subst decode_groups.simps) (auto split: list.splits)

lemma finish_two:
  assumes "i < 64" "j < 64" "(i * 64 + j) div 16 = unat x" and "src s = [base64 ! i, base64 ! j]" "dstate s = 0" "ch s = 0"
    and "length (out s) + 1 \<le> n"
  shows "decode_finish unbase64 n s = Ok (out s @ [x])"
proof -
  let ?s = "s\<lparr>src := [], ch := base64 ! j, decode := int j, temp := shift_in (shift_in (temp s) (int i)) (int j), dstate := 2\<rparr>"
  have "decode_leftover n ?s = Ok (?s\<lparr>out := out s @ [x]\<rparr>, 2)"
    using leftover_two [of ?s i j x n] shifted_two [OF shifted_one [OF assms(1), of "temp s"] assms(2)] assms(3,7) by simp
  then show ?thesis using assms by (simp add: decode_finish_def pad_bytes decode_tail_step numeral_2_eq_2 del: decode_tail.simps(2))
qed

lemma finish_three:
  assumes "i < 64" "j < 64" "k < 64" "((i * 64 + j) * 64 + k) div 4 = unat x * 256 + unat y"
    and "src s = [base64 ! i, base64 ! j, base64 ! k]" "dstate s = 0" "ch s = 0" and "length (out s) + 2 \<le> n"
  shows "decode_finish unbase64 n s = Ok (out s @ [x, y])"
proof -
  let ?s = "s\<lparr>src := [], ch := base64 ! k, decode := int k,
    temp := shift_in (shift_in (shift_in (temp s) (int i)) (int j)) (int k), dstate := 3\<rparr>"
  have "decode_leftover n ?s = Ok (?s\<lparr>out := out s @ [x, y]\<rparr>, 1)"
    using leftover_three [of ?s "(i * 64 + j) * 64 + k" x y n]
      shifted_three [OF shifted_two [OF shifted_one [OF assms(1), of "temp s"] assms(2)] assms(3)] assms(4,8) by simp
  then show ?thesis using assms by (simp add: decode_finish_def pad_bytes decode_tail_step numeral_3_eq_3 del: decode_tail.simps(2))
qed

lemma groups_pad:
  assumes "src s = [b0, b1, b2, kPad64]" and "b0 \<noteq> 0" "b1 \<noteq> 0" "b2 \<noteq> 0"
    and "slow_group unbase64 (s\<lparr>temp := quick_temp unbase64 b0 b1 b2 kPad64\<rparr>) = Ok (False, s')"
  shows "decode_groups unbase64 n s = Ok s'"
  using assms quick_temp_pad [of b2 kPad64 b0 b1] by (subst decode_groups.simps) (simp add: top_bit)

lemma pad_two:
  assumes "i < 64" "j < 64" "(i * 64 + j) div 16 = unat x" and "src s = [base64 ! i, base64 ! j, kPad64, kPad64]"
    and "length (out s) + 1 \<le> n"
  shows "pbind (decode_groups unbase64 n s) (decode_finish unbase64 n) = Ok (out s @ [x])"
proof -
  let ?s = "s\<lparr>temp := quick_temp unbase64 (base64 ! i) (base64 ! j) kPad64 kPad64\<rparr>"
  let ?t = "?s\<lparr>src := [kPad64], ch := kPad64, decode := -1, dstate := 2, temp := shift_in (of_int (int i)) (int j)\<rparr>"
  have slow: "slow_group unbase64 ?s = Ok (False, ?t)"
    using assms(1,2,4) by (simp add: slow_group_def next_input_def get_input_step get_input_pad del: get_input.simps)
  have "unat (shift_in (of_int (int i)) (int j)) mod 2 ^ 12 = i * 64 + j"
    using shifted_two [of "of_int (int i)" i j] u32_small [OF assms(1)] assms(1,2) by simp
  then have "decode_finish unbase64 n ?t = Ok (out s @ [x])"
    using assms leftover_two [of "?t\<lparr>src := [kPad64, kPad64]\<rparr>" i j x n] by (simp add: decode_finish_def pad_bytes)
  then show ?thesis
    using groups_pad [OF assms(4) char_not_nul [OF assms(1)] char_not_nul [OF assms(2)] pad_bytes(3) slow] by simp
qed

lemma pad_three:
  assumes "i < 64" "j < 64" "k < 64" "((i * 64 + j) * 64 + k) div 4 = unat x * 256 + unat y"
    and "src s = [base64 ! i, base64 ! j, base64 ! k, kPad64]" and "length (out s) + 2 \<le> n"
  shows "pbind (decode_groups unbase64 n s) (decode_finish unbase64 n) = Ok (out s @ [x, y])"
proof -
  let ?s = "s\<lparr>temp := quick_temp unbase64 (base64 ! i) (base64 ! j) (base64 ! k) kPad64\<rparr>"
  let ?t = "?s\<lparr>src := [], ch := kPad64, decode := -1, dstate := 3, temp := shift_in (shift_in (of_int (int i)) (int j)) (int k)\<rparr>"
  have slow: "slow_group unbase64 ?s = Ok (False, ?t)"
    using assms(1-3,5) by (simp add: slow_group_def next_input_def get_input_step get_input_pad del: get_input.simps)
  have "unat (shift_in (shift_in (of_int (int i)) (int j)) (int k)) mod 2 ^ 18 = (i * 64 + j) * 64 + k"
    using shifted_three [OF shifted_two [of "of_int (int i)" i j], of k] u32_small [OF assms(1)] assms(1-3) by simp
  then have "decode_finish unbase64 n ?t = Ok (out s @ [x, y])"
    using assms leftover_three [of "?t\<lparr>src := [kPad64]\<rparr>" "(i * 64 + j) * 64 + k" x y n] by (simp add: decode_finish_def pad_bytes)
  then show ?thesis
    using groups_pad [OF assms(5) char_not_nul [OF assms(1)] char_not_nul [OF assms(2)] char_not_nul [OF assms(3)] slow] by simp
qed

lemma quick_group:
  assumes "src s = map ((!) base64) (sextets (unat x * 65536 + unat y * 256 + unat z)) @ rest" and "length (out s) + 3 \<le> n"
  shows "\<exists>t. decode_groups unbase64 n s
    = decode_groups unbase64 n (s\<lparr>src := rest, decode := -1, ch := 0, out := out s @ [x, y, z], temp := t\<rparr>)"
proof -
  define m where "m = unat x * 65536 + unat y * 256 + unat z"
  define c where "c i = base64 ! (m div 2 ^ i mod 64)" for i
  have c: "src s = c 18 # c 12 # c 6 # c 0 # rest" using assms(1) by (simp add: sextets_def c_def m_def)
  have nul: "c i \<noteq> 0" for i unfolding c_def by (rule char_not_nul) simp
  define t where "t = quick_temp unbase64 (c 18) (c 12) (c 6) (c 0)"
  have lt: "m < 2 ^ 24" unfolding m_def by (rule bytes_24)
  have t: "unat t = m"
    unfolding t_def c_def by (subst quick_temp_data) (simp_all only: mod_less_divisor zero_less_numeral sextets_value [OF lt] power_0 div_by_1)
  have "t AND 0x80000000 = 0" using top_bit [of t] top_bit_clear [of t] lt unfolding t by auto
  then have "decode_groups unbase64 n s
      = pbind (write_three n (s\<lparr>temp := t, src := rest, decode := -1, ch := 0\<rparr>)) (decode_groups unbase64 n)"
    using nul [of 18] nul [of 12] nul [of 6] c by (subst decode_groups.simps) (simp add: t_def [symmetric])
  also have "write_three n (s\<lparr>temp := t, src := rest, decode := -1, ch := 0\<rparr>)
      = Ok (s\<lparr>src := rest, decode := -1, ch := 0, out := out s @ [x, y, z], temp := drop_bit 16 t\<rparr>)"
    using write_three_eq [of "s\<lparr>temp := t, src := rest, decode := -1, ch := 0\<rparr>" x y z n] t assms(2) by (simp add: m_def)
  finally show ?thesis by (intro exI [of _ "drop_bit 16 t"]) simp
qed

lemma decode_enc:
  assumes "src s = enc base64 pad bs" and "dstate s = 0" "ch s = 0" and "length (out s) + length bs \<le> n"
  shows "pbind (decode_groups unbase64 n s) (decode_finish unbase64 n) = Ok (out s @ bs)"
  using assms
proof (induction bs arbitrary: s rule: triple_induct)
  case Nil
  then show ?case by (simp add: short_groups finish_none)
next
  case (One x)
  then show ?case
    using bytes_8(2) [of x] pad_two [OF _ _ bytes_8(2) [of x]] finish_two [OF _ _ bytes_8(2) [of x]]
    by (cases pad) (simp_all add: sextets_def short_groups)
next
  case (Two x y)
  then show ?case
    using pad_three [OF _ _ _ bytes_16 [of x y]] finish_three [OF _ _ _ bytes_16 [of x y]]
    by (cases pad) (simp_all add: sextets_def short_groups)
next
  case (Three x y z rest)
  obtain t where "decode_groups unbase64 n s
      = decode_groups unbase64 n (s\<lparr>src := enc base64 pad rest, decode := -1, ch := 0, out := out s @ [x, y, z], temp := t\<rparr>)"
    using quick_group [of s x y z "enc base64 pad rest" n] Three.prems by auto
  then show ?case
    using Three.IH [of "s\<lparr>src := enc base64 pad rest, decode := -1, ch := 0, out := out s @ [x, y, z], temp := t\<rparr>"] Three.prems
    by simp
qed

lemma unescape_enc: "Base64UnescapeInternal_string (enc base64 pad bs) unbase64 = Ok (Some bs)"
proof -
  let ?n = "3 * (length (enc base64 pad bs) div 4) + length (enc base64 pad bs) mod 4"
  define q r where "q = length bs div 3" and "r = length bs mod 3"
  have l: "length bs = 3 * q + r" "r = 0 \<or> r = 1 \<or> r = 2" by (auto simp: q_def r_def)
  have "length bs \<le> ?n"
    using l(2) unfolding length_enc CalculateBase64EscapedLen_def Let_def q_def [symmetric] r_def [symmetric]
    unfolding l(1) by (cases pad; elim disjE; simp; presburger?)
  then show ?thesis
    using decode_enc [of "\<lparr>src = enc base64 pad bs, out = [], decode = 0, ch = 0, temp = 0, dstate = 0\<rparr>" pad bs ?n]
    by (simp add: Base64UnescapeInternal_string_def Base64UnescapeInternal_def Let_def)
qed

lemma escape_string: "Base64EscapeInternal_string bs pad base64 = Ok (enc base64 pad bs)"
  by (simp add: Base64EscapeInternal_string_def Base64EscapeInternal_eq length_enc)

end

lemma alphabet_inverted: "map (\<lambda>i. kUnBase64 ! unat (kBase64Chars ! nat i)) [0..63] = [0..63]"
  by code_simp

lemma web_alphabet_inverted: "map (\<lambda>i. kUnWebSafeBase64 ! unat (kWebSafeBase64Chars ! nat i)) [0..63] = [0..63]"
  by code_simp

lemma alphabet_not_nul: "list_all (\<lambda>i. kBase64Chars ! nat i \<noteq> 0 \<and> kWebSafeBase64Chars ! nat i \<noteq> 0) [0..63]"
  by code_simp

lemma of_table: "map f [0..63] = [0..63] \<Longrightarrow> i < 64 \<Longrightarrow> f (int i) = int i"
proof -
  assume m: "map f [0..63] = [0..63]" and i: "i < 64"
  from i have "int i \<in> set [0..63]" by simp
  moreover have "map f [0..63] = map (\<lambda>i. i) [0..63]" using m by (simp only: map_ident)
  ultimately show "f (int i) = int i" unfolding map_eq_conv by blast
qed

interpretation std: base64_tables kBase64Chars kUnBase64
proof
  show "kUnBase64 ! unat (kBase64Chars ! i) = int i" if "i < 64" for i
    using of_table [OF alphabet_inverted that] by simp
  show "kBase64Chars ! i \<noteq> 0" if "i < 64" for i
    using alphabet_not_nul that by (auto simp: list_all_iff dest: bspec [of _ _ "int i"])
  show "kUnBase64 ! unat kPad64 = -1" by code_simp
qed

interpretation web: base64_tables kWebSafeBase64Chars kUnWebSafeBase64
proof
  show "kUnWebSafeBase64 ! unat (kWebSafeBase64Chars ! i) = int i" if "i < 64" for i
    using of_table [OF web_alphabet_inverted that] by simp
  show "kWebSafeBase64Chars ! i \<noteq> 0" if "i < 64" for i
    using alphabet_not_nul that by (auto simp: list_all_iff dest: bspec [of _ _ "int i"])
  show "kUnWebSafeBase64 ! unat kPad64 = -1" by code_simp
qed


section \<open>Any text\<close>

text \<open>An error or a value that satisfies a predicate: no access out of bounds, no fatal log.\<close>

definition yields :: "('a \<Rightarrow> bool) \<Rightarrow> 'a pres \<Rightarrow> bool" where
  "yields P r \<longleftrightarrow> r = Null \<or> (\<exists>x. r = Ok x \<and> P x)"

lemma yields_simps [simp]: "yields P (Ok x) = P x" "yields P Null"
  by (simp_all add: yields_def)

lemma yields_pbind: "yields P r \<Longrightarrow> (\<And>x. P x \<Longrightarrow> yields Q (f x)) \<Longrightarrow> yields Q (pbind r f)"
  unfolding yields_def by (elim disjE exE conjE) simp_all

lemma yields_and: "yields P r \<Longrightarrow> (\<And>x. r = Ok x \<Longrightarrow> Q x) \<Longrightarrow> yields (\<lambda>x. P x \<and> Q x) r"
  by (auto simp: yields_def)

lemma yields_mono: "yields P r \<Longrightarrow> (\<And>x. P x \<Longrightarrow> Q x) \<Longrightarrow> yields Q r"
  by (auto simp: yields_def)

definition in_range :: "nat \<Rightarrow> decoder \<Rightarrow> bool" where
  "in_range n s \<longleftrightarrow> length (out s) \<le> n \<and> dstate s < 4"

lemma in_range_update [simp]: "in_range n (s\<lparr>src := a\<rparr>) = in_range n s" "in_range n (s\<lparr>ch := b\<rparr>) = in_range n s"
  "in_range n (s\<lparr>decode := d\<rparr>) = in_range n s" "in_range n (s\<lparr>temp := t\<rparr>) = in_range n s"
  by (simp_all add: in_range_def)

abbreviation after_char :: "nat \<Rightarrow> nat \<Rightarrow> bool \<times> decoder \<Rightarrow> bool" where
  "after_char n r \<equiv> \<lambda>(ok, s). in_range n s \<and> (ok \<longrightarrow> r \<le> length (src s))"

lemma get_input_yields:
  "Suc r \<le> length bs \<Longrightarrow> r < 4 \<Longrightarrow> in_range n s \<Longrightarrow> yields (after_char n r) (get_input t (Suc r) bs s)"
  by (induction t "Suc r" bs s rule: get_input.induct) (auto simp: Let_def in_range_def)

lemma next_input_yields:
  "Suc r \<le> length (src s) \<Longrightarrow> r < 4 \<Longrightarrow> in_range n s \<Longrightarrow> yields (after_char n r) (next_input t (Suc r) s)"
  unfolding next_input_def by (rule yields_pbind [OF get_input_yields]) auto

lemma slow_group_yields:
  assumes "4 \<le> length (src s)" and "in_range n s"
  shows "yields (\<lambda>(ok, s'). in_range n s' \<and> length (src s') < length (src s)) (slow_group t s)"
proof -
  have last_char: "yields (\<lambda>(ok, s). in_range n s) (next_input t 1 u)" if "in_range n u" "1 \<le> length (src u)" for u
    using next_input_yields [of 0 u n t] that by simp
  have three: "yields (\<lambda>(ok, s). in_range n s) (pbind (next_input t 2 u) (\<lambda>(ok, s). if \<not> ok then Ok (False, s) else next_input t 1 s))"
    if "in_range n u" "2 \<le> length (src u)" for u
    unfolding numeral_2_eq_2
    by (rule yields_pbind [OF next_input_yields [of "Suc 0" u n]]) (use that last_char in auto)
  have four: "yields (after_char n 3) (get_input t 4 (src s) s)"
    using get_input_yields [of 3 "src s" n s t] assms by simp
  have next_three: "yields (after_char n 2) (next_input t 3 u)" if "in_range n u" "3 \<le> length (src u)" for u
    using next_input_yields [of 2 u n t] that by simp
  have "yields (\<lambda>(ok, s). in_range n s) (slow_group t s)"
    unfolding slow_group_def
  proof (rule yields_pbind [OF four])
    fix x :: "bool \<times> decoder"
    assume x: "after_char n 3 x"
    show "yields (\<lambda>(ok, s). in_range n s) (case x of (ok, s) \<Rightarrow> if \<not> ok then Ok (False, s)
        else pbind (next_input t 3 (s\<lparr>temp := of_int (decode s)\<rparr>)) (\<lambda>(ok, s).
          if \<not> ok then Ok (False, s)
          else pbind (next_input t 2 s) (\<lambda>(ok, s). if \<not> ok then Ok (False, s) else next_input t 1 s)))"
      using x by (cases x) (auto intro!: yields_pbind [OF next_three] three)
  qed
  then have "yields (\<lambda>x. (case x of (ok, s) \<Rightarrow> in_range n s) \<and> length (src (snd x)) < length (src s)) (slow_group t s)"
    by (rule yields_and) (auto dest: slow_group_shrinks)
  then show ?thesis by (rule yields_mono) auto
qed

lemma write_three_yields:
  "in_range n s \<Longrightarrow> yields (\<lambda>s'. in_range n s' \<and> src s' = src s \<and> (dstate s' = dstate s)) (write_three n s)"
  by (simp add: write_three_def in_range_def)

lemma decode_groups_yields: "in_range n s \<Longrightarrow> yields (in_range n) (decode_groups t n s)"
proof (induction "length (src s)" arbitrary: s rule: less_induct)
  case less
  show ?case
  proof (cases "length (src s) < 4")
    case True
    then show ?thesis using less by (subst decode_groups.simps) (auto split: list.splits)
  next
    case False
    then obtain b0 b1 b2 b3 rest where c: "src s = b0 # b1 # b2 # b3 # rest"
      by (cases "src s"; cases "tl (src s)"; cases "tl (tl (src s))"; cases "tl (tl (tl (src s)))") auto
    have again: "yields (in_range n) (pbind (write_three n u) (decode_groups t n))"
      if "in_range n u" "length (src u) < length (src s)" for u
      using that less.hyps by (intro yields_pbind [OF write_three_yields]) auto
    have slow: "yields (in_range n) (pbind (slow_group t u) (\<lambda>(ok, s).
        if \<not> ok then Ok s else pbind (write_three n s) (decode_groups t n)))"
      if "in_range n u" "src u = src s" for u
      using that False again by (intro yields_pbind [OF slow_group_yields [of u n]]) (auto split: prod.splits)
    show ?thesis
      using less.prems again [of "s\<lparr>temp := quick_temp t b0 b1 b2 b3, src := rest, decode := -1, ch := 0\<rparr>"]
        slow [of s] slow [of "s\<lparr>temp := quick_temp t b0 b1 b2 b3\<rparr>"]
      by (subst decode_groups.simps) (simp add: c Let_def)
  qed
qed

lemma decode_tail_yields: "in_range n s \<Longrightarrow> yields (in_range n) (decode_tail t n bs s)"
proof (induction bs arbitrary: s)
  case (Cons c rest)
  define u where "u = s\<lparr>src := rest, ch := c, decode := t ! unat c, temp := shift_in (temp s) (t ! unat c), dstate := dstate s + 1\<rparr>"
  have full: "yields (in_range n) (pbind (write_three n u) (\<lambda>s. decode_tail t n rest (s\<lparr>dstate := 0, temp := 0\<rparr>)))"
    using Cons.prems by (auto simp: write_three_def u_def intro!: Cons.IH) (simp_all add: in_range_def)
  have more_chars: "yields (in_range n) (decode_tail t n rest u)" if "dstate s \<noteq> 3"
    using Cons.prems that by (intro Cons.IH) (simp add: u_def in_range_def)
  show ?case using Cons full more_chars by (auto simp: u_def Let_def)
qed simp

lemma count_equals_yields: "yields (\<lambda>_. True) (count_equals bs k)"
  by (induction bs k rule: count_equals.induct) auto

lemma decode_leftover_yields: "in_range n s \<Longrightarrow> yields (\<lambda>(s, k). in_range n s) (decode_leftover n s)"
  by (auto simp: decode_leftover_def in_range_def Let_def)

lemma decode_finish_yields: "in_range n s \<Longrightarrow> yields (\<lambda>bs. length bs \<le> n) (decode_finish t n s)"
proof -
  assume s: "in_range n s"
  have rest: "yields (\<lambda>bs. length bs \<le> n) (pbind (decode_leftover n u) (\<lambda>(s, expected_equals).
      pbind (count_equals (src s) 0) (\<lambda>equals. if equals = 0 \<or> equals = expected_equals then Ok (out s) else Null)))"
    if "in_range n u" for u
    using that by (intro yields_pbind [OF decode_leftover_yields]) (auto simp: in_range_def intro!: yields_pbind [OF count_equals_yields])
  then show ?thesis
    using s by (auto simp: decode_finish_def intro!: yields_pbind [OF decode_tail_yields])
qed

lemma unescape_yields: "yields (\<lambda>bs. length bs \<le> n) (Base64UnescapeInternal bs n t)"
  unfolding Base64UnescapeInternal_def
  by (rule yields_pbind [OF decode_groups_yields decode_finish_yields]) (simp_all add: in_range_def)


section \<open>Results\<close>


text \<open>C30: on any input, with any table, the decoder reads inside the input, writes inside the output
  buffer and never reaches the log message for an impossible state.\<close>

theorem base64_decoder_safe:
  "Base64UnescapeInternal bs n unbase64 = Null \<or> (\<exists>ds. Base64UnescapeInternal bs n unbase64 = Ok ds \<and> length ds \<le> n)"
  using unescape_yields [of n bs unbase64] by (auto simp: yields_def)

end
