(* ===== verification/LineEndings.thy ===== *)
theory LineEndings
  imports Prelude
begin

text \<open>
  \<^verbatim>\<open>CleanStringLineEndings\<close> of \<^verbatim>\<open>protobuf/stubs/strutil.cc\<close>: CR LF and CR become LF, in place, eight
  bytes at a time where a word has no byte up to CR. \<open>unix_lines\<close> is what it should compute. Loads and
  stores are those of a little-endian machine; an access outside the string is \<open>OOB\<close>.
\<close>

abbreviation LF :: byte where "LF \<equiv> 0x0A"
abbreviation CR :: byte where "CR \<equiv> 0x0D"

section \<open>The code\<close>

definition word_of_bytes :: "byte list \<Rightarrow> u64" where
  "word_of_bytes bs = foldr (\<lambda>b v. push_bit 8 v OR ucast b) bs 0"

definition bytes_of_word :: "u64 \<Rightarrow> byte list" where
  "bytes_of_word v = map (\<lambda>k. ucast (drop_bit (8 * k) v)) [0..<8]"

definition unaligned_load64 :: "byte list \<Rightarrow> nat \<Rightarrow> u64 pres" where
  "unaligned_load64 p i = (if i + 8 \<le> length p then Ok (word_of_bytes (take 8 (drop i p))) else OOB)"

definition unaligned_store64 :: "byte list \<Rightarrow> nat \<Rightarrow> u64 \<Rightarrow> byte list pres" where
  "unaligned_store64 p i v = (if i + 8 \<le> length p then Ok (take i p @ bytes_of_word v @ drop (i + 8) p) else OOB)"

definition put_byte :: "byte list \<Rightarrow> nat \<Rightarrow> byte \<Rightarrow> byte list pres" where
  "put_byte p i b = (if i < length p then Ok (p[i := b]) else OOB)"

definition has_less :: "u64 \<Rightarrow> u64 \<Rightarrow> u64" where
  "has_less x n = (x - (-1) div 255 * n) AND NOT x AND (-1) div 255 * 128"

text \<open>One character: the string, \<^verbatim>\<open>output_pos\<close> and \<^verbatim>\<open>r_seen\<close>. \<^verbatim>\<open>in\<close> is a reference into the string.\<close>

definition clean_char :: "byte list \<Rightarrow> nat \<Rightarrow> nat \<Rightarrow> bool \<Rightarrow> (byte list \<times> nat \<times> bool) pres" where
  "clean_char p input_pos output_pos r_seen =
     pbind (rd p input_pos) (\<lambda>c.
       if c = CR then
         (if r_seen then pbind (put_byte p output_pos LF) (\<lambda>p. Ok (p, output_pos + 1, True)) else Ok (p, output_pos, True))
       else if c = LF then
         (if input_pos \<noteq> output_pos then pbind (put_byte p output_pos LF) (\<lambda>p. Ok (p, output_pos + 1, False))
          else Ok (p, output_pos + 1, False))
       else
         pbind (if r_seen then pbind (put_byte p output_pos LF) (\<lambda>p. Ok (p, output_pos + 1)) else Ok (p, output_pos)) (\<lambda>(p, output_pos).
           if input_pos \<noteq> output_pos then
             pbind (rd p input_pos) (\<lambda>c. pbind (put_byte p output_pos c) (\<lambda>p. Ok (p, output_pos + 1, False)))
           else Ok (p, output_pos + 1, False)))"

function clean_loop :: "nat \<Rightarrow> byte list \<Rightarrow> nat \<Rightarrow> nat \<Rightarrow> bool \<Rightarrow> (byte list \<times> nat \<times> bool) pres" where
  "clean_loop len p input_pos output_pos r_seen =
     (if input_pos < len then
        let byte_step = pbind (clean_char p input_pos output_pos r_seen)
              (\<lambda>(p, output_pos, r_seen). clean_loop len p (input_pos + 1) output_pos r_seen)
        in if \<not> r_seen \<and> input_pos + 8 < len then
             pbind (unaligned_load64 p input_pos) (\<lambda>v.
               if has_less v 14 = 0 then
                 pbind (if output_pos \<noteq> input_pos then unaligned_store64 p output_pos v else Ok p) (\<lambda>p.
                   clean_loop len p (input_pos + 8) (output_pos + 8) r_seen)
               else byte_step)
           else byte_step
      else Ok (p, output_pos, r_seen))"
  by pat_completeness auto
termination
  by (relation "measure (\<lambda>(len, p, input_pos, _). len - input_pos)") auto

declare clean_loop.simps [simp del]

definition CleanStringLineEndings :: "byte list \<Rightarrow> bool \<Rightarrow> byte list pres" where
  "CleanStringLineEndings str auto_end_last_line =
     pbind (clean_loop (length str) str 0 0 False) (\<lambda>(p, output_pos, r_seen).
       Ok (if r_seen \<or> auto_end_last_line \<and> output_pos > 0 \<and> p ! (output_pos - 1) \<noteq> LF then take output_pos p @ [LF]
           else if output_pos < length str then take output_pos p
           else p))"

text \<open>The overload that appends to a string.\<close>

definition CleanStringLineEndings_append :: "byte list \<Rightarrow> byte list \<Rightarrow> bool \<Rightarrow> byte list pres" where
  "CleanStringLineEndings_append src dst auto_end_last_line =
     (if dst = [] then CleanStringLineEndings (dst @ src) auto_end_last_line
      else pbind (CleanStringLineEndings src auto_end_last_line) (\<lambda>tmp. Ok (dst @ tmp)))"

section \<open>What it should compute\<close>

fun unix_lines :: "byte list \<Rightarrow> byte list" where
  "unix_lines [] = []"
| "unix_lines (c # cs) =
     (if c = CR then LF # (case cs of [] \<Rightarrow> [] | d # ds \<Rightarrow> if d = LF then unix_lines ds else unix_lines cs)
      else c # unix_lines cs)"

text \<open>With the flag of the loop.\<close>

fun lines_from :: "bool \<Rightarrow> byte list \<Rightarrow> byte list" where
  "lines_from r [] = (if r then [LF] else [])"
| "lines_from r (c # cs) =
     (if c = CR then (if r then [LF] else []) @ lines_from True cs
      else if c = LF then LF # lines_from False cs
      else (if r then [LF] else []) @ c # lines_from False cs)"

lemma lines_from_eq:
  "lines_from False cs = unix_lines cs \<and> lines_from True cs = LF # (case cs of [] \<Rightarrow> [] | d # ds \<Rightarrow> if d = LF then unix_lines ds else unix_lines cs)"
  by (induction cs) (auto split: list.splits)

section \<open>Words and their bytes\<close>

fun bytes_value :: "byte list \<Rightarrow> int" where
  "bytes_value [] = 0"
| "bytes_value (b # bs) = uint b + 256 * bytes_value bs"

lemma bytes_value_append: "bytes_value (as @ bs) = bytes_value as + 256 ^ length as * bytes_value bs"
  by (induction as) (simp_all add: algebra_simps)

lemma bytes_value_bounds: "0 \<le> bytes_value bs" "bytes_value bs < 256 ^ length bs"
proof (induction bs)
  case (Cons b bs)
  have "uint b = int (unat b)" by simp
  then have "0 \<le> uint b" "uint b < 256" using unat_byte_less [of b] by linarith+
  moreover have "bytes_value bs + 1 \<le> 256 ^ length bs" using Cons(2) by simp
  ultimately show "0 \<le> bytes_value (b # bs)" "bytes_value (b # bs) < 256 ^ length (b # bs)" using Cons(1) by simp_all
qed simp_all

lemma or_low_byte: "push_bit 8 v OR ucast (b :: byte) = v * 256 + (ucast b :: u64)"
proof -
  have "push_bit 8 v AND ucast b = 0"
    by (rule bit_word_eqI) (auto simp: bit_simps dest: bit_imp_le_length)
  then show ?thesis by (simp add: disjunctive_add_eq_or [symmetric] push_bit_eq_mult)
qed

lemma word_of_bytes_Cons: "word_of_bytes (b # bs) = push_bit 8 (word_of_bytes bs) OR ucast b"
  by (simp add: word_of_bytes_def)

lemma word_of_bytes_value: "word_of_bytes bs = word_of_int (bytes_value bs)"
proof (induction bs)
  case Nil
  then show ?case by (simp add: word_of_bytes_def)
next
  case (Cons b bs)
  have "(ucast b :: u64) = word_of_int (uint b)" by (rule ucast_eq)
  then show ?case
    unfolding word_of_bytes_Cons or_low_byte Cons bytes_value.simps
    by (simp only: of_int_add of_int_mult of_int_numeral ac_simps)
qed

lemma bit_word_of_bytes:
  "j < 8 \<Longrightarrow> k < length bs \<Longrightarrow> k < 8 \<Longrightarrow> bit (word_of_bytes bs) (8 * k + j) = bit (bs ! k) j"
proof (induction bs arbitrary: k)
  case (Cons b bs)
  have low: "bit (word_of_bytes (b # bs)) j = bit b j"
    using Cons.prems(1) by (simp add: word_of_bytes_Cons bit_or_iff bit_push_bit_iff bit_ucast_iff)
  have high: "bit (word_of_bytes (b # bs)) (n + 8) = bit (word_of_bytes bs) n" if "n < 56" for n
  proof -
    have "\<not> bit b (n + 8)" by (auto dest: bit_imp_le_length)
    then show ?thesis using that by (simp add: word_of_bytes_Cons bit_or_iff bit_push_bit_iff bit_ucast_iff)
  qed
  show ?case
  proof (cases k)
    case 0
    then show ?thesis using low by simp
  next
    case (Suc i)
    have "8 * k + j = (8 * i + j) + 8" "8 * i + j < 56" using Cons.prems Suc by simp_all
    then show ?thesis using Cons.prems Cons.IH [of i] Suc high [of "8 * i + j"] by (simp add: ac_simps)
  qed
qed simp

lemma bytes_of_word_of_bytes: "length bs = 8 \<Longrightarrow> bytes_of_word (word_of_bytes bs) = bs"
proof (rule nth_equalityI)
  fix k
  assume l: "length bs = 8" and "k < length (bytes_of_word (word_of_bytes bs))"
  then have k: "k < 8" by (simp add: bytes_of_word_def)
  have "ucast (drop_bit (8 * k) (word_of_bytes bs)) = bs ! k"
    using l k by (intro bit_word_eqI) (simp add: bit_ucast_iff bit_drop_bit_eq bit_word_of_bytes)
  then show "bytes_of_word (word_of_bytes bs) ! k = bs ! k" using k by (simp add: bytes_of_word_def)
qed (simp add: bytes_of_word_def)

section \<open>The test of eight bytes at once\<close>

text \<open>Subtracting \<open>n\<close> from every byte sets the top bit of the first byte below \<open>n\<close>: no borrow reaches it.\<close>

lemma word_ones: "((-1) div 255 :: u64) = word_of_int (bytes_value (replicate 8 1))"
proof -
  have "((-1) div 255 :: u64) = 0x0101010101010101" by code_simp
  moreover have "bytes_value (replicate 8 1) = 0x0101010101010101" by code_simp
  ultimately show ?thesis by simp
qed

lemma top_bits: "k < 8 \<Longrightarrow> bit ((-1) div 255 * 128 :: u64) (8 * k + 7)"
proof -
  have "list_all (\<lambda>k. bit ((-1) div 255 * 128 :: u64) (8 * k + 7)) [0..<8]" by code_simp
  then show "k < 8 \<Longrightarrow> bit ((-1) div 255 * 128 :: u64) (8 * k + 7)" by (simp add: list_all_iff)
qed

lemma ones_le: "\<forall>x \<in> set bs. \<not> uint x < n \<Longrightarrow> n * bytes_value (replicate (length bs) 1) \<le> bytes_value bs"
  by (induction bs) (force simp: algebra_simps)+

lemma bit_7: "bit (H :: int) 7 \<longleftrightarrow> odd (H div 128)"
  by (simp add: bit_iff_odd)

lemma has_less_zero:
  assumes "has_less (word_of_bytes bs) (word_of_int n) = 0" and "length bs = 8" and "0 \<le> n" "n \<le> 128" and "b \<in> set bs"
  shows "n \<le> uint b"
proof (rule ccontr)
  assume "\<not> n \<le> uint b"
  then have "\<exists>x \<in> set bs. uint x < n" using assms(5) by (meson not_le)
  then obtain xs y zs where bs: "bs = xs @ y # zs" and y: "uint y < n" and xs: "\<forall>x \<in> set xs. \<not> uint x < n"
    using split_list_first_prop [of bs "\<lambda>x. uint x < n"] by blast
  define k ones where "k = length xs" and "ones m = bytes_value (replicate m 1)" for m
  have k: "k < 8" "length zs = 7 - k" using bs assms(2) by (auto simp: k_def)
  define L R where "L = bytes_value xs - n * ones k" and "R = bytes_value zs - n * ones (length zs)"
  have "replicate 8 (1 :: byte) = replicate k 1 @ 1 # replicate (length zs) 1"
    using k by (simp flip: replicate_Suc replicate_add)
  then have "ones 8 = ones k + 256 ^ k * (1 + 256 * ones (length zs))"
    unfolding ones_def by (simp add: bytes_value_append)
  then have D: "bytes_value bs - n * ones 8 = L + 256 ^ k * ((uint y - n) + 256 * R)"
    by (simp add: bs bytes_value_append L_def R_def k_def [symmetric] algebra_simps)
  have "0 \<le> L" using ones_le [OF xs] by (simp add: L_def ones_def k_def)
  moreover have "0 \<le> n * ones k" using assms(3) bytes_value_bounds(1) by (simp add: ones_def)
  then have "L < 256 ^ k" using bytes_value_bounds(2) [of xs] by (simp add: L_def k_def)
  ultimately have "(bytes_value bs - n * ones 8) div 256 ^ k = (uint y - n) + 256 * R" unfolding D by simp
  moreover have "(uint y - n + 256 * R) div 128 = 2 * R - 1"
  proof -
    have e: "uint y - n + 256 * R = (uint y - n + 128) + 128 * (2 * R - 1)" by simp
    have "(uint y - n + 128) div 128 = 0"
    proof (rule div_pos_pos_trivial)
      have "0 \<le> uint y" by (rule unsigned_greater_eq)
      then show "0 \<le> uint y - n + 128" "uint y - n + 128 < 128" using y assms(4) by linarith+
    qed
    moreover have "((uint y - n + 128) + 128 * (2 * R - 1)) div 128 = (uint y - n + 128) div 128 + (2 * R - 1)"
      by (simp only: div_mult_self2 zero_neq_numeral not_False_eq_True add.commute)
    ultimately show ?thesis unfolding e by linarith
  qed
  ultimately have "bit ((bytes_value bs - n * ones 8) div 256 ^ k) 7" by (simp add: bit_7)
  then have "bit (bytes_value bs - n * ones 8) (8 * k + 7)"
    by (simp add: bit_iff_odd power_add power_mult zdiv_zmult2_eq)
  then have "bit (word_of_bytes bs - (-1) div 255 * word_of_int n) (8 * k + 7)"
  proof -
    have "word_of_bytes bs - (-1) div 255 * word_of_int n = word_of_int (bytes_value bs - n * ones 8)"
      unfolding word_of_bytes_value word_ones ones_def of_int_diff of_int_mult by (simp only: mult.commute)
    then show "bit (bytes_value bs - n * ones 8) (8 * k + 7)
      \<Longrightarrow> bit (word_of_bytes bs - (-1) div 255 * word_of_int n) (8 * k + 7)"
      using k by (simp only: bit_word_of_int_iff) simp
  qed
  moreover have "\<not> bit (word_of_bytes bs) (8 * k + 7)"
  proof -
    have "bs ! k = y" by (simp add: bs k_def)
    moreover have "uint y < 128" using y assms(4) by simp
    then have "\<not> bit (uint y) 7" by (simp add: bit_7)
    ultimately show ?thesis using bit_word_of_bytes [of 7 k bs] k assms(2) by (simp add: bit_uint_iff)
  qed
  ultimately have "bit (has_less (word_of_bytes bs) (word_of_int n)) (8 * k + 7)"
    using top_bits [OF k(1)] k by (simp add: has_less_def bit_and_iff bit_not_iff)
  then show False using assms(1) by simp
qed

section \<open>The loop\<close>

lemma lines_from_data:
  "\<forall>b \<in> set bs. b \<noteq> CR \<and> b \<noteq> LF \<Longrightarrow> lines_from False (bs @ cs) = bs @ lines_from False cs"
  by (induction bs) simp_all

lemma put_byte_ok:
  assumes "i < length p" and "i \<le> k"
  shows "put_byte p i c = Ok (p[i := c])" "take (Suc i) (p[i := c]) = take i p @ [c]" "drop (Suc k) (p[i := c]) = drop (Suc k) p"
  using assms by (simp_all add: put_byte_def take_Suc_conv_app_nth)

lemma clean_char_ok:
  assumes "i < length p" and "out \<le> i" and "r \<longrightarrow> out < i"
  shows "\<exists>p' out' r'. clean_char p i out r = Ok (p', out', r') \<and> length p' = length p \<and> out' \<le> Suc i \<and> (r' \<longrightarrow> out' < Suc i)
    \<and> drop (Suc i) p' = drop (Suc i) p \<and> (\<forall>cs. take out' p' @ lines_from r' cs = take out p @ lines_from r (p ! i # cs))"
proof -
  note put = put_byte_ok [where k = i, OF order.strict_trans1 [OF assms(2,1)] assms(2)]
  consider "p ! i = CR" | "p ! i = LF" | "p ! i \<noteq> CR" "p ! i \<noteq> LF" "\<not> r" | "p ! i \<noteq> CR" "p ! i \<noteq> LF" r by auto
  then show ?thesis
  proof cases
    case 1
    then show ?thesis using assms put by (cases r) (auto simp: clean_char_def)
  next
    case 2
    then show ?thesis using assms put by (cases "i = out") (auto simp: clean_char_def take_Suc_conv_app_nth)
  next
    case 3
    then show ?thesis using assms put by (cases "i = out") (auto simp: clean_char_def take_Suc_conv_app_nth)
  next
    case 4
    have out: "Suc out \<le> i" using 4(3) assms(3) by simp
    note put' = put_byte_ok [where k = i and p = "p[out := LF]" and i = "Suc out"]
    have "(p[out := LF]) ! i = p ! i" using out by simp
    then show ?thesis
      using 4 assms out put put' by (cases "i = Suc out") (auto simp: clean_char_def take_Suc_conv_app_nth [of "Suc out"])
  qed
qed

lemma clean_loop_ok:
  assumes "i \<le> length p" and "out \<le> i" and "r \<longrightarrow> out < i"
  shows "\<exists>p' out' r'. clean_loop (length p) p i out r = Ok (p', out', r') \<and> length p' = length p
    \<and> out' + (if r' then 1 else 0) \<le> length p \<and> take out' p' @ (if r' then [LF] else []) = take out p @ lines_from r (drop i p)"
  using assms
proof (induction "length p - i" arbitrary: p i out r rule: less_induct)
  case less
  show ?case
  proof (cases "i < length p")
    case False
    then show ?thesis using less.prems by (subst clean_loop.simps) auto
  next
    case True
    have byte_step: "\<exists>p' out' r'. pbind (clean_char p i out r) (\<lambda>(p', out, r). clean_loop (length p) p' (i + 1) out r) = Ok (p', out', r')
        \<and> length p' = length p \<and> out' + (if r' then 1 else 0) \<le> length p
        \<and> take out' p' @ (if r' then [LF] else []) = take out p @ lines_from r (drop i p)"
    proof -
      obtain p1 o1 r1 where c: "clean_char p i out r = Ok (p1, o1, r1)" "length p1 = length p" "o1 \<le> Suc i" "r1 \<longrightarrow> o1 < Suc i"
        "drop (Suc i) p1 = drop (Suc i) p" "\<forall>cs. take o1 p1 @ lines_from r1 cs = take out p @ lines_from r (p ! i # cs)"
        using clean_char_ok [OF True less.prems(2,3)] by blast
      show ?thesis
        using less.hyps [of p1 "Suc i" o1 r1] True c by (simp flip: Cons_nth_drop_Suc)
    qed
    show ?thesis
    proof (cases "\<not> r \<and> i + 8 < length p \<and> has_less (word_of_bytes (take 8 (drop i p))) 14 = 0")
      case False
      then have "clean_loop (length p) p i out r
          = pbind (clean_char p i out r) (\<lambda>(p', out, r). clean_loop (length p) p' (i + 1) out r)"
        using True by (subst clean_loop.simps) (auto simp: unaligned_load64_def Let_def)
      then show ?thesis using byte_step by simp
    next
      case fast: True
      define bs where "bs = take 8 (drop i p)"
      have bs: "length bs = 8" using fast by (auto simp: bs_def)
      have "\<forall>b \<in> set bs. b \<noteq> CR \<and> b \<noteq> LF"
        using has_less_zero [of bs 14] fast bs by (fastforce simp: bs_def [symmetric])
      then have data: "lines_from False (drop i p) = bs @ lines_from False (drop (i + 8) p)"
        using lines_from_data [of bs "drop (i + 8) p"] fast by (simp add: bs_def take_drop_split [symmetric])
      define p1 where "p1 = (if out \<noteq> i then take out p @ bs @ drop (out + 8) p else p)"
      have p1: "length p1 = length p" "take (out + 8) p1 = take out p @ bs" "drop (i + 8) p1 = drop (i + 8) p"
        using fast less.prems bs by (auto simp: p1_def bs_def take_add)
      have "clean_loop (length p) p i out r = clean_loop (length p) p1 (i + 8) (out + 8) r"
        using fast less.prems bs
        by (subst clean_loop.simps)
          (simp add: unaligned_load64_def unaligned_store64_def bs_def [symmetric] bytes_of_word_of_bytes p1_def)
      moreover have "length p1 - (i + 8) < length p - i" using fast p1(1) by linarith
      from less.hyps [OF this, of "out + 8" r]
      have "\<exists>p' out' r'. clean_loop (length p) p1 (i + 8) (out + 8) r = Ok (p', out', r') \<and> length p' = length p
          \<and> out' + (if r' then 1 else 0) \<le> length p
          \<and> take out' p' @ (if r' then [LF] else []) = take out p @ lines_from r (drop i p)"
        using fast less.prems(2) p1 data by simp
      ultimately show ?thesis by simp
    qed
  qed
qed

section \<open>Results\<close>

text \<open>C31: the in-place pass, with its test of eight bytes at once, computes \<open>unix_lines\<close>, adds the missing
  end of the last line when asked to, and touches no byte outside the string.\<close>

theorem clean_line_endings:
  "CleanStringLineEndings str auto_end_last_line =
     Ok (unix_lines str @ (if auto_end_last_line \<and> str \<noteq> [] \<and> last (unix_lines str) \<noteq> LF then [LF] else []))"
proof -
  define u where "u = unix_lines str"
  obtain p out r where c: "clean_loop (length str) str 0 0 False = Ok (p, out, r)" "length p = length str"
    "out + (if r then 1 else 0) \<le> length str" "take out p @ (if r then [LF] else []) = u"
    using clean_loop_ok [of 0 str 0 False] by (auto simp: lines_from_eq u_def)
  have empty: "u = [] \<longleftrightarrow> str = []" unfolding u_def by (cases str) (simp_all split: list.splits)
  show ?thesis
  proof (cases r)
    case True
    then have "u = take out p @ [LF]" using c(4) by simp
    then show ?thesis using True c(1) by (simp add: CleanStringLineEndings_def u_def [symmetric])
  next
    case False
    then have u: "take out p = u" and le: "out \<le> length p" using c by simp_all
    have "p ! (out - 1) = last u" if "0 < out"
      using that le by (cases out) (simp_all add: u [symmetric] take_Suc_conv_app_nth)
    moreover have "0 < out \<longleftrightarrow> str \<noteq> []" using u le empty by (auto simp: c(2) [symmetric])
    ultimately show ?thesis
      using False c(1,2) u le by (auto simp: CleanStringLineEndings_def u_def [symmetric])
  qed
qed

end
