(* ===== verification/Streams.thy ===== *)
theory Streams
  imports Prelude
begin

text \<open>
  The input streams of \<^verbatim>\<open>protobuf/io\<close>: \<^verbatim>\<open>ArrayInputStream\<close>, \<^verbatim>\<open>CopyingInputStreamAdaptor\<close> and
  \<^verbatim>\<open>LimitingInputStream\<close> (\<^verbatim>\<open>zero_copy_stream_impl_lite.cc\<close>), \<^verbatim>\<open>ConcatenatingInputStream\<close> and
  \<^verbatim>\<open>IstreamInputStream\<close> (\<^verbatim>\<open>zero_copy_stream_impl.cc\<close>). A stream hands out chunks of its own memory;
  \<open>Next\<close> gives \<open>Some\<close> chunk or \<open>None\<close> for false. A failed \<^verbatim>\<open>GOOGLE_CHECK\<close> is \<open>Fatal\<close>. Positions are
  integers: the code keeps counts below the size of a buffer in \<^verbatim>\<open>int\<close> and totals in \<^verbatim>\<open>int64_t\<close>.

  \<open>input_stream\<close> is the class hierarchy, streams on top of streams; \<open>stream_Next\<close> and its like are
  the virtual calls. The locale \<open>zero_copy_input\<close> is the contract that \<^verbatim>\<open>zero_copy_stream.h\<close> promises.
\<close>

section \<open>ArrayInputStream\<close>

record array_input =
  array_data :: "byte list"
  array_block_size :: int
  array_position :: int
  array_last_returned_size :: int

definition ArrayInputStream :: "byte list \<Rightarrow> int \<Rightarrow> array_input" where
  "ArrayInputStream data block_size =
     \<lparr>array_data = data, array_block_size = (if block_size > 0 then block_size else int (length data)),
      array_position = 0, array_last_returned_size = 0\<rparr>"

definition ArrayInputStream_Next :: "array_input \<Rightarrow> byte list option \<times> array_input" where
  "ArrayInputStream_Next s =
     (let size = int (length (array_data s)); position = array_position s
      in if position < size then
           let n = min (array_block_size s) (size - position)
           in (Some (take (nat n) (drop (nat position) (array_data s))),
               s\<lparr>array_last_returned_size := n, array_position := position + n\<rparr>)
         else (None, s\<lparr>array_last_returned_size := 0\<rparr>))"

definition ArrayInputStream_BackUp :: "int \<Rightarrow> array_input \<Rightarrow> array_input pres" where
  "ArrayInputStream_BackUp count s =
     (if \<not> array_last_returned_size s > 0 then Fatal
      else if \<not> count \<le> array_last_returned_size s then Fatal
      else if \<not> count \<ge> 0 then Fatal
      else Ok (s\<lparr>array_position := array_position s - count, array_last_returned_size := 0\<rparr>))"

definition ArrayInputStream_Skip :: "int \<Rightarrow> array_input \<Rightarrow> (bool \<times> array_input) pres" where
  "ArrayInputStream_Skip count s =
     (if \<not> count \<ge> 0 then Fatal
      else let s = s\<lparr>array_last_returned_size := 0\<rparr>; size = int (length (array_data s))
        in if count > size - array_position s then Ok (False, s\<lparr>array_position := size\<rparr>)
           else Ok (True, s\<lparr>array_position := array_position s + count\<rparr>))"

definition ArrayInputStream_ByteCount :: "array_input \<Rightarrow> int" where
  "ArrayInputStream_ByteCount s = array_position s"

section \<open>CopyingInputStreamAdaptor\<close>

text \<open>
  Any source with a \<^verbatim>\<open>Read\<close>: \<open>None\<close> is an error (-1), \<open>Some []\<close> the end. \<^verbatim>\<open>Skip\<close> is virtual; this is
  the default, which reads into a junk buffer.
\<close>

type_synonym 'c read = "int \<Rightarrow> 'c \<Rightarrow> byte list option \<times> 'c"
type_synonym 'c skip = "int \<Rightarrow> 'c \<Rightarrow> int \<times> 'c"

function CopyingInputStream_skip_loop :: "'c read \<Rightarrow> int \<Rightarrow> int \<Rightarrow> 'c \<Rightarrow> int \<times> 'c" where
  "CopyingInputStream_skip_loop read count skipped c =
     (if skipped < count then
        case read (min (count - skipped) 4096) c of
          (None, c) \<Rightarrow> (skipped, c)
        | (Some bytes, c) \<Rightarrow>
            if bytes = [] then (skipped, c)
            else CopyingInputStream_skip_loop read count (skipped + int (length bytes)) c
      else (skipped, c))"
  by pat_completeness auto
termination
proof (relation "measure (\<lambda>(_, count, skipped, _). nat (count - skipped))", goal_cases)
  case (2 read count skipped c x c' bytes)
  then show ?case by (cases bytes) simp_all
qed simp

declare CopyingInputStream_skip_loop.simps [simp del]

definition CopyingInputStream_Skip :: "'c read \<Rightarrow> 'c skip" where
  "CopyingInputStream_Skip read count c = CopyingInputStream_skip_loop read count 0 c"

text \<open>The buffer holds the \<^verbatim>\<open>buffer_used_\<close> bytes; \<open>None\<close>: not allocated.\<close>

record 'c copying_input =
  copying_stream :: 'c
  copying_failed :: bool
  copying_position :: int
  copying_buffer_size :: int
  copying_buffer :: "byte list option"
  copying_backup_bytes :: int

definition kDefaultBlockSize :: int where "kDefaultBlockSize = 8192"

definition CopyingInputStreamAdaptor :: "'c \<Rightarrow> int \<Rightarrow> 'c copying_input" where
  "CopyingInputStreamAdaptor c block_size =
     \<lparr>copying_stream = c, copying_failed = False, copying_position = 0,
      copying_buffer_size = (if block_size > 0 then block_size else kDefaultBlockSize),
      copying_buffer = None, copying_backup_bytes = 0\<rparr>"

definition buffer_used :: "'c copying_input \<Rightarrow> int" where
  "buffer_used s = (case copying_buffer s of None \<Rightarrow> 0 | Some b \<Rightarrow> int (length b))"

definition AllocateBufferIfNeeded :: "'c copying_input \<Rightarrow> 'c copying_input" where
  "AllocateBufferIfNeeded s = (if copying_buffer s = None then s\<lparr>copying_buffer := Some []\<rparr> else s)"

definition FreeBuffer :: "'c copying_input \<Rightarrow> 'c copying_input pres" where
  "FreeBuffer s = (if copying_backup_bytes s \<noteq> 0 then Fatal else Ok (s\<lparr>copying_buffer := None\<rparr>))"

definition CopyingInput_Next :: "'c read \<Rightarrow> 'c copying_input \<Rightarrow> (byte list option \<times> 'c copying_input) pres" where
  "CopyingInput_Next read s =
     (if copying_failed s then Ok (None, s)
      else let s = AllocateBufferIfNeeded s; buffer = (case copying_buffer s of None \<Rightarrow> [] | Some b \<Rightarrow> b)
        in if copying_backup_bytes s > 0 then
             Ok (Some (drop (nat (buffer_used s - copying_backup_bytes s)) buffer), s\<lparr>copying_backup_bytes := 0\<rparr>)
           else case read (copying_buffer_size s) (copying_stream s) of
             (None, c) \<Rightarrow> pbind (FreeBuffer (s\<lparr>copying_stream := c, copying_failed := True\<rparr>)) (\<lambda>s. Ok (None, s))
           | (Some bytes, c) \<Rightarrow>
               if bytes = [] then pbind (FreeBuffer (s\<lparr>copying_stream := c\<rparr>)) (\<lambda>s. Ok (None, s))
               else Ok (Some bytes, s\<lparr>copying_stream := c, copying_buffer := Some bytes,
                        copying_position := copying_position s + int (length bytes)\<rparr>))"

definition CopyingInput_BackUp :: "int \<Rightarrow> 'c copying_input \<Rightarrow> 'c copying_input pres" where
  "CopyingInput_BackUp count s =
     (if \<not> (copying_backup_bytes s = 0 \<and> copying_buffer s \<noteq> None) then Fatal
      else if \<not> count \<le> buffer_used s then Fatal
      else if \<not> count \<ge> 0 then Fatal
      else Ok (s\<lparr>copying_backup_bytes := count\<rparr>))"

definition CopyingInput_Skip :: "'c skip \<Rightarrow> int \<Rightarrow> 'c copying_input \<Rightarrow> (bool \<times> 'c copying_input) pres" where
  "CopyingInput_Skip skip_source count s =
     (if \<not> count \<ge> 0 then Fatal
      else if copying_failed s then Ok (False, s)
      else if copying_backup_bytes s \<ge> count then
        Ok (True, s\<lparr>copying_backup_bytes := copying_backup_bytes s - count\<rparr>)
      else
        let count = count - copying_backup_bytes s; (skipped, c) = skip_source count (copying_stream s)
        in Ok (skipped = count, s\<lparr>copying_backup_bytes := 0, copying_stream := c, copying_position := copying_position s + skipped\<rparr>))"

definition CopyingInput_ByteCount :: "'c copying_input \<Rightarrow> int" where
  "CopyingInput_ByteCount s = copying_position s - copying_backup_bytes s"

section \<open>LimitingInputStream and ConcatenatingInputStream\<close>

text \<open>Over the virtual calls of the streams they are built on. The state is the inner stream and \<^verbatim>\<open>limit_\<close>.\<close>

type_synonym 's next_call = "'s \<Rightarrow> (byte list option \<times> 's) pres"
type_synonym 's backup_call = "int \<Rightarrow> 's \<Rightarrow> 's pres"
type_synonym 's skip_call = "int \<Rightarrow> 's \<Rightarrow> (bool \<times> 's) pres"

definition Limiting_Next :: "'s next_call \<Rightarrow> 's \<Rightarrow> int \<Rightarrow> (byte list option \<times> 's \<times> int) pres" where
  "Limiting_Next next_input input limit =
     (if limit \<le> 0 then Ok (None, input, limit)
      else pbind (next_input input) (\<lambda>(data, input).
        case data of
          None \<Rightarrow> Ok (None, input, limit)
        | Some data \<Rightarrow>
            let limit = limit - int (length data)
            in Ok (Some (if limit < 0 then take (nat (int (length data) + limit)) data else data), input, limit)))"

definition Limiting_BackUp :: "'s backup_call \<Rightarrow> int \<Rightarrow> 's \<Rightarrow> int \<Rightarrow> ('s \<times> int) pres" where
  "Limiting_BackUp back_up_input count input limit =
     (if limit < 0 then pbind (back_up_input (count - limit) input) (\<lambda>input. Ok (input, count))
      else pbind (back_up_input count input) (\<lambda>input. Ok (input, limit + count)))"

definition Limiting_Skip :: "'s skip_call \<Rightarrow> int \<Rightarrow> 's \<Rightarrow> int \<Rightarrow> (bool \<times> 's \<times> int) pres" where
  "Limiting_Skip skip_input count input limit =
     (if count > limit then
        if limit < 0 then Ok (False, input, limit)
        else pbind (skip_input limit input) (\<lambda>(_, input). Ok (False, input, 0))
      else pbind (skip_input count input) (\<lambda>(ok, input).
        if \<not> ok then Ok (False, input, limit) else Ok (True, input, limit - count)))"

definition Limiting_ByteCount :: "('s \<Rightarrow> int) \<Rightarrow> 's \<Rightarrow> int \<Rightarrow> int \<Rightarrow> int" where
  "Limiting_ByteCount byte_count_input input limit prior_bytes_read =
     (if limit < 0 then byte_count_input input + limit - prior_bytes_read
      else byte_count_input input - prior_bytes_read)"

text \<open>The destructor gives back what was read past the limit.\<close>

definition Limiting_destroy :: "'s backup_call \<Rightarrow> 's \<Rightarrow> int \<Rightarrow> 's pres" where
  "Limiting_destroy back_up_input input limit = (if limit < 0 then back_up_input (- limit) input else Ok input)"

fun Concatenating_Next ::
  "'s next_call \<Rightarrow> ('s \<Rightarrow> int) \<Rightarrow> 's list \<Rightarrow> int \<Rightarrow> (byte list option \<times> 's list \<times> int) pres" where
  "Concatenating_Next next_input byte_count [] bytes_retired = Ok (None, [], bytes_retired)"
| "Concatenating_Next next_input byte_count (s # streams) bytes_retired =
     pbind (next_input s) (\<lambda>(data, s).
       case data of
         Some data \<Rightarrow> Ok (Some data, s # streams, bytes_retired)
       | None \<Rightarrow> Concatenating_Next next_input byte_count streams (bytes_retired + byte_count s))"

definition Concatenating_BackUp :: "'s backup_call \<Rightarrow> int \<Rightarrow> 's list \<Rightarrow> 's list pres" where
  "Concatenating_BackUp back_up_input count streams =
     (case streams of
        s # streams \<Rightarrow> pbind (back_up_input count s) (\<lambda>s. Ok (s # streams))
      | [] \<Rightarrow> Fatal)"

fun Concatenating_Skip ::
  "'s skip_call \<Rightarrow> ('s \<Rightarrow> int) \<Rightarrow> int \<Rightarrow> 's list \<Rightarrow> int \<Rightarrow> (bool \<times> 's list \<times> int) pres" where
  "Concatenating_Skip skip_input byte_count count [] bytes_retired = Ok (False, [], bytes_retired)"
| "Concatenating_Skip skip_input byte_count count (s # streams) bytes_retired =
     (let target_byte_count = byte_count s + count
      in pbind (skip_input count s) (\<lambda>(ok, s).
        if ok then Ok (True, s # streams, bytes_retired)
        else let final_byte_count = byte_count s
          in Concatenating_Skip skip_input byte_count (target_byte_count - final_byte_count) streams
               (bytes_retired + final_byte_count)))"

definition Concatenating_ByteCount :: "('s \<Rightarrow> int) \<Rightarrow> 's list \<Rightarrow> int \<Rightarrow> int" where
  "Concatenating_ByteCount byte_count streams bytes_retired =
     (case streams of [] \<Rightarrow> bytes_retired | s # _ \<Rightarrow> bytes_retired + byte_count s)"

text \<open>What termination of the virtual calls needs: they are made on the inner streams only.\<close>

lemma Limiting_Next_cong [fundef_cong]:
  "next s = next' s \<Longrightarrow> Limiting_Next next s limit = Limiting_Next next' s limit"
  by (simp add: Limiting_Next_def)

lemma Limiting_BackUp_cong [fundef_cong]:
  "(\<And>n. back_up n s = back_up' n s) \<Longrightarrow> Limiting_BackUp back_up count s limit = Limiting_BackUp back_up' count s limit"
  by (simp add: Limiting_BackUp_def)

lemma Limiting_Skip_cong [fundef_cong]:
  "(\<And>n. skip n s = skip' n s) \<Longrightarrow> Limiting_Skip skip count s limit = Limiting_Skip skip' count s limit"
  by (simp add: Limiting_Skip_def)

lemma Limiting_ByteCount_cong [fundef_cong]:
  "byte_count s = byte_count' s \<Longrightarrow> Limiting_ByteCount byte_count s limit prior = Limiting_ByteCount byte_count' s limit prior"
  by (simp add: Limiting_ByteCount_def)

lemma Concatenating_Next_same:
  "\<forall>s \<in> set streams. next s = next' s \<Longrightarrow>
   Concatenating_Next next byte_count streams retired = Concatenating_Next next' byte_count streams retired"
proof (induction streams arbitrary: retired)
  case (Cons s streams)
  then show ?case by (cases "next' s") (auto split: option.splits)
qed simp

lemma Concatenating_Next_cong [fundef_cong]:
  "streams = streams' \<Longrightarrow> (\<And>s. s \<in> set streams' \<Longrightarrow> next s = next' s) \<Longrightarrow>
   Concatenating_Next next byte_count streams retired = Concatenating_Next next' byte_count streams' retired"
  using Concatenating_Next_same by metis

lemma Concatenating_BackUp_cong [fundef_cong]:
  "(\<And>n s. s \<in> set streams \<Longrightarrow> back_up n s = back_up' n s) \<Longrightarrow>
   Concatenating_BackUp back_up count streams = Concatenating_BackUp back_up' count streams"
  by (cases streams) (simp_all add: Concatenating_BackUp_def)

lemma Concatenating_Skip_same:
  "\<forall>s \<in> set streams. \<forall>n. skip n s = skip' n s \<Longrightarrow>
   Concatenating_Skip skip byte_count count streams retired = Concatenating_Skip skip' byte_count count streams retired"
proof (induction streams arbitrary: count retired)
  case (Cons s streams)
  then show ?case by (cases "skip' count s") (auto simp: Let_def)
qed simp

lemma Concatenating_Skip_cong [fundef_cong]:
  "streams = streams' \<Longrightarrow> (\<And>n s. s \<in> set streams' \<Longrightarrow> skip n s = skip' n s) \<Longrightarrow>
   Concatenating_Skip skip byte_count count streams retired = Concatenating_Skip skip' byte_count count streams' retired"
  using Concatenating_Skip_same by metis

lemma Concatenating_ByteCount_cong [fundef_cong]:
  "(\<And>s. s \<in> set streams \<Longrightarrow> byte_count s = byte_count' s) \<Longrightarrow>
   Concatenating_ByteCount byte_count streams retired = Concatenating_ByteCount byte_count' streams retired"
  by (cases streams) (simp_all add: Concatenating_ByteCount_def)

section \<open>The class hierarchy\<close>

text \<open>The integers are \<^verbatim>\<open>limit_\<close> and \<^verbatim>\<open>prior_bytes_read_\<close>, and \<^verbatim>\<open>bytes_retired_\<close>.\<close>

datatype 'c input_stream =
    ArrayInput array_input
  | CopyingInput "'c copying_input"
  | LimitingInput "'c input_stream" int int
  | ConcatenatingInput "'c input_stream list" int

fun stream_ByteCount :: "'c input_stream \<Rightarrow> int" where
  "stream_ByteCount (ArrayInput s) = ArrayInputStream_ByteCount s"
| "stream_ByteCount (CopyingInput s) = CopyingInput_ByteCount s"
| "stream_ByteCount (LimitingInput s limit prior) = Limiting_ByteCount stream_ByteCount s limit prior"
| "stream_ByteCount (ConcatenatingInput ss retired) = Concatenating_ByteCount stream_ByteCount ss retired"

fun stream_Next :: "'c read \<Rightarrow> 'c input_stream \<Rightarrow> (byte list option \<times> 'c input_stream) pres" where
  "stream_Next read (ArrayInput s) = (case ArrayInputStream_Next s of (data, s) \<Rightarrow> Ok (data, ArrayInput s))"
| "stream_Next read (CopyingInput s) = pbind (CopyingInput_Next read s) (\<lambda>(data, s). Ok (data, CopyingInput s))"
| "stream_Next read (LimitingInput s limit prior) =
     pbind (Limiting_Next (stream_Next read) s limit) (\<lambda>(data, s, limit). Ok (data, LimitingInput s limit prior))"
| "stream_Next read (ConcatenatingInput ss retired) =
     pbind (Concatenating_Next (stream_Next read) stream_ByteCount ss retired) (\<lambda>(data, ss, retired).
       Ok (data, ConcatenatingInput ss retired))"

fun stream_BackUp :: "int \<Rightarrow> 'c input_stream \<Rightarrow> 'c input_stream pres" where
  "stream_BackUp count (ArrayInput s) = pbind (ArrayInputStream_BackUp count s) (\<lambda>s. Ok (ArrayInput s))"
| "stream_BackUp count (CopyingInput s) = pbind (CopyingInput_BackUp count s) (\<lambda>s. Ok (CopyingInput s))"
| "stream_BackUp count (LimitingInput s limit prior) =
     pbind (Limiting_BackUp stream_BackUp count s limit) (\<lambda>(s, limit). Ok (LimitingInput s limit prior))"
| "stream_BackUp count (ConcatenatingInput ss retired) =
     pbind (Concatenating_BackUp stream_BackUp count ss) (\<lambda>ss. Ok (ConcatenatingInput ss retired))"

fun stream_Skip :: "'c skip \<Rightarrow> int \<Rightarrow> 'c input_stream \<Rightarrow> (bool \<times> 'c input_stream) pres" where
  "stream_Skip skip count (ArrayInput s) = pbind (ArrayInputStream_Skip count s) (\<lambda>(ok, s). Ok (ok, ArrayInput s))"
| "stream_Skip skip count (CopyingInput s) = pbind (CopyingInput_Skip skip count s) (\<lambda>(ok, s). Ok (ok, CopyingInput s))"
| "stream_Skip skip count (LimitingInput s limit prior) =
     pbind (Limiting_Skip (stream_Skip skip) count s limit) (\<lambda>(ok, s, limit). Ok (ok, LimitingInput s limit prior))"
| "stream_Skip skip count (ConcatenatingInput ss retired) =
     pbind (Concatenating_Skip (stream_Skip skip) stream_ByteCount count ss retired) (\<lambda>(ok, ss, retired).
       Ok (ok, ConcatenatingInput ss retired))"

text \<open>The constructors of the two classes that are built on other streams.\<close>

definition LimitingInputStream :: "'c input_stream \<Rightarrow> int \<Rightarrow> 'c input_stream" where
  "LimitingInputStream input limit = LimitingInput input limit (stream_ByteCount input)"

definition ConcatenatingInputStream :: "'c input_stream list \<Rightarrow> 'c input_stream" where
  "ConcatenatingInputStream streams = ConcatenatingInput streams 0"

section \<open>IstreamInputStream\<close>

text \<open>A \<^verbatim>\<open>std::istream\<close>: what is unread and its three error bits. \<^verbatim>\<open>read\<close> extracts nothing from a stream
  that is not good, and sets two bits when it meets the end.\<close>

record istream =
  unread :: "byte list"
  eofbit :: bool
  failbit :: bool
  badbit :: bool

definition istream_read :: "int \<Rightarrow> istream \<Rightarrow> byte list \<times> istream" where
  "istream_read n s =
     (if eofbit s \<or> failbit s \<or> badbit s then ([], s\<lparr>failbit := True\<rparr>)
      else if n \<le> int (length (unread s)) then (take (nat n) (unread s), s\<lparr>unread := drop (nat n) (unread s)\<rparr>)
      else (unread s, s\<lparr>unread := [], eofbit := True, failbit := True\<rparr>))"

definition CopyingIstreamInputStream_Read :: "istream read" where
  "CopyingIstreamInputStream_Read n s =
     (case istream_read n s of (bytes, s) \<Rightarrow>
        if bytes = [] \<and> (failbit s \<or> badbit s) \<and> \<not> eofbit s then (None, s) else (Some bytes, s))"

definition IstreamInputStream :: "istream \<Rightarrow> int \<Rightarrow> istream input_stream" where
  "IstreamInputStream input block_size = CopyingInput (CopyingInputStreamAdaptor input block_size)"

section \<open>The contract\<close>

text \<open>
  What \<^verbatim>\<open>zero_copy_stream.h\<close> promises, with the bytes still to come as the abstraction. \<open>Next\<close> hands out
  bytes from the front and returns false only at the end; \<open>BackUp\<close> after it puts the end of the chunk back;
  \<open>Skip\<close> drops bytes and tells whether there were enough, except that for no bytes at the end either answer
  is possible; \<open>ByteCount\<close> counts.
\<close>

locale zero_copy_input =
  fixes next_chunk :: "'s next_call" and back_up :: "'s backup_call" and skip :: "'s skip_call"
    and byte_count :: "'s \<Rightarrow> int" and rest :: "'s \<Rightarrow> byte list" and ok :: "'s \<Rightarrow> bool"
  assumes next_ok: "ok s \<Longrightarrow> \<exists>data s'. next_chunk s = Ok (data, s') \<and> ok s'"
    and next_none: "ok s \<Longrightarrow> next_chunk s = Ok (None, s') \<Longrightarrow> rest s = [] \<and> rest s' = [] \<and> byte_count s' = byte_count s"
    and next_some: "ok s \<Longrightarrow> next_chunk s = Ok (Some data, s') \<Longrightarrow>
      data \<noteq> [] \<and> rest s = data @ rest s' \<and> byte_count s' = byte_count s + int (length data)"
    and back_up_next: "ok s \<Longrightarrow> next_chunk s = Ok (Some data, s') \<Longrightarrow> n \<le> length data \<Longrightarrow>
      \<exists>s''. back_up (int n) s' = Ok s'' \<and> ok s'' \<and> rest s'' = drop (length data - n) data @ rest s' \<and> byte_count s'' = byte_count s' - int n"
    and skip_ok: "ok s \<Longrightarrow> \<exists>b s'. skip (int n) s = Ok (b, s') \<and> ok s' \<and> rest s' = drop n (rest s)
      \<and> byte_count s' = byte_count s + int (min n (length (rest s)))
      \<and> (b \<longrightarrow> n \<le> length (rest s)) \<and> (\<not> b \<longrightarrow> rest s' = [] \<and> (n = 0 \<or> length (rest s) < n))"

text \<open>The same for a source that is only read from.\<close>

locale byte_source =
  fixes read :: "'c read" and rest :: "'c \<Rightarrow> byte list" and ok :: "'c \<Rightarrow> bool"
  assumes read_ok: "ok c \<Longrightarrow> 0 < n \<Longrightarrow> \<exists>bytes c'. read n c = (Some bytes, c') \<and> ok c' \<and> rest c = bytes @ rest c'
    \<and> int (length bytes) \<le> n \<and> (bytes = [] \<longrightarrow> rest c = [])"

locale copying_source = byte_source +
  fixes skip :: "'c skip"
  assumes skip_ok: "ok c \<Longrightarrow> \<exists>c'. skip (int n) c = (int (min n (length (rest c))), c') \<and> ok c' \<and> rest c' = drop n (rest c)"

text \<open>The default \<^verbatim>\<open>Skip\<close> meets it.\<close>

context byte_source begin

lemma skip_loop:
  "ok c \<Longrightarrow> \<exists>c'. CopyingInputStream_skip_loop read (int n) (int k) c = (int (min (max n k) (k + length (rest c))), c')
     \<and> ok c' \<and> rest c' = drop (n - k) (rest c)"
proof (induction "n - k" arbitrary: k c rule: less_induct)
  case less
  show ?case
  proof (cases "k < n")
    case False
    then show ?thesis using less.prems by (subst CopyingInputStream_skip_loop.simps) auto
  next
    case True
    then obtain bytes c1 where r: "read (min (int n - int k) 4096) c = (Some bytes, c1)" "ok c1" "rest c = bytes @ rest c1"
      "int (length bytes) \<le> min (int n - int k) 4096" "bytes = [] \<longrightarrow> rest c = []"
      using read_ok [OF less.prems, of "min (int n - int k) 4096"] by auto
    show ?thesis
    proof (cases "bytes = []")
      case True
      then show ?thesis using r \<open>k < n\<close> by (subst CopyingInputStream_skip_loop.simps) auto
    next
      case False
      have k: "int k + int (length bytes) = int (k + length bytes)" "k + length bytes \<le> n" using r(4) by simp_all
      have step: "CopyingInputStream_skip_loop read (int n) (int k) c = CopyingInputStream_skip_loop read (int n) (int (k + length bytes)) c1"
        using r \<open>k < n\<close> False by (subst CopyingInputStream_skip_loop.simps) simp
      have "n - (k + length bytes) < n - k" using False \<open>k < n\<close> by (cases bytes) simp_all
      from less.hyps [OF this r(2)] obtain c' where "CopyingInputStream_skip_loop read (int n) (int (k + length bytes)) c1
          = (int (min (max n (k + length bytes)) (k + length bytes + length (rest c1))), c')"
        "ok c'" "rest c' = drop (n - (k + length bytes)) (rest c1)" by blast
      then show ?thesis using step r(3) k(2) False by auto
    qed
  qed
qed

lemma default_skip: "ok c \<Longrightarrow> \<exists>c'. CopyingInputStream_Skip read (int n) c = (int (min n (length (rest c))), c') \<and> ok c' \<and> rest c' = drop n (rest c)"
  using skip_loop [of c n 0] by (auto simp: CopyingInputStream_Skip_def)

end

sublocale byte_source \<subseteq> defaulted: copying_source read rest ok "CopyingInputStream_Skip read"
  by unfold_locales (rule default_skip)

text \<open>A \<^verbatim>\<open>std::istream\<close> that has not gone bad is such a source.\<close>

definition istream_ok :: "istream \<Rightarrow> bool" where
  "istream_ok s \<longleftrightarrow> \<not> badbit s \<and> (failbit s \<longrightarrow> eofbit s) \<and> (eofbit s \<longrightarrow> unread s = [])"

interpretation istream: byte_source CopyingIstreamInputStream_Read unread istream_ok
proof
  fix c :: istream and n :: int
  assume "istream_ok c" and "0 < n"
  then show "\<exists>bytes c'. CopyingIstreamInputStream_Read n c = (Some bytes, c') \<and> istream_ok c' \<and> unread c = bytes @ unread c'
      \<and> int (length bytes) \<le> n \<and> (bytes = [] \<longrightarrow> unread c = [])"
    by (auto simp: CopyingIstreamInputStream_Read_def istream_read_def istream_ok_def)
qed

section \<open>The streams keep the contract\<close>

text \<open>The bytes still to come.\<close>

fun stream_rest :: "('c \<Rightarrow> byte list) \<Rightarrow> 'c input_stream \<Rightarrow> byte list" where
  "stream_rest source (ArrayInput s) = drop (nat (array_position s)) (array_data s)"
| "stream_rest source (CopyingInput s) =
     (case copying_buffer s of None \<Rightarrow> [] | Some b \<Rightarrow> drop (nat (int (length b) - copying_backup_bytes s)) b) @ source (copying_stream s)"
| "stream_rest source (LimitingInput s limit prior) = take (nat limit) (stream_rest source s)"
| "stream_rest source (ConcatenatingInput ss retired) = concat (map (stream_rest source) ss)"

text \<open>A limiting stream that is past its limit has an inner stream that has just handed out a chunk across it.
  \<^verbatim>\<open>ByteCount\<close> of a concatenation is right when nothing has been read from the later streams yet.\<close>

inductive stream_ok :: "'c read \<Rightarrow> ('c \<Rightarrow> bool) \<Rightarrow> 'c input_stream \<Rightarrow> bool" for read ok where
  array: "0 \<le> array_position s \<Longrightarrow> array_position s \<le> int (length (array_data s)) \<Longrightarrow>
    array_data s = [] \<or> 0 < array_block_size s \<Longrightarrow> stream_ok read ok (ArrayInput s)"
| copying: "\<not> copying_failed s \<Longrightarrow> ok (copying_stream s) \<Longrightarrow> 0 < copying_buffer_size s \<Longrightarrow> 0 \<le> copying_backup_bytes s \<Longrightarrow>
    copying_backup_bytes s \<le> buffer_used s \<Longrightarrow> stream_ok read ok (CopyingInput s)"
| limiting: "stream_ok read ok s \<Longrightarrow> 0 \<le> limit \<Longrightarrow> stream_ok read ok (LimitingInput s limit prior)"
| overshot: "stream_ok read ok s0 \<Longrightarrow> stream_Next read s0 = Ok (Some data, s) \<Longrightarrow> limit < 0 \<Longrightarrow> - limit < int (length data) \<Longrightarrow>
    stream_ok read ok (LimitingInput s limit prior)"
| concatenating: "\<forall>s \<in> set ss. stream_ok read ok s \<Longrightarrow> \<forall>s \<in> set (tl ss). stream_ByteCount s = 0 \<Longrightarrow> stream_ok read ok (ConcatenatingInput ss retired)"

text \<open>The contract at one stream.\<close>

definition next_kept :: "'c read \<Rightarrow> ('c \<Rightarrow> bool) \<Rightarrow> ('c \<Rightarrow> byte list) \<Rightarrow> 'c input_stream \<Rightarrow> bool" where
  "next_kept read ok source s \<longleftrightarrow> (\<exists>data s'. stream_Next read s = Ok (data, s') \<and> stream_ok read ok s' \<and>
     (case data of
        None \<Rightarrow> stream_rest source s = [] \<and> stream_rest source s' = [] \<and> stream_ByteCount s' = stream_ByteCount s
      | Some data \<Rightarrow> data \<noteq> [] \<and> stream_rest source s = data @ stream_rest source s'
          \<and> stream_ByteCount s' = stream_ByteCount s + int (length data)
          \<and> (\<forall>n \<le> length data. \<exists>s''. stream_BackUp (int n) s' = Ok s'' \<and> stream_ok read ok s''
               \<and> stream_rest source s'' = drop (length data - n) data @ stream_rest source s'
               \<and> stream_ByteCount s'' = stream_ByteCount s' - int n)))"

definition skip_kept :: "'c read \<Rightarrow> ('c \<Rightarrow> bool) \<Rightarrow> ('c \<Rightarrow> byte list) \<Rightarrow> 'c skip \<Rightarrow> 'c input_stream \<Rightarrow> bool" where
  "skip_kept read ok source skip s \<longleftrightarrow> (\<forall>n. \<exists>b s'. stream_Skip skip (int n) s = Ok (b, s') \<and> stream_ok read ok s'
     \<and> stream_rest source s' = drop n (stream_rest source s)
     \<and> stream_ByteCount s' = stream_ByteCount s + int (min n (length (stream_rest source s)))
     \<and> (b \<longrightarrow> n \<le> length (stream_rest source s))
     \<and> (\<not> b \<longrightarrow> stream_rest source s' = [] \<and> (n = 0 \<or> length (stream_rest source s) < n)))"

lemma drop_end: "k \<le> m \<Longrightarrow> m \<le> length xs \<Longrightarrow> drop (m - k) xs = drop (m - k) (take m xs) @ drop m xs"
  using drop_append [of "m - k" "take m xs" "drop m xs"] by simp

lemma next_kept_someI:
  assumes "stream_Next read s = Ok (Some data, s')" and "stream_ok read ok s'" and "data \<noteq> []"
    and "stream_rest source s = data @ stream_rest source s'" and "stream_ByteCount s' = stream_ByteCount s + int (length data)"
    and "\<And>n. n \<le> length data \<Longrightarrow> stream_BackUp (int n) s' = Ok (b n)" and "\<And>n. n \<le> length data \<Longrightarrow> stream_ok read ok (b n)"
    and "\<And>n. n \<le> length data \<Longrightarrow> stream_rest source (b n) = drop (length data - n) data @ stream_rest source s'"
    and "\<And>n. n \<le> length data \<Longrightarrow> stream_ByteCount (b n) = stream_ByteCount s' - int n"
  shows "next_kept read ok source s"
  unfolding next_kept_def using assms by (intro exI [of _ "Some data"] exI [of _ s']) auto

lemma next_kept_noneI:
  assumes "stream_Next read s = Ok (None, s')" and "stream_ok read ok s'" and "stream_rest source s = []" "stream_rest source s' = []"
    and "stream_ByteCount s' = stream_ByteCount s"
  shows "next_kept read ok source s"
  unfolding next_kept_def using assms by (intro exI [of _ None] exI [of _ s']) simp

lemma next_kept_cases:
  assumes "next_kept read ok source s"
  obtains (none) s' where "stream_Next read s = Ok (None, s')" "stream_ok read ok s'" "stream_rest source s = []" "stream_rest source s' = []"
      "stream_ByteCount s' = stream_ByteCount s"
  | (some) data s' b where "stream_Next read s = Ok (Some data, s')" "stream_ok read ok s'" "data \<noteq> []"
      "stream_rest source s = data @ stream_rest source s'" "stream_ByteCount s' = stream_ByteCount s + int (length data)"
      "\<forall>n. n \<le> length data \<longrightarrow> stream_BackUp (int n) s' = Ok (b n) \<and> stream_ok read ok (b n)
        \<and> stream_rest source (b n) = drop (length data - n) data @ stream_rest source s'
        \<and> stream_ByteCount (b n) = stream_ByteCount s' - int n"
proof -
  obtain d s' where d: "stream_Next read s = Ok (d, s')" "stream_ok read ok s'"
    and cases: "case d of
        None \<Rightarrow> stream_rest source s = [] \<and> stream_rest source s' = [] \<and> stream_ByteCount s' = stream_ByteCount s
      | Some data \<Rightarrow> data \<noteq> [] \<and> stream_rest source s = data @ stream_rest source s'
          \<and> stream_ByteCount s' = stream_ByteCount s + int (length data)
          \<and> (\<forall>n \<le> length data. \<exists>s''. stream_BackUp (int n) s' = Ok s'' \<and> stream_ok read ok s''
               \<and> stream_rest source s'' = drop (length data - n) data @ stream_rest source s'
               \<and> stream_ByteCount s'' = stream_ByteCount s' - int n)"
    using assms unfolding next_kept_def by blast
  show thesis
  proof (cases d)
    case None
    then show ?thesis using none d cases by simp
  next
    case (Some data)
    have "\<exists>b. \<forall>n. n \<le> length data \<longrightarrow> stream_BackUp (int n) s' = Ok (b n) \<and> stream_ok read ok (b n)
        \<and> stream_rest source (b n) = drop (length data - n) data @ stream_rest source s' \<and> stream_ByteCount (b n) = stream_ByteCount s' - int n"
      by (rule choice) (use cases Some in auto)
    then show ?thesis using some d cases Some by auto
  qed
qed

lemma next_kept_same:
  "next_kept read ok source t \<Longrightarrow> stream_Next read s = stream_Next read t \<Longrightarrow> stream_rest source s = stream_rest source t \<Longrightarrow>
   stream_ByteCount s = stream_ByteCount t \<Longrightarrow> next_kept read ok source s"
  by (simp add: next_kept_def cong: option.case_cong)

context copying_source begin

lemma array_next: 
  assumes "0 \<le> array_position s" "array_position s \<le> int (length (array_data s))" "array_data s = [] \<or> 0 < array_block_size s"
  shows "next_kept read ok rest (ArrayInput s)"
proof (cases "array_position s < int (length (array_data s))")
  case True
  define p xs m where "p = nat (array_position s)" and "xs = drop p (array_data s)"
    and "m = nat (min (array_block_size s) (int (length (array_data s)) - array_position s))"
  have p: "array_position s = int p" "p \<le> length (array_data s)" using assms by (auto simp: p_def)
  have m: "0 < m" "m \<le> length xs" "min (array_block_size s) (int (length (array_data s)) - array_position s) = int m"
    using True assms by (auto simp: m_def xs_def p)
  define s' where "s' = s\<lparr>array_last_returned_size := int m, array_position := int p + int m\<rparr>"
  have lm: "length (take m xs) = m" using m(2) by simp
  have split: "drop p (array_data s) = take m xs @ drop (p + m) (array_data s)"
    by (simp add: xs_def add.commute flip: drop_drop)
  have putback: "drop (p + (m - n)) (array_data s) = drop (m - n) (take m xs) @ drop (p + m) (array_data s)" if "n \<le> m" for n
    using drop_end [OF that m(2)] by (simp add: xs_def add.commute)
  have "m \<le> length (array_data s) - p" using m(2) by (simp add: xs_def)
  then have le: "p + m \<le> length (array_data s)" using p(2) by simp
  have block: "0 < array_block_size s" using assms(3) True p by auto
  show ?thesis
  proof (rule next_kept_someI)
    show "stream_Next read (ArrayInput s) = Ok (Some (take m xs), ArrayInput s')"
      using True m(3) by (simp add: ArrayInputStream_Next_def Let_def s'_def xs_def p)
    show "take m xs \<noteq> []" using m by auto
    show "stream_ok read ok (ArrayInput s')" by (rule stream_ok.array) (use le block in \<open>simp_all add: s'_def\<close>)
    show "stream_rest rest (ArrayInput s) = take m xs @ stream_rest rest (ArrayInput s')"
      using split by (simp add: s'_def p nat_add_distrib)
    show "stream_ByteCount (ArrayInput s') = stream_ByteCount (ArrayInput s) + int (length (take m xs))"
      unfolding lm by (simp add: s'_def p ArrayInputStream_ByteCount_def)
    fix n
    assume "n \<le> length (take m xs)"
    then have n: "n \<le> m" unfolding lm .
    let ?b = "ArrayInput (s'\<lparr>array_position := int (p + (m - n)), array_last_returned_size := 0\<rparr>)"
    show "stream_BackUp (int n) (ArrayInput s') = Ok ?b" using n m by (simp add: ArrayInputStream_BackUp_def s'_def of_nat_diff)
    show "stream_ok read ok ?b" by (rule stream_ok.array) (use le block n in \<open>simp_all add: s'_def\<close>)
    show "stream_rest rest ?b = drop (length (take m xs) - n) (take m xs) @ stream_rest rest (ArrayInput s')"
      unfolding lm using putback [OF n] by (simp add: s'_def nat_add_distrib)
    show "stream_ByteCount ?b = stream_ByteCount (ArrayInput s') - int n"
      using n by (simp add: s'_def ArrayInputStream_ByteCount_def of_nat_diff)
  qed
next
  case False
  then show ?thesis using assms by (auto simp: next_kept_def ArrayInputStream_Next_def Let_def ArrayInputStream_ByteCount_def intro!: stream_ok.array)
qed

lemma array_skip: 
  assumes "0 \<le> array_position s" "array_position s \<le> int (length (array_data s))" "array_data s = [] \<or> 0 < array_block_size s"
  shows "skip_kept read ok rest skip (ArrayInput s)"
proof -
  obtain p where p: "array_position s = int p" using zero_le_imp_eq_int [OF assms(1)] by blast
  then have le: "p \<le> length (array_data s)" using assms(2) by simp
  show ?thesis
    unfolding skip_kept_def
  proof
    fix n
    show "\<exists>b s'. stream_Skip skip (int n) (ArrayInput s) = Ok (b, s') \<and> stream_ok read ok s'
     \<and> stream_rest rest s' = drop n (stream_rest rest (ArrayInput s))
     \<and> stream_ByteCount s' = stream_ByteCount (ArrayInput s) + int (min n (length (stream_rest rest (ArrayInput s))))
     \<and> (b \<longrightarrow> n \<le> length (stream_rest rest (ArrayInput s)))
     \<and> (\<not> b \<longrightarrow> stream_rest rest s' = [] \<and> (n = 0 \<or> length (stream_rest rest (ArrayInput s)) < n))"
    proof (cases "n \<le> length (array_data s) - p")
      case True
      then have "stream_Skip skip (int n) (ArrayInput s)
          = Ok (True, ArrayInput (s\<lparr>array_last_returned_size := 0, array_position := int (p + n)\<rparr>))"
        using p le by (simp add: ArrayInputStream_Skip_def Let_def)
      then show ?thesis using p le True assms(3)
        by (intro exI conjI) (auto simp: ArrayInputStream_ByteCount_def add.commute nat_add_distrib intro!: stream_ok.array)
    next
      case False
      then have "stream_Skip skip (int n) (ArrayInput s)
          = Ok (False, ArrayInput (s\<lparr>array_last_returned_size := 0, array_position := int (length (array_data s))\<rparr>))"
        using p le by (simp add: ArrayInputStream_Skip_def Let_def)
      then show ?thesis using p le False assms(3)
        by (intro exI conjI) (auto simp: ArrayInputStream_ByteCount_def intro!: stream_ok.array)
    qed
  qed
qed

lemma copying_next:
  assumes "\<not> copying_failed s" "ok (copying_stream s)" "0 < copying_buffer_size s" "0 \<le> copying_backup_bytes s" "copying_backup_bytes s \<le> buffer_used s"
  shows "next_kept read ok rest (CopyingInput s)"
proof (cases "0 < copying_backup_bytes s")
  case True
  obtain k where k: "copying_backup_bytes s = int k" "0 < k" using pos_int_cases [OF True] by blast
  then obtain b where b: "copying_buffer s = Some b" "copying_backup_bytes s = int k" "0 < k" "k \<le> length b"
    using assms(5) by (cases "copying_buffer s") (auto simp: buffer_used_def)
  define s' where "s' = s\<lparr>copying_backup_bytes := 0\<rparr>"
  have d: "nat (int (length b) - int n) = length b - n" if "n \<le> length b" for n using that by simp
  have "stream_Next read (CopyingInput s) = Ok (Some (drop (length b - k) b), CopyingInput s')"
    using assms(1) b by (simp add: CopyingInput_Next_def AllocateBufferIfNeeded_def buffer_used_def s'_def d)
  moreover have "stream_BackUp (int n) (CopyingInput s') = Ok (CopyingInput (s'\<lparr>copying_backup_bytes := int n\<rparr>))" if "n \<le> k" for n
    using that b by (simp add: CopyingInput_BackUp_def s'_def buffer_used_def)
  ultimately show ?thesis
    using assms b by (force simp: next_kept_def s'_def CopyingInput_ByteCount_def buffer_used_def d intro!: stream_ok.copying)
next
  case False
  then have putback: "copying_backup_bytes s = 0" using assms(4) by simp
  define s1 where "s1 = AllocateBufferIfNeeded s"
  have s1: "copying_stream s1 = copying_stream s" "copying_buffer_size s1 = copying_buffer_size s" "copying_backup_bytes s1 = 0"
    "copying_position s1 = copying_position s" "\<not> copying_failed s1"
    using putback assms(1) by (simp_all add: s1_def AllocateBufferIfNeeded_def)
  have r0: "stream_rest rest (CopyingInput s) = rest (copying_stream s)" using putback by (simp split: option.splits)
  obtain bytes c where r: "read (copying_buffer_size s) (copying_stream s) = (Some bytes, c)" "ok c"
    "rest (copying_stream s) = bytes @ rest c" "bytes = [] \<longrightarrow> rest (copying_stream s) = []"
    using read_ok [OF assms(2,3)] by blast
  show ?thesis
  proof (cases "bytes = []")
    case True
    have "stream_Next read (CopyingInput s) = Ok (None, CopyingInput (s1\<lparr>copying_stream := c, copying_buffer := None\<rparr>))"
      using assms(1) r s1 True by (simp add: CopyingInput_Next_def s1_def [symmetric] FreeBuffer_def)
    then show ?thesis
      using r r0 s1 True putback assms(3) by (force simp: next_kept_def CopyingInput_ByteCount_def buffer_used_def intro!: stream_ok.copying)
  next
    case False
    define s' where "s' = s1\<lparr>copying_stream := c, copying_buffer := Some bytes, copying_position := copying_position s + int (length bytes)\<rparr>"
    have "stream_Next read (CopyingInput s) = Ok (Some bytes, CopyingInput s')"
      using assms(1) r s1 False by (simp add: CopyingInput_Next_def s1_def [symmetric] s'_def)
    moreover have "stream_BackUp (int n) (CopyingInput s') = Ok (CopyingInput (s'\<lparr>copying_backup_bytes := int n\<rparr>))" if "n \<le> length bytes" for n
      using that s1 by (simp add: CopyingInput_BackUp_def s'_def buffer_used_def)
    moreover have "nat (int (length bytes) - int n) = length bytes - n" if "n \<le> length bytes" for n using that by simp
    ultimately show ?thesis
      using False r r0 s1 putback assms(3) by (force simp: next_kept_def s'_def CopyingInput_ByteCount_def buffer_used_def intro!: stream_ok.copying)
  qed
qed

lemma copying_skip:
  assumes "\<not> copying_failed s" "ok (copying_stream s)" "0 < copying_buffer_size s" "0 \<le> copying_backup_bytes s" "copying_backup_bytes s \<le> buffer_used s"
  shows "skip_kept read ok rest skip (CopyingInput s)"
  unfolding skip_kept_def
proof
  fix n
  obtain k where k: "copying_backup_bytes s = int k" using zero_le_imp_eq_int [OF assms(4)] by blast
  define bs where "bs = (case copying_buffer s of None \<Rightarrow> [] | Some b \<Rightarrow> drop (nat (int (length b) - copying_backup_bytes s)) b)"
  have bs: "length bs = k" "stream_rest rest (CopyingInput s) = bs @ rest (copying_stream s)"
    using assms(5) k by (auto simp: bs_def buffer_used_def split: option.splits)
  show "\<exists>b s'. stream_Skip skip (int n) (CopyingInput s) = Ok (b, s') \<and> stream_ok read ok s'
     \<and> stream_rest rest s' = drop n (stream_rest rest (CopyingInput s))
     \<and> stream_ByteCount s' = stream_ByteCount (CopyingInput s) + int (min n (length (stream_rest rest (CopyingInput s))))
     \<and> (b \<longrightarrow> n \<le> length (stream_rest rest (CopyingInput s)))
     \<and> (\<not> b \<longrightarrow> stream_rest rest s' = [] \<and> (n = 0 \<or> length (stream_rest rest (CopyingInput s)) < n))"
  proof (cases "n \<le> k")
    case True
    let ?s = "s\<lparr>copying_backup_bytes := int k - int n\<rparr>"
    have "stream_Skip skip (int n) (CopyingInput s) = Ok (True, CopyingInput ?s)"
      using assms(1) k True by (simp add: CopyingInput_Skip_def)
    moreover have "stream_rest rest (CopyingInput ?s) = drop n (bs @ rest (copying_stream s))"
    proof (cases "copying_buffer s")
      case (Some b)
      then have "k \<le> length b" using assms(5) k by (simp add: buffer_used_def)
      then have e: "nat (int (length b) - (int k - int n)) = n + (length b - k)" "nat (int (length b) - int k) = length b - k" using True by simp_all
      have "bs = drop (length b - k) b" using Some by (simp add: bs_def k e)
      then show ?thesis using True bs(1) by (simp add: Some e)
    next
      case None
      then have "bs = []" by (simp add: bs_def)
      then show ?thesis using True bs(1) None by simp
    qed
    moreover have "stream_ok read ok (CopyingInput ?s)"
      by (rule stream_ok.copying) (use assms k True in \<open>simp_all add: buffer_used_def\<close>)
    ultimately show ?thesis
      using True bs by (intro exI [of _ True] exI [of _ "CopyingInput ?s"] conjI) (auto simp: CopyingInput_ByteCount_def k)
  next
    case False
    then obtain j where j: "n = k + j" "0 < j" using less_imp_add_positive [of k n] by (auto simp: not_le)
    define m where "m = min j (length (rest (copying_stream s)))"
    obtain c' where c': "skip (int j) (copying_stream s) = (int m, c')" "ok c'" "rest c' = drop j (rest (copying_stream s))"
      using skip_ok [OF assms(2), of j] by (auto simp: m_def)
    let ?s = "s\<lparr>copying_backup_bytes := 0, copying_stream := c', copying_position := copying_position s + int m\<rparr>"
    show ?thesis
    proof (intro exI conjI)
      show "stream_Skip skip (int n) (CopyingInput s) = Ok (m = j, CopyingInput ?s)"
        using assms(1) k j c'(1) by (simp add: CopyingInput_Skip_def Let_def)
      show "stream_ok read ok (CopyingInput ?s)"
        by (rule stream_ok.copying) (use assms c'(2) k in \<open>simp_all add: buffer_used_def split: option.splits\<close>)
      have r: "stream_rest rest (CopyingInput ?s) = drop j (rest (copying_stream s))"
        using c'(3) by (simp split: option.splits)
      then show "stream_rest rest (CopyingInput ?s) = drop n (stream_rest rest (CopyingInput s))"
        unfolding bs(2) using bs(1) j by simp
      show "stream_ByteCount (CopyingInput ?s)
          = stream_ByteCount (CopyingInput s) + int (min n (length (stream_rest rest (CopyingInput s))))"
        unfolding bs(2) using bs(1) j by (simp add: CopyingInput_ByteCount_def k m_def)
      show "m = j \<longrightarrow> n \<le> length (stream_rest rest (CopyingInput s))"
        unfolding bs(2) using bs(1) j by (auto simp: m_def)
      have "length (rest (copying_stream s)) < j" if "m \<noteq> j" using that by (auto simp: m_def)
      then show "m \<noteq> j \<longrightarrow> stream_rest rest (CopyingInput ?s) = [] \<and> (n = 0 \<or> length (stream_rest rest (CopyingInput s)) < n)"
        unfolding bs(2) r using bs(1) j by auto
    qed
  qed
qed

lemma limiting_next:
  assumes "stream_ok read ok s" and "next_kept read ok rest s" and "0 \<le> limit"
  shows "next_kept read ok rest (LimitingInput s limit prior)"
proof (cases "limit = 0")
  case True
  then show ?thesis
    using assms by (intro next_kept_noneI [where s' = "LimitingInput s limit prior"]) (auto simp: Limiting_Next_def intro!: stream_ok.limiting)
next
  case False
  then obtain l where l: "limit = int l" "0 < l" using assms(3) pos_int_cases [of limit] by auto
  from assms(2) show ?thesis
  proof (cases rule: next_kept_cases)
    case (none s')
    then show ?thesis
      using l by (intro next_kept_noneI [where s' = "LimitingInput s' limit prior"])
        (auto simp: Limiting_Next_def Limiting_ByteCount_def intro!: stream_ok.limiting)
  next
    case (some data s' b)
    show ?thesis
    proof (cases "length data \<le> l")
      case True
      then obtain k where k: "l = length data + k" using le_Suc_ex by blast
      show ?thesis
        using some l k \<open>limit \<noteq> 0\<close>
        by (intro next_kept_someI [where data = data and s' = "LimitingInput s' (int k) prior"
              and b = "\<lambda>n. LimitingInput (b n) (int k + int n) prior"])
          (auto simp: Limiting_Next_def Limiting_BackUp_def Limiting_ByteCount_def Let_def nat_int_add intro!: stream_ok.limiting)
    next
      case False
      define r where "r = length data - l"
      have r: "0 < r" "int l - int (length data) = - int r" "length data = l + r" using False by (simp_all add: r_def)
      have "stream_ok read ok (LimitingInput s' (- int r) prior)"
      proof (rule stream_ok.overshot [OF assms(1)])
        show "stream_Next read s = Ok (Some data, s')" by (rule some(1))
        show "- int r < 0" "- (- int r) < int (length data)" using r(1,3) l(2) by linarith+
      qed
      moreover have "stream_BackUp (int n) (LimitingInput s' (- int r) prior) = Ok (LimitingInput (b (n + r)) (int n) prior)" if "n \<le> l" for n
        using some(6) [rule_format, of "n + r"] r that by (simp add: Limiting_BackUp_def)
      moreover have "take n (drop (l - n) data @ xs) = drop (l - n) (take l data)" if "n \<le> l" for n xs
        using that r by (simp add: drop_take)
      ultimately show ?thesis
        using some(1-5) some(6) [rule_format] l r
        by (intro next_kept_someI [where data = "take l data" and s' = "LimitingInput s' (- int r) prior"
              and b = "\<lambda>n. LimitingInput (b (n + r)) (int n) prior"])
          (auto simp: Limiting_Next_def Limiting_ByteCount_def Let_def intro!: stream_ok.limiting)
    qed
  qed
qed

lemma limiting_skip:
  assumes "skip_kept read ok rest skip s" and "0 \<le> limit"
  shows "skip_kept read ok rest skip (LimitingInput s limit prior)"
  unfolding skip_kept_def
proof
  fix n
  obtain l where l: "limit = int l" using zero_le_imp_eq_int [OF assms(2)] by blast
  obtain b s' where inner: "stream_Skip skip (int (min n l)) s = Ok (b, s')" "stream_ok read ok s'"
    "stream_rest rest s' = drop (min n l) (stream_rest rest s)"
    "stream_ByteCount s' = stream_ByteCount s + int (min (min n l) (length (stream_rest rest s)))"
    "b \<longrightarrow> min n l \<le> length (stream_rest rest s)"
    "\<not> b \<longrightarrow> stream_rest rest s' = [] \<and> (min n l = 0 \<or> length (stream_rest rest s) < min n l)"
    using assms(1) unfolding skip_kept_def by blast
  show "\<exists>b s'. stream_Skip skip (int n) (LimitingInput s limit prior) = Ok (b, s') \<and> stream_ok read ok s'
     \<and> stream_rest rest s' = drop n (stream_rest rest (LimitingInput s limit prior))
     \<and> stream_ByteCount s' = stream_ByteCount (LimitingInput s limit prior) + int (min n (length (stream_rest rest (LimitingInput s limit prior))))
     \<and> (b \<longrightarrow> n \<le> length (stream_rest rest (LimitingInput s limit prior)))
     \<and> (\<not> b \<longrightarrow> stream_rest rest s' = [] \<and> (n = 0 \<or> length (stream_rest rest (LimitingInput s limit prior)) < n))"
  proof (cases "n \<le> l")
    case True
    then obtain j where j: "l = n + j" using le_Suc_ex by blast
    have "stream_Skip skip (int n) (LimitingInput s limit prior) = Ok (b, LimitingInput s' (if b then int j else limit) prior)"
      using inner(1) l j by (simp add: Limiting_Skip_def)
    moreover have "stream_ok read ok (LimitingInput s' (if b then int j else limit) prior)"
      using inner(2) l by (intro stream_ok.limiting) simp_all
    ultimately show ?thesis
      using inner(3-6) l j by (intro exI [of _ b] exI [of _ "LimitingInput s' (if b then int j else limit) prior"])
        (auto simp: Limiting_ByteCount_def nat_int_add drop_take)
  next
    case False
    have "stream_Skip skip (int n) (LimitingInput s limit prior) = Ok (False, LimitingInput s' 0 prior)"
      using inner(1) l False by (simp add: Limiting_Skip_def min_def)
    moreover have "stream_ok read ok (LimitingInput s' 0 prior)"
      using inner(2) by (intro stream_ok.limiting) simp_all
    ultimately show ?thesis
      using inner(3-6) l False by (intro exI [of _ False] exI [of _ "LimitingInput s' 0 prior"])
        (auto simp: Limiting_ByteCount_def min_def)
  qed
qed

lemma overshot_kept:
  assumes "stream_ok read ok (LimitingInput s limit prior)" and "limit < 0"
  shows "next_kept read ok rest (LimitingInput s limit prior)" "skip_kept read ok rest skip (LimitingInput s limit prior)"
proof -
  show "next_kept read ok rest (LimitingInput s limit prior)"
    using assms by (intro next_kept_noneI [where s' = "LimitingInput s limit prior"]) (auto simp: Limiting_Next_def)
  show "skip_kept read ok rest skip (LimitingInput s limit prior)"
    using assms unfolding skip_kept_def
    by (intro allI exI [of _ False] exI [of _ "LimitingInput s limit prior"]) (auto simp: Limiting_Skip_def)
qed

lemma concatenating_next:
  assumes "\<forall>s \<in> set ss. stream_ok read ok s \<and> next_kept read ok rest s" and "\<forall>s \<in> set (tl ss). stream_ByteCount s = 0"
  shows "next_kept read ok rest (ConcatenatingInput ss retired)"
  using assms
proof (induction ss arbitrary: retired)
  case Nil
  then show ?case by (intro next_kept_noneI [where s' = "ConcatenatingInput [] retired"])
      (auto simp: Concatenating_ByteCount_def intro!: stream_ok.concatenating)
next
  case (Cons s ss)
  have fresh: "\<forall>s \<in> set (tl ss). stream_ByteCount s = 0" using Cons.prems(2) by (cases ss) simp_all
  have ss: "next_kept read ok rest (ConcatenatingInput ss r)" for r
    by (rule Cons.IH) (use Cons.prems(1) fresh in simp_all)
  have later: "Concatenating_ByteCount stream_ByteCount ss r = r" for r
    using Cons.prems(2) by (cases ss) (simp_all add: Concatenating_ByteCount_def)
  have "next_kept read ok rest s" using Cons.prems by simp
  then show ?case
  proof (cases rule: next_kept_cases)
    case (none s')
    show ?thesis
      by (rule next_kept_same [OF ss [of "retired + stream_ByteCount s'"]])
        (use none later in \<open>simp_all add: Concatenating_ByteCount_def [of _ "s # ss"]\<close>)
  next
    case (some data s' b)
    then show ?thesis
      using Cons.prems by (intro next_kept_someI [where data = data and s' = "ConcatenatingInput (s' # ss) retired"
            and b = "\<lambda>n. ConcatenatingInput (b n # ss) retired"])
        (auto simp: Concatenating_ByteCount_def Concatenating_BackUp_def intro!: stream_ok.concatenating)
  qed
qed

lemma concatenating_skip:
  assumes "\<forall>s \<in> set ss. stream_ok read ok s \<and> skip_kept read ok rest skip s" and "\<forall>s \<in> set (tl ss). stream_ByteCount s = 0"
  shows "skip_kept read ok rest skip (ConcatenatingInput ss retired)"
  using assms
proof (induction ss arbitrary: retired)
  case Nil
  then show ?case unfolding skip_kept_def
    by (intro allI exI [of _ False] exI [of _ "ConcatenatingInput [] retired"])
      (auto simp: Concatenating_ByteCount_def intro!: stream_ok.concatenating)
next
  case (Cons s ss)
  have fresh: "\<forall>s \<in> set (tl ss). stream_ByteCount s = 0" using Cons.prems(2) by (cases ss) simp_all
  have later: "Concatenating_ByteCount stream_ByteCount ss r = r" for r
    using Cons.prems(2) by (cases ss) (simp_all add: Concatenating_ByteCount_def)
  show ?case
    unfolding skip_kept_def
  proof
    fix n
    let ?c = "ConcatenatingInput (s # ss) retired"
    have "skip_kept read ok rest skip s" using Cons.prems(1) by simp
    then obtain b s' where inner: "stream_Skip skip (int n) s = Ok (b, s')" "stream_ok read ok s'"
      "stream_rest rest s' = drop n (stream_rest rest s)"
      "stream_ByteCount s' = stream_ByteCount s + int (min n (length (stream_rest rest s)))"
      "b \<longrightarrow> n \<le> length (stream_rest rest s)"
      "\<not> b \<longrightarrow> stream_rest rest s' = [] \<and> (n = 0 \<or> length (stream_rest rest s) < n)"
      unfolding skip_kept_def by blast
    show "\<exists>b s'. stream_Skip skip (int n) ?c = Ok (b, s') \<and> stream_ok read ok s'
       \<and> stream_rest rest s' = drop n (stream_rest rest ?c)
       \<and> stream_ByteCount s' = stream_ByteCount ?c + int (min n (length (stream_rest rest ?c)))
       \<and> (b \<longrightarrow> n \<le> length (stream_rest rest ?c))
       \<and> (\<not> b \<longrightarrow> stream_rest rest s' = [] \<and> (n = 0 \<or> length (stream_rest rest ?c) < n))"
    proof (cases b)
      case True
      then have "stream_Skip skip (int n) ?c = Ok (True, ConcatenatingInput (s' # ss) retired)" using inner(1) by simp
      moreover have "stream_ok read ok (ConcatenatingInput (s' # ss) retired)"
        using Cons.prems inner(2) by (intro stream_ok.concatenating) auto
      ultimately show ?thesis
        using inner True by (intro exI [of _ True] exI [of _ "ConcatenatingInput (s' # ss) retired"])
          (auto simp: Concatenating_ByteCount_def)
    next
      case False
      define k where "k = length (stream_rest rest s)"
      have "k \<le> n" using inner(3,6) False by (simp add: k_def)
      then obtain j where j: "n = k + j" using le_Suc_ex by blast
      have b: "stream_ByteCount s' = stream_ByteCount s + int k" using inner(4) j by (simp add: k_def)
      have skip_eq: "stream_Skip skip (int n) ?c = stream_Skip skip (int j) (ConcatenatingInput ss (retired + stream_ByteCount s'))"
        using inner(1) False j by (simp add: Let_def b)
      have "skip_kept read ok rest skip (ConcatenatingInput ss (retired + stream_ByteCount s'))"
        by (rule Cons.IH) (use Cons.prems(1) fresh in simp_all)
      then obtain b2 c where rec: "stream_Skip skip (int j) (ConcatenatingInput ss (retired + stream_ByteCount s')) = Ok (b2, c)"
        "stream_ok read ok c" "stream_rest rest c = drop j (concat (map (stream_rest rest) ss))"
        "stream_ByteCount c = retired + stream_ByteCount s' + int (min j (length (concat (map (stream_rest rest) ss))))"
        "b2 \<longrightarrow> j \<le> length (concat (map (stream_rest rest) ss))"
        "\<not> b2 \<longrightarrow> stream_rest rest c = [] \<and> (j = 0 \<or> length (concat (map (stream_rest rest) ss)) < j)"
        unfolding skip_kept_def stream_rest.simps stream_ByteCount.simps later by blast
      have r: "stream_rest rest ?c = stream_rest rest s @ concat (map (stream_rest rest) ss)" by simp
      show ?thesis
      proof (intro exI conjI)
        show "stream_Skip skip (int n) ?c = Ok (b2, c)" using skip_eq rec(1) by simp
        show "stream_ok read ok c" by (rule rec(2))
        show "stream_rest rest c = drop n (stream_rest rest ?c)" unfolding r rec(3) using j by (simp add: k_def)
        show "stream_ByteCount c = stream_ByteCount ?c + int (min n (length (stream_rest rest ?c)))"
          unfolding r rec(4) b using j by (simp add: k_def Concatenating_ByteCount_def)
        show "b2 \<longrightarrow> n \<le> length (stream_rest rest ?c)" unfolding r using rec(5) j by (simp add: k_def)
        show "\<not> b2 \<longrightarrow> stream_rest rest c = [] \<and> (n = 0 \<or> length (stream_rest rest ?c) < n)"
          unfolding r using rec(6) inner(6) False j by (auto simp: k_def)
      qed
    qed
  qed
qed

lemma stream_kept: "stream_ok read ok s \<Longrightarrow> next_kept read ok rest s \<and> skip_kept read ok rest skip s"
proof (induction rule: stream_ok.induct)
  case (array s)
  then show ?case using array_next array_skip by blast
next
  case (copying s)
  then show ?case using copying_next copying_skip by blast
next
  case (limiting s limit prior)
  then show ?case using limiting_next limiting_skip by blast
next
  case (overshot s0 data s limit prior)
  then show ?case using overshot_kept stream_ok.overshot by blast
next
  case (concatenating ss retired)
  then show ?case using concatenating_next concatenating_skip by blast
qed

end

sublocale copying_source \<subseteq> streams: zero_copy_input "stream_Next read" stream_BackUp "stream_Skip skip" stream_ByteCount
    "stream_rest rest" "stream_ok read ok"
proof
  fix s s' data n
  assume s: "stream_ok read ok s"
  note kept = stream_kept [OF s]
  show "\<exists>data s'. stream_Next read s = Ok (data, s') \<and> stream_ok read ok s'"
    using kept unfolding next_kept_def by blast
  show "stream_rest rest s = [] \<and> stream_rest rest s' = [] \<and> stream_ByteCount s' = stream_ByteCount s"
    if "stream_Next read s = Ok (None, s')"
    using kept that unfolding next_kept_def by auto
  show "data \<noteq> [] \<and> stream_rest rest s = data @ stream_rest rest s' \<and> stream_ByteCount s' = stream_ByteCount s + int (length data)"
    if "stream_Next read s = Ok (Some data, s')"
    using kept that unfolding next_kept_def by auto
  show "\<exists>s''. stream_BackUp (int n) s' = Ok s'' \<and> stream_ok read ok s''
      \<and> stream_rest rest s'' = drop (length data - n) data @ stream_rest rest s' \<and> stream_ByteCount s'' = stream_ByteCount s' - int n"
    if "stream_Next read s = Ok (Some data, s')" "n \<le> length data"
    using kept that unfolding next_kept_def by auto
  show "\<exists>b s'. stream_Skip skip (int n) s = Ok (b, s') \<and> stream_ok read ok s' \<and> stream_rest rest s' = drop n (stream_rest rest s)
      \<and> stream_ByteCount s' = stream_ByteCount s + int (min n (length (stream_rest rest s)))
      \<and> (b \<longrightarrow> n \<le> length (stream_rest rest s))
      \<and> (\<not> b \<longrightarrow> stream_rest rest s' = [] \<and> (n = 0 \<or> length (stream_rest rest s) < n))"
    using kept unfolding skip_kept_def by blast
qed

section \<open>Reading a stream to its end\<close>

text \<open>The loop of the example in \<^verbatim>\<open>zero_copy_stream.h\<close>: \<^verbatim>\<open>while (input->Next(&buffer, &size))\<close>, collecting the chunks.\<close>

partial_function (option) drain :: "'s next_call \<Rightarrow> 's \<Rightarrow> byte list \<Rightarrow> (byte list \<times> 's) pres option" where
  "drain next_chunk s bytes =
     (case next_chunk s of
        Ok (data, s') \<Rightarrow> (case data of None \<Rightarrow> Some (Ok (bytes, s')) | Some d \<Rightarrow> drain next_chunk s' (bytes @ d))
      | Null \<Rightarrow> Some Null | OOB \<Rightarrow> Some OOB | Fatal \<Rightarrow> Some Fatal | NoFuel \<Rightarrow> Some NoFuel)"

lemma drain_none: "next_chunk s = Ok (None, s') \<Longrightarrow> drain next_chunk s bytes = Some (Ok (bytes, s'))"
  by (subst drain.simps) simp

lemma drain_some: "next_chunk s = Ok (Some d, s') \<Longrightarrow> drain next_chunk s bytes = drain next_chunk s' (bytes @ d)"
  by (subst drain.simps) simp

context zero_copy_input begin

text \<open>Whatever \<open>Next\<close> keeps for the stream holds at the end.\<close>

lemma drain_keeps:
  assumes "ok s" and "P s" and "\<And>s d s'. ok s \<Longrightarrow> P s \<Longrightarrow> next_chunk s = Ok (d, s') \<Longrightarrow> P s'"
  shows "\<exists>s'. drain next_chunk s bytes = Some (Ok (bytes @ rest s, s')) \<and> ok s' \<and> P s' \<and> rest s' = []
    \<and> byte_count s' = byte_count s + int (length (rest s))"
  using assms(1,2)
proof (induction "length (rest s)" arbitrary: s bytes rule: less_induct)
  case less
  obtain data s' where n: "next_chunk s = Ok (data, s')" "ok s'" using next_ok [OF less.prems(1)] by blast
  have P: "P s'" using assms(3) [OF less.prems n(1)] .
  show ?case
  proof (cases data)
    case None
    then show ?thesis using next_none [OF less.prems(1)] n P drain_none [of next_chunk s s' bytes] by auto
  next
    case (Some d)
    then have d: "d \<noteq> []" "rest s = d @ rest s'" "byte_count s' = byte_count s + int (length d)"
      using next_some [OF less.prems(1)] n(1) by blast+
    then show ?thesis
      using less.hyps [OF _ n(2) P, of "bytes @ d"] drain_some [of next_chunk s d s' bytes] n(1) Some by auto
  qed
qed

end

context copying_source begin

text \<open>What is left of the inner stream once a limiting stream is read to its end and destroyed.\<close>

definition left_over :: "'c input_stream \<Rightarrow> byte list \<Rightarrow> int \<Rightarrow> bool" where
  "left_over t tail count \<longleftrightarrow> (case t of
     LimitingInput s limit prior \<Rightarrow>
       if limit < 0 then \<exists>s'. Limiting_destroy stream_BackUp s limit = Ok s' \<and> stream_ok read ok s' \<and> stream_rest rest s' = tail
           \<and> stream_ByteCount s' = count
       else stream_ok read ok s \<and> drop (nat limit) (stream_rest rest s) = tail
           \<and> stream_ByteCount s + int (length (take (nat limit) (stream_rest rest s))) = count
   | _ \<Rightarrow> False)"

lemma left_over_next:
  assumes "stream_ok read ok t" and "left_over t tail count" and "stream_Next read t = Ok (d, t')"
  shows "left_over t' tail count"
proof -
  obtain s limit prior where t: "t = LimitingInput s limit prior" using assms(2) by (auto simp: left_over_def split: input_stream.splits)
  show ?thesis
  proof (cases "limit \<le> 0")
    case True
    then show ?thesis using assms(2,3) by (simp add: t Limiting_Next_def)
  next
    case False
    then obtain l where l: "limit = int l" "0 < l" using pos_int_cases [of limit] by auto
    have s: "stream_ok read ok s" and tail: "tail = drop l (stream_rest rest s)"
      and count: "count = stream_ByteCount s + int (length (take l (stream_rest rest s)))"
      using assms(2) l by (simp_all add: left_over_def t)
    have "next_kept read ok rest s" using stream_kept [OF s] by simp
    then show ?thesis
    proof (cases rule: next_kept_cases)
      case (none s')
      then show ?thesis using assms(3) l tail count by (auto simp: t Limiting_Next_def left_over_def)
    next
      case (some data s' b)
      show ?thesis
      proof (cases "length data \<le> l")
        case True
        then obtain k where k: "l = length data + k" using le_Suc_ex by blast
        have "t' = LimitingInput s' (int k) prior" using some(1) assms(3) l k by (simp add: t Limiting_Next_def Let_def)
        then show ?thesis using some(2-5) k tail count by (simp add: left_over_def)
      next
        case False
        define r where "r = length data - l"
        have r: "int l - int (length data) = - int r" "length data = l + r" "0 < r" using False by (simp_all add: r_def)
        have t': "t' = LimitingInput s' (- int r) prior" using some(1) assms(3) l r by (simp add: t Limiting_Next_def Let_def)
        have "stream_BackUp (int r) s' = Ok (b r)" "stream_ok read ok (b r)"
          "stream_rest rest (b r) = drop l data @ stream_rest rest s'" "stream_ByteCount (b r) = stream_ByteCount s + int l"
          using some(5,6) r by simp_all
        then show ?thesis using r some(4) tail count by (auto simp: t' left_over_def Limiting_destroy_def)
      qed
    qed
  qed
qed

lemma limited_drain:
  assumes "stream_ok read ok s" and "n \<le> length (stream_rest rest s)"
  shows "\<exists>s' limit s''. drain (stream_Next read) (LimitingInputStream s (int n)) []
      = Some (Ok (take n (stream_rest rest s), LimitingInput s' limit (stream_ByteCount s)))
    \<and> Limiting_destroy stream_BackUp s' limit = Ok s'' \<and> stream_rest rest s'' = drop n (stream_rest rest s)
    \<and> stream_ByteCount s'' = stream_ByteCount s + int n"
proof -
  define t where "t = LimitingInputStream s (int n)"
  define P where "P t \<longleftrightarrow> left_over t (drop n (stream_rest rest s)) (stream_ByteCount s + int n)
    \<and> (\<exists>s' limit. t = LimitingInput s' limit (stream_ByteCount s))" for t
  have t: "stream_ok read ok t" "stream_rest rest t = take n (stream_rest rest s)"
    using assms by (auto simp: t_def LimitingInputStream_def intro!: stream_ok.limiting)
  have "P t" using assms by (simp add: P_def t_def LimitingInputStream_def left_over_def)
  moreover have "P t'" if "stream_ok read ok t" "P t" "stream_Next read t = Ok (d, t')" for t d t'
  proof -
    from that(2) obtain s' limit where "t = LimitingInput s' limit (stream_ByteCount s)" by (auto simp: P_def)
    then have "\<exists>s' limit. t' = LimitingInput s' limit (stream_ByteCount s)"
      using that(3) by (cases "Limiting_Next (stream_Next read) s' limit") auto
    then show ?thesis using left_over_next [OF that(1)] that(2,3) by (auto simp: P_def)
  qed
  ultimately obtain t' where t': "drain (stream_Next read) t [] = Some (Ok (stream_rest rest t, t'))" "P t'" "stream_rest rest t' = []"
    using streams.drain_keeps [of t P "[]"] t(1) by auto
  then obtain s' limit where s': "t' = LimitingInput s' limit (stream_ByteCount s)" by (auto simp: P_def)
  have lo: "left_over t' (drop n (stream_rest rest s)) (stream_ByteCount s + int n)" using t'(2) by (simp add: P_def)
  show ?thesis
  proof (cases "limit < 0")
    case True
    then show ?thesis using lo t'(1) t(2) by (auto simp: left_over_def s' t_def)
  next
    case False
    then have "take (nat limit) (stream_rest rest s') = []" using t'(3) by (simp add: s')
    then have "stream_rest rest s' = drop n (stream_rest rest s)" "stream_ByteCount s' = stream_ByteCount s + int n"
      using lo False by (auto simp: left_over_def s')
    then show ?thesis using t'(1) t(2) False by (auto simp: s' t_def Limiting_destroy_def)
  qed
qed

end

section \<open>Streams over a C++ stream\<close>

text \<open>Both contracts hold for it, through the two sublocales.\<close>

interpretation istream_source: copying_source CopyingIstreamInputStream_Read unread istream_ok "CopyingInputStream_Skip CopyingIstreamInputStream_Read"
  by unfold_locales

abbreviation istream_Next :: "istream input_stream next_call" where
  "istream_Next \<equiv> stream_Next CopyingIstreamInputStream_Read"

abbreviation istream_Skip :: "istream input_stream skip_call" where
  "istream_Skip \<equiv> stream_Skip (CopyingInputStream_Skip CopyingIstreamInputStream_Read)"

abbreviation istream_rest :: "istream input_stream \<Rightarrow> byte list" where
  "istream_rest \<equiv> stream_rest unread"

abbreviation istreams_ok :: "istream input_stream \<Rightarrow> bool" where
  "istreams_ok \<equiv> stream_ok CopyingIstreamInputStream_Read istream_ok"

interpretation istreams: zero_copy_input istream_Next stream_BackUp istream_Skip stream_ByteCount istream_rest istreams_ok
  by unfold_locales

text \<open>What the constructors build.\<close>

lemma constructed:
  "istreams_ok (ArrayInput (ArrayInputStream data n))" "istream_rest (ArrayInput (ArrayInputStream data n)) = data"
  "stream_ByteCount (ArrayInput (ArrayInputStream data n)) = 0"
  "istream_ok c \<Longrightarrow> istreams_ok (IstreamInputStream c n)" "istream_rest (IstreamInputStream c n) = unread c"
  "stream_ByteCount (IstreamInputStream c n) = 0"
  "istreams_ok s \<Longrightarrow> 0 \<le> k \<Longrightarrow> istreams_ok (LimitingInputStream s k)" "istream_rest (LimitingInputStream s k) = take (nat k) (istream_rest s)"
  "0 \<le> k \<Longrightarrow> stream_ByteCount (LimitingInputStream s k) = 0"
  "\<forall>s \<in> set ss. istreams_ok s \<and> stream_ByteCount s = 0 \<Longrightarrow> istreams_ok (ConcatenatingInputStream ss)"
  "istream_rest (ConcatenatingInputStream ss) = concat (map istream_rest ss)"
  "\<forall>s \<in> set ss. stream_ByteCount s = 0 \<Longrightarrow> stream_ByteCount (ConcatenatingInputStream ss) = 0"
proof -
  show "istreams_ok (ArrayInput (ArrayInputStream data n))" by (rule stream_ok.array) (auto simp: ArrayInputStream_def)
  show "istream_ok c \<Longrightarrow> istreams_ok (IstreamInputStream c n)" unfolding IstreamInputStream_def
    by (rule stream_ok.copying) (auto simp: CopyingInputStreamAdaptor_def kDefaultBlockSize_def buffer_used_def)
  show "istreams_ok s \<Longrightarrow> 0 \<le> k \<Longrightarrow> istreams_ok (LimitingInputStream s k)"
    unfolding LimitingInputStream_def by (rule stream_ok.limiting)
  show "\<forall>s \<in> set ss. istreams_ok s \<and> stream_ByteCount s = 0 \<Longrightarrow> istreams_ok (ConcatenatingInputStream ss)"
    unfolding ConcatenatingInputStream_def by (rule stream_ok.concatenating) (cases ss; simp)+
qed (auto simp: ArrayInputStream_def IstreamInputStream_def CopyingInputStreamAdaptor_def ArrayInputStream_ByteCount_def
    CopyingInput_ByteCount_def LimitingInputStream_def Limiting_ByteCount_def ConcatenatingInputStream_def
    Concatenating_ByteCount_def split: list.splits)

definition example_stream :: "istream input_stream" where
  "example_stream = LimitingInputStream (ConcatenatingInputStream
     [ArrayInput (ArrayInputStream [1, 2, 3] 2), IstreamInputStream \<lparr>unread = [4, 5, 6], eofbit = False, failbit = False, badbit = False\<rparr> 4]) 5"

lemma example_stream_ok: "istreams_ok example_stream" "istream_rest example_stream = [1, 2, 3, 4, 5]" "stream_ByteCount example_stream = 0"
proof -
  have "istream_ok \<lparr>unread = [4, 5, 6], eofbit = False, failbit = False, badbit = False\<rparr>" by (simp add: istream_ok_def)
  then show "istreams_ok example_stream" unfolding example_stream_def
    by (intro constructed(7,10)) (auto simp: constructed simp del: stream_ByteCount.simps)
qed (auto simp: example_stream_def constructed simp del: stream_ByteCount.simps stream_rest.simps)


section \<open>Results\<close>



text \<open>C33: \<^verbatim>\<open>BackUp\<close> undoes the end of \<^verbatim>\<open>Next\<close>: after a chunk of which all but the last \<open>n\<close> bytes were used,
  it leaves the stream as if only those had been read, at whatever level of the stack the chunk came from.\<close>

theorem backup_undoes_next:
  assumes "istreams_ok s" and "istream_Next s = Ok (Some data, s')" and "n \<le> length data"
  shows "\<exists>s''. stream_BackUp (int n) s' = Ok s'' \<and> istreams_ok s'' \<and> istream_rest s = take (length data - n) data @ istream_rest s''
    \<and> stream_ByteCount s'' = stream_ByteCount s + int (length data - n)"
proof -
  obtain s'' where "stream_BackUp (int n) s' = Ok s''" "istreams_ok s''" "istream_rest s'' = drop (length data - n) data @ istream_rest s'"
    "stream_ByteCount s'' = stream_ByteCount s' - int n"
    using istream.defaulted.streams.back_up_next [OF assms] by blast
  then show ?thesis using istream.defaulted.streams.next_some [OF assms(1,2)] assms(3) by (auto simp: of_nat_diff)
qed

theorem backup_undoes_next_witness:
  "\<exists>s' s''. istream_Next example_stream = Ok (Some [1, 2], s') \<and> stream_BackUp 1 s' = Ok s'' \<and> istream_rest s'' = [2, 3, 4, 5]"
proof -
  obtain s' where n: "istream_Next example_stream = Ok (Some [1, 2], s')"
    by (simp add: example_stream_def LimitingInputStream_def ConcatenatingInputStream_def Limiting_Next_def
        ArrayInputStream_def ArrayInputStream_Next_def)
  from backup_undoes_next [OF example_stream_ok(1) n, of 1] n show ?thesis by (auto simp: example_stream_ok(2))
qed

text \<open>\<^verbatim>\<open>Skip\<close> moves as far as reading would, across the borders of the streams below, and says whether there was
  enough; a skip of no bytes may answer either way, but only at the end.\<close>

theorem skip_is_reading:
  "istreams_ok s \<Longrightarrow> \<exists>b s'. istream_Skip (int n) s = Ok (b, s') \<and> istreams_ok s' \<and> istream_rest s' = drop n (istream_rest s)
     \<and> stream_ByteCount s' = stream_ByteCount s + int (min n (length (istream_rest s)))
     \<and> (0 < n \<or> istream_rest s \<noteq> [] \<longrightarrow> b = (n \<le> length (istream_rest s)))"
  using istream.defaulted.streams.skip_ok [of s n] by fastforce

theorem skip_is_reading_witness:
  "\<exists>s'. istream_Skip 4 example_stream = Ok (True, s') \<and> istream_rest s' = [5]"
  using skip_is_reading [OF example_stream_ok(1), of 4] by (auto simp: example_stream_ok(2))

text \<open>C34: a limiting stream takes exactly its share: when it has been read to its end and destroyed, the stream
  below stands right after that many bytes, although it had handed out more.\<close>

theorem limit_leaves_rest:
  assumes "istreams_ok s" and "n \<le> length (istream_rest s)"
  shows "\<exists>s' limit s''. drain istream_Next (LimitingInputStream s (int n)) []
      = Some (Ok (take n (istream_rest s), LimitingInput s' limit (stream_ByteCount s)))
    \<and> Limiting_destroy stream_BackUp s' limit = Ok s'' \<and> istream_rest s'' = drop n (istream_rest s)
    \<and> stream_ByteCount s'' = stream_ByteCount s + int n"
  using assms by (rule istream.defaulted.limited_drain)

theorem limit_leaves_rest_witness:
  "\<exists>s' limit s''. drain istream_Next (LimitingInputStream example_stream 3) [] = Some (Ok ([1, 2, 3], LimitingInput s' limit 0))
     \<and> Limiting_destroy stream_BackUp s' limit = Ok s'' \<and> istream_rest s'' = [4, 5]"
  using limit_leaves_rest [OF example_stream_ok(1), of 3] by (auto simp: example_stream_ok(2,3))

end
