(* ===== verification/CodedInput.thy ===== *)
theory CodedInput
  imports Streams Readers
begin

text \<open>
  \<^verbatim>\<open>CodedInputStream\<close> (\<^verbatim>\<open>protobuf/io/coded_stream.h\<close>, \<^verbatim>\<open>coded_stream.cc\<close>): varints, fixed-width numbers,
  strings and tags from any input stream, with nested limits. The stream is a parameter, its virtual calls are
  arguments. \<open>ci_buffer\<close> are the bytes between \<^verbatim>\<open>buffer_\<close> and \<^verbatim>\<open>buffer_end_\<close>, \<open>ci_after_limit\<close> the
  \<^verbatim>\<open>buffer_size_after_limit_\<close> bytes behind them. \<open>OOB\<close> is an access outside the buffer or through a null
  stream; \<open>NoFuel\<close> is a loop that does not end. Counts are integers: the code keeps every position below
  \<^verbatim>\<open>INT_MAX\<close>. The second half is the simulation: \<open>coded_at\<close> relates a reader to the flat list of bytes
  not yet read, for any stream that keeps the contract \<open>zero_copy_input\<close>.
\<close>

abbreviation int_max :: int where "int_max \<equiv> 2147483647"

record 's coded_input =
  ci_input :: "'s option"
  ci_buffer :: "byte list"
  ci_after_limit :: "byte list"
  ci_total_bytes_read :: int
  ci_overflow_bytes :: int
  ci_last_tag :: u32
  ci_legitimate_message_end :: bool
  ci_current_limit :: int
  ci_total_bytes_limit :: int
  ci_recursion_budget :: int
  ci_recursion_limit :: int

section \<open>The buffer and its limits\<close>

definition BufferSize :: "'s coded_input \<Rightarrow> int" where
  "BufferSize s = int (length (ci_buffer s))"

definition CurrentPosition :: "'s coded_input \<Rightarrow> int" where
  "CurrentPosition s = ci_total_bytes_read s - (BufferSize s + int (length (ci_after_limit s)))"

definition Advance :: "int \<Rightarrow> 's coded_input \<Rightarrow> 's coded_input" where
  "Advance amount s = s\<lparr>ci_buffer := drop (nat amount) (ci_buffer s)\<rparr>"

definition closest_limit :: "'s coded_input \<Rightarrow> int" where
  "closest_limit s = min (ci_current_limit s) (ci_total_bytes_limit s)"

definition RecomputeBufferLimits :: "'s coded_input \<Rightarrow> 's coded_input pres" where
  "RecomputeBufferLimits s =
     (let buffer = ci_buffer s @ ci_after_limit s
      in if closest_limit s < ci_total_bytes_read s then
           let n = int (length buffer) - (ci_total_bytes_read s - closest_limit s)
           in if n < 0 then OOB
              else Ok (s\<lparr>ci_buffer := take (nat n) buffer, ci_after_limit := drop (nat n) buffer\<rparr>)
         else Ok (s\<lparr>ci_buffer := buffer, ci_after_limit := []\<rparr>))"

definition PushLimit :: "int \<Rightarrow> 's coded_input \<Rightarrow> (int \<times> 's coded_input) pres" where
  "PushLimit byte_limit s =
     (let current_position = CurrentPosition s; old_limit = ci_current_limit s
      in if byte_limit \<ge> 0 \<and> byte_limit \<le> int_max - current_position \<and> byte_limit < ci_current_limit s - current_position then
           pbind (RecomputeBufferLimits (s\<lparr>ci_current_limit := current_position + byte_limit\<rparr>)) (\<lambda>s. Ok (old_limit, s))
         else Ok (old_limit, s))"

definition PopLimit :: "int \<Rightarrow> 's coded_input \<Rightarrow> 's coded_input pres" where
  "PopLimit limit s =
     pbind (RecomputeBufferLimits (s\<lparr>ci_current_limit := limit\<rparr>)) (\<lambda>s. Ok (s\<lparr>ci_legitimate_message_end := False\<rparr>))"

definition IncrementRecursionDepthAndPushLimit :: "int \<Rightarrow> 's coded_input \<Rightarrow> (int \<times> int \<times> 's coded_input) pres" where
  "IncrementRecursionDepthAndPushLimit byte_limit s =
     pbind (PushLimit byte_limit s) (\<lambda>(old_limit, s).
       let s = s\<lparr>ci_recursion_budget := ci_recursion_budget s - 1\<rparr> in Ok (old_limit, ci_recursion_budget s, s))"

definition ConsumedEntireMessage :: "'s coded_input \<Rightarrow> bool" where
  "ConsumedEntireMessage s = ci_legitimate_message_end s"

definition DecrementRecursionDepthAndPopLimit :: "int \<Rightarrow> 's coded_input \<Rightarrow> (bool \<times> 's coded_input) pres" where
  "DecrementRecursionDepthAndPopLimit limit s =
     (let result = ConsumedEntireMessage s
      in pbind (PopLimit limit s) (\<lambda>s. Ok (result, s\<lparr>ci_recursion_budget := ci_recursion_budget s + 1\<rparr>)))"

definition CheckEntireMessageConsumedAndPopLimit :: "int \<Rightarrow> 's coded_input \<Rightarrow> (bool \<times> 's coded_input) pres" where
  "CheckEntireMessageConsumedAndPopLimit limit s =
     (let result = ConsumedEntireMessage s in pbind (PopLimit limit s) (\<lambda>s. Ok (result, s)))"

definition BytesUntilLimit :: "'s coded_input \<Rightarrow> int" where
  "BytesUntilLimit s = (if ci_current_limit s = int_max then -1 else ci_current_limit s - CurrentPosition s)"

definition SetTotalBytesLimit :: "int \<Rightarrow> 's coded_input \<Rightarrow> 's coded_input pres" where
  "SetTotalBytesLimit total_bytes_limit s =
     RecomputeBufferLimits (s\<lparr>ci_total_bytes_limit := max (CurrentPosition s) total_bytes_limit\<rparr>)"

definition BytesUntilTotalBytesLimit :: "'s coded_input \<Rightarrow> int" where
  "BytesUntilTotalBytesLimit s =
     (if ci_total_bytes_limit s = int_max then -1 else ci_total_bytes_limit s - CurrentPosition s)"

definition SetRecursionLimit :: "int \<Rightarrow> 's coded_input \<Rightarrow> 's coded_input" where
  "SetRecursionLimit limit s =
     s\<lparr>ci_recursion_budget := ci_recursion_budget s + (limit - ci_recursion_limit s), ci_recursion_limit := limit\<rparr>"

definition IncrementRecursionDepth :: "'s coded_input \<Rightarrow> bool \<times> 's coded_input" where
  "IncrementRecursionDepth s =
     (let s = s\<lparr>ci_recursion_budget := ci_recursion_budget s - 1\<rparr> in (ci_recursion_budget s \<ge> 0, s))"

definition DecrementRecursionDepth :: "'s coded_input \<Rightarrow> 's coded_input" where
  "DecrementRecursionDepth s =
     (if ci_recursion_budget s < ci_recursion_limit s then s\<lparr>ci_recursion_budget := ci_recursion_budget s + 1\<rparr> else s)"

text \<open>With its assertion.\<close>

definition UnsafeDecrementRecursionDepth :: "'s coded_input \<Rightarrow> 's coded_input pres" where
  "UnsafeDecrementRecursionDepth s =
     (if ci_recursion_budget s < ci_recursion_limit s then Ok (s\<lparr>ci_recursion_budget := ci_recursion_budget s + 1\<rparr>) else Fatal)"

definition IsFlat :: "'s coded_input \<Rightarrow> bool" where "IsFlat s \<longleftrightarrow> ci_input s = None"

section \<open>The next buffer\<close>

partial_function (option) NextNonEmpty :: "'s next_call \<Rightarrow> 's \<Rightarrow> (byte list option \<times> 's) pres option" where
  "NextNonEmpty next_input input =
     (case next_input input of
        Ok (data, input') \<Rightarrow> if data = Some [] then NextNonEmpty next_input input' else Some (Ok (data, input'))
      | Null \<Rightarrow> Some Null | OOB \<Rightarrow> Some OOB | Fatal \<Rightarrow> Some Fatal | NoFuel \<Rightarrow> Some NoFuel)"

definition returns :: "'a pres option \<Rightarrow> 'a pres" where
  "returns r = (case r of None \<Rightarrow> NoFuel | Some x \<Rightarrow> x)"

definition Refresh :: "'s next_call \<Rightarrow> 's coded_input \<Rightarrow> (bool \<times> 's coded_input) pres" where
  "Refresh next_input s =
     (if ci_after_limit s \<noteq> [] \<or> ci_overflow_bytes s > 0 \<or> ci_total_bytes_read s = ci_current_limit s then Ok (False, s)
      else case ci_input s of
        None \<Rightarrow> OOB
      | Some input \<Rightarrow> pbind (returns (NextNonEmpty next_input input)) (\<lambda>(data, input).
          case data of
            None \<Rightarrow> Ok (False, s\<lparr>ci_input := Some input, ci_buffer := []\<rparr>)
          | Some data \<Rightarrow>
              let n = int (length data);
                  s = (if ci_total_bytes_read s \<le> int_max - n then
                         s\<lparr>ci_input := Some input, ci_buffer := data, ci_total_bytes_read := ci_total_bytes_read s + n\<rparr>
                       else
                         let overflow = ci_total_bytes_read s - (int_max - n)
                         in s\<lparr>ci_input := Some input, ci_overflow_bytes := overflow,
                              ci_buffer := take (nat (n - overflow)) data, ci_total_bytes_read := int_max\<rparr>)
              in pbind (RecomputeBufferLimits s) (\<lambda>s. Ok (True, s))))"

definition kDefaultTotalBytesLimit :: int where "kDefaultTotalBytesLimit = int_max"
definition default_recursion_limit :: int where "default_recursion_limit = 100"

definition CodedInputStream :: "'s next_call \<Rightarrow> 's \<Rightarrow> 's coded_input pres" where
  "CodedInputStream next_input input =
     pbind (Refresh next_input
       \<lparr>ci_input = Some input, ci_buffer = [], ci_after_limit = [], ci_total_bytes_read = 0, ci_overflow_bytes = 0,
        ci_last_tag = 0, ci_legitimate_message_end = False, ci_current_limit = int_max,
        ci_total_bytes_limit = kDefaultTotalBytesLimit, ci_recursion_budget = default_recursion_limit,
        ci_recursion_limit = default_recursion_limit\<rparr>) (\<lambda>(_, s). Ok s)"

definition CodedInputStream_array :: "byte list \<Rightarrow> 's coded_input" where
  "CodedInputStream_array buffer =
     \<lparr>ci_input = None, ci_buffer = buffer, ci_after_limit = [], ci_total_bytes_read = int (length buffer), ci_overflow_bytes = 0,
      ci_last_tag = 0, ci_legitimate_message_end = False, ci_current_limit = int (length buffer),
      ci_total_bytes_limit = kDefaultTotalBytesLimit, ci_recursion_budget = default_recursion_limit,
      ci_recursion_limit = default_recursion_limit\<rparr>"

definition BackUpInputToCurrentPosition :: "'s backup_call \<Rightarrow> 's coded_input \<Rightarrow> 's coded_input pres" where
  "BackUpInputToCurrentPosition back_up s =
     (let backup_bytes = BufferSize s + int (length (ci_after_limit s)) + ci_overflow_bytes s
      in if backup_bytes > 0 then
           case ci_input s of
             None \<Rightarrow> OOB
           | Some input \<Rightarrow> pbind (back_up backup_bytes input) (\<lambda>input.
               Ok (s\<lparr>ci_input := Some input,
                     ci_total_bytes_read := ci_total_bytes_read s - (BufferSize s + int (length (ci_after_limit s))),
                     ci_buffer := [], ci_after_limit := [], ci_overflow_bytes := 0\<rparr>))
         else Ok s)"

text \<open>The destructor.\<close>

definition Coded_destroy :: "'s backup_call \<Rightarrow> 's coded_input \<Rightarrow> 's coded_input pres" where
  "Coded_destroy back_up s = (if ci_input s \<noteq> None then BackUpInputToCurrentPosition back_up s else Ok s)"

section \<open>Raw bytes\<close>

definition SkipFallback :: "'s skip_call \<Rightarrow> ('s \<Rightarrow> int) \<Rightarrow> int \<Rightarrow> int \<Rightarrow> 's coded_input \<Rightarrow> (bool \<times> 's coded_input) pres" where
  "SkipFallback skip byte_count count original_buffer_size s =
     (if ci_after_limit s \<noteq> [] then Ok (False, Advance original_buffer_size s)
      else
        let count = count - original_buffer_size; s = s\<lparr>ci_buffer := []\<rparr>;
            bytes_until_limit = closest_limit s - ci_total_bytes_read s
        in if bytes_until_limit < count then
             if bytes_until_limit > 0 then
               let s = s\<lparr>ci_total_bytes_read := closest_limit s\<rparr>
               in case ci_input s of
                    None \<Rightarrow> OOB
                  | Some input \<Rightarrow> pbind (skip bytes_until_limit input) (\<lambda>(_, input). Ok (False, s\<lparr>ci_input := Some input\<rparr>))
             else Ok (False, s)
           else case ci_input s of
             None \<Rightarrow> OOB
           | Some input \<Rightarrow> pbind (skip count input) (\<lambda>(ok, input).
               if \<not> ok then Ok (False, s\<lparr>ci_input := Some input, ci_total_bytes_read := byte_count input\<rparr>)
               else Ok (True, s\<lparr>ci_input := Some input, ci_total_bytes_read := ci_total_bytes_read s + count\<rparr>)))"

definition Coded_Skip :: "'s skip_call \<Rightarrow> ('s \<Rightarrow> int) \<Rightarrow> int \<Rightarrow> 's coded_input \<Rightarrow> (bool \<times> 's coded_input) pres" where
  "Coded_Skip skip byte_count count s =
     (if count < 0 then Ok (False, s)
      else if count \<le> BufferSize s then Ok (True, Advance count s)
      else SkipFallback skip byte_count count (BufferSize s) s)"

definition GetDirectBufferPointer :: "'s next_call \<Rightarrow> 's coded_input \<Rightarrow> (byte list option \<times> 's coded_input) pres" where
  "GetDirectBufferPointer next_input s =
     pbind (if BufferSize s = 0 then Refresh next_input s else Ok (True, s)) (\<lambda>(ok, s).
       Ok (if ok then Some (ci_buffer s) else None, s))"

text \<open>The loop of \<^verbatim>\<open>ReadRaw\<close> and \<^verbatim>\<open>ReadStringFallback\<close>, which differ in where the bytes go.\<close>

partial_function (option) read_loop ::
  "'s next_call \<Rightarrow> int \<Rightarrow> byte list \<Rightarrow> 's coded_input \<Rightarrow> (bool \<times> byte list \<times> 's coded_input) pres option" where
  "read_loop next_input n bytes s =
     (if BufferSize s < n then
        let bytes = bytes @ ci_buffer s; n = n - BufferSize s; s = Advance (BufferSize s) s
        in case Refresh next_input s of
             Ok (ok, s) \<Rightarrow> if ok then read_loop next_input n bytes s else Some (Ok (False, bytes, s))
           | Null \<Rightarrow> Some Null | OOB \<Rightarrow> Some OOB | Fatal \<Rightarrow> Some Fatal | NoFuel \<Rightarrow> Some NoFuel
      else if n < 0 then Some OOB
      else Some (Ok (True, bytes @ take (nat n) (ci_buffer s), Advance n s)))"

definition ReadRaw :: "'s next_call \<Rightarrow> int \<Rightarrow> 's coded_input \<Rightarrow> (bool \<times> byte list \<times> 's coded_input) pres" where
  "ReadRaw next_input n s = returns (read_loop next_input n [] s)"

definition ReadStringFallback :: "'s next_call \<Rightarrow> int \<Rightarrow> 's coded_input \<Rightarrow> (bool \<times> byte list \<times> 's coded_input) pres" where
  "ReadStringFallback next_input n s = returns (read_loop next_input n [] s)"

text \<open>The string is untouched where nothing is read into it.\<close>

definition ReadString :: "'s next_call \<Rightarrow> byte list \<Rightarrow> int \<Rightarrow> 's coded_input \<Rightarrow> (bool \<times> byte list \<times> 's coded_input) pres" where
  "ReadString next_input buffer n s =
     (if n < 0 then Ok (False, buffer, s)
      else if BufferSize s \<ge> n then Ok (True, take (nat n) (ci_buffer s), Advance n s)
      else ReadStringFallback next_input n s)"

definition ReadLittleEndian32Fallback :: "'s next_call \<Rightarrow> 's coded_input \<Rightarrow> (u32 option \<times> 's coded_input) pres" where
  "ReadLittleEndian32Fallback next_input s =
     (if BufferSize s \<ge> 4 then pbind (UnalignedLoad32 (ci_buffer s)) (\<lambda>v. Ok (Some v, Advance 4 s))
      else pbind (ReadRaw next_input 4 s) (\<lambda>(ok, bytes, s).
        if \<not> ok then Ok (None, s) else pbind (UnalignedLoad32 bytes) (\<lambda>v. Ok (Some v, s))))"

definition ReadLittleEndian64Fallback :: "'s next_call \<Rightarrow> 's coded_input \<Rightarrow> (u64 option \<times> 's coded_input) pres" where
  "ReadLittleEndian64Fallback next_input s =
     (if BufferSize s \<ge> 8 then pbind (UnalignedLoad64 (ci_buffer s)) (\<lambda>v. Ok (Some v, Advance 8 s))
      else pbind (ReadRaw next_input 8 s) (\<lambda>(ok, bytes, s).
        if \<not> ok then Ok (None, s) else pbind (UnalignedLoad64 bytes) (\<lambda>v. Ok (Some v, s))))"

definition ReadLittleEndian32 :: "'s next_call \<Rightarrow> 's coded_input \<Rightarrow> (u32 option \<times> 's coded_input) pres" where
  "ReadLittleEndian32 next_input s =
     (if BufferSize s \<ge> 4 then pbind (UnalignedLoad32 (ci_buffer s)) (\<lambda>v. Ok (Some v, Advance 4 s))
      else ReadLittleEndian32Fallback next_input s)"

definition ReadLittleEndian64 :: "'s next_call \<Rightarrow> 's coded_input \<Rightarrow> (u64 option \<times> 's coded_input) pres" where
  "ReadLittleEndian64 next_input s =
     (if BufferSize s \<ge> 8 then pbind (UnalignedLoad64 (ci_buffer s)) (\<lambda>v. Ok (Some v, Advance 8 s))
      else ReadLittleEndian64Fallback next_input s)"

section \<open>Varints\<close>

text \<open>From an array: \<open>None\<close> when the varint is longer than ten bytes; then the bytes read.\<close>

fun varint32_overrun :: "nat \<Rightarrow> byte list \<Rightarrow> nat \<Rightarrow> u32 \<Rightarrow> (u32 option \<times> nat) pres" where
  "varint32_overrun 0 buffer ptr result = Ok (None, ptr)"
| "varint32_overrun (Suc k) buffer ptr result =
     pbind (rd buffer ptr) (\<lambda>b.
       if (ucast b :: u32) AND 0x80 = 0 then Ok (Some result, ptr + 1) else varint32_overrun k buffer (ptr + 1) result)"

fun varint32_steps :: "nat list \<Rightarrow> byte list \<Rightarrow> nat \<Rightarrow> u32 \<Rightarrow> (u32 option \<times> nat) pres" where
  "varint32_steps [] buffer ptr result = varint32_overrun 5 buffer ptr result"
| "varint32_steps (sh # shs) buffer ptr result =
     pbind (rd buffer ptr) (\<lambda>byte.
       let b = (ucast byte :: u32); result = result + push_bit sh b
       in if b AND 0x80 = 0 then Ok (Some result, ptr + 1)
          else varint32_steps shs buffer (ptr + 1) (result - push_bit sh 0x80))"

definition ReadVarint32FromArray :: "u32 \<Rightarrow> byte list \<Rightarrow> (u32 option \<times> nat) pres" where
  "ReadVarint32FromArray first_byte buffer = varint32_steps [7, 14, 21, 28] buffer 1 (first_byte - 0x80)"

fun known_size_loop :: "nat \<Rightarrow> nat \<Rightarrow> byte list \<Rightarrow> u64 \<Rightarrow> u64 pres" where
  "known_size_loop 0 i buffer result = Ok result"
| "known_size_loop (Suc k) i buffer result =
     pbind (rd buffer i) (\<lambda>b. known_size_loop k (i + 1) buffer (result + push_bit (7 * i) (of_int (uint b - 0x80))))"

definition DecodeVarint64KnownSize :: "nat \<Rightarrow> byte list \<Rightarrow> u64 pres" where
  "DecodeVarint64KnownSize N buffer =
     pbind (rd buffer (N - 1)) (\<lambda>b. known_size_loop (N - 1) 0 buffer (push_bit (7 * (N - 1)) (ucast b)))"

text \<open>The chain of tests of the second to the tenth byte.\<close>

function varint64_chain :: "nat \<Rightarrow> byte list \<Rightarrow> (u64 option \<times> nat) pres" where
  "varint64_chain i buffer =
     (if i \<ge> 10 then Ok (None, 11)
      else pbind (rd buffer i) (\<lambda>b.
        if unat b < 128 then pbind (DecodeVarint64KnownSize (i + 1) buffer) (\<lambda>v. Ok (Some v, i + 1))
        else varint64_chain (i + 1) buffer))"
  by pat_completeness auto
termination by (relation "measure (\<lambda>(i, _). 10 - i)") auto

declare varint64_chain.simps [simp del]

definition ReadVarint64FromArray :: "byte list \<Rightarrow> (u64 option \<times> nat) pres" where
  "ReadVarint64FromArray buffer = varint64_chain 1 buffer"

text \<open>The varint cannot run over the end of the buffer.\<close>

definition varint_fits :: "'s coded_input \<Rightarrow> bool" where
  "varint_fits s \<longleftrightarrow> BufferSize s \<ge> 10 \<or> (ci_buffer s \<noteq> [] \<and> last (ci_buffer s) AND 0x80 = 0)"

partial_function (option) fill_buffer :: "'s next_call \<Rightarrow> 's coded_input \<Rightarrow> (bool \<times> 's coded_input) pres option" where
  "fill_buffer next_input s =
     (if ci_buffer s \<noteq> [] then Some (Ok (True, s))
      else case Refresh next_input s of
             Ok (ok, s) \<Rightarrow> if ok then fill_buffer next_input s else Some (Ok (False, s))
           | Null \<Rightarrow> Some Null | OOB \<Rightarrow> Some OOB | Fatal \<Rightarrow> Some Fatal | NoFuel \<Rightarrow> Some NoFuel)"

function varint64_slow_loop :: "'s next_call \<Rightarrow> nat \<Rightarrow> u64 \<Rightarrow> 's coded_input \<Rightarrow> (u64 option \<times> 's coded_input) pres" where
  "varint64_slow_loop next_input count result s =
     (if count \<ge> 10 then Ok (None, s)
      else pbind (returns (fill_buffer next_input s)) (\<lambda>(ok, s).
        if \<not> ok then Ok (None, s)
        else pbind (rd (ci_buffer s) 0) (\<lambda>byte.
          let b = (ucast byte :: u32); result = result OR push_bit (7 * count) (ucast (b AND 0x7F)); s = Advance 1 s
          in if b AND 0x80 \<noteq> 0 then varint64_slow_loop next_input (count + 1) result s else Ok (Some result, s))))"
  by pat_completeness auto
termination by (relation "measure (\<lambda>(_, count, _, _). 10 - count)") auto

declare varint64_slow_loop.simps [simp del]

definition ReadVarint64Slow :: "'s next_call \<Rightarrow> 's coded_input \<Rightarrow> (u64 option \<times> 's coded_input) pres" where
  "ReadVarint64Slow next_input s = varint64_slow_loop next_input 0 0 s"

definition ReadVarint64Fallback :: "'s next_call \<Rightarrow> 's coded_input \<Rightarrow> (u64 option \<times> 's coded_input) pres" where
  "ReadVarint64Fallback next_input s =
     (if varint_fits s then
        pbind (ReadVarint64FromArray (ci_buffer s)) (\<lambda>(v, n).
          case v of None \<Rightarrow> Ok (None, s) | Some v \<Rightarrow> Ok (Some v, Advance (int n) s))
      else ReadVarint64Slow next_input s)"

definition ReadVarint32Slow :: "'s next_call \<Rightarrow> 's coded_input \<Rightarrow> (u32 option \<times> 's coded_input) pres" where
  "ReadVarint32Slow next_input s =
     pbind (ReadVarint64Fallback next_input s) (\<lambda>(v, s). Ok (map_option ucast v, s))"

definition ReadVarint32Fallback :: "'s next_call \<Rightarrow> u32 \<Rightarrow> 's coded_input \<Rightarrow> (u32 option \<times> 's coded_input) pres" where
  "ReadVarint32Fallback next_input first_byte_or_zero s =
     (if varint_fits s then
        pbind (ReadVarint32FromArray first_byte_or_zero (ci_buffer s)) (\<lambda>(v, n).
          case v of None \<Rightarrow> Ok (None, s) | Some v \<Rightarrow> Ok (Some v, Advance (int n) s))
      else ReadVarint32Slow next_input s)"

text \<open>-1 is \<open>None\<close>.\<close>

definition ReadVarintSizeAsIntSlow :: "'s next_call \<Rightarrow> 's coded_input \<Rightarrow> (int option \<times> 's coded_input) pres" where
  "ReadVarintSizeAsIntSlow next_input s =
     pbind (ReadVarint64Fallback next_input s) (\<lambda>(v, s). Ok (case v of None \<Rightarrow> None
       | Some v \<Rightarrow> if unat v > INT_MAX then None else Some (uint v), s))"

definition ReadVarintSizeAsIntFallback :: "'s next_call \<Rightarrow> 's coded_input \<Rightarrow> (int option \<times> 's coded_input) pres" where
  "ReadVarintSizeAsIntFallback next_input s =
     (if varint_fits s then
        pbind (ReadVarint64FromArray (ci_buffer s)) (\<lambda>(v, n).
          case v of None \<Rightarrow> Ok (None, s)
          | Some v \<Rightarrow> if unat v > INT_MAX then Ok (None, s) else Ok (Some (uint v), Advance (int n) s))
      else ReadVarintSizeAsIntSlow next_input s)"

definition ReadVarint32 :: "'s next_call \<Rightarrow> 's coded_input \<Rightarrow> (u32 option \<times> 's coded_input) pres" where
  "ReadVarint32 next_input s =
     (let v = (case ci_buffer s of [] \<Rightarrow> 0 | b # _ \<Rightarrow> ucast b)
      in if ci_buffer s \<noteq> [] \<and> unat v < 0x80 then Ok (Some v, Advance 1 s)
         else ReadVarint32Fallback next_input v s)"

definition ReadVarint64 :: "'s next_call \<Rightarrow> 's coded_input \<Rightarrow> (u64 option \<times> 's coded_input) pres" where
  "ReadVarint64 next_input s =
     (if ci_buffer s \<noteq> [] \<and> unat (hd (ci_buffer s)) < 0x80 then Ok (Some (ucast (hd (ci_buffer s))), Advance 1 s)
      else ReadVarint64Fallback next_input s)"

definition ReadVarintSizeAsInt :: "'s next_call \<Rightarrow> 's coded_input \<Rightarrow> (int option \<times> 's coded_input) pres" where
  "ReadVarintSizeAsInt next_input s =
     (if ci_buffer s \<noteq> [] \<and> unat (hd (ci_buffer s)) < 0x80 then Ok (Some (uint (hd (ci_buffer s))), Advance 1 s)
      else ReadVarintSizeAsIntFallback next_input s)"

definition ReadLengthAndPushLimit :: "'s next_call \<Rightarrow> 's coded_input \<Rightarrow> (int \<times> 's coded_input) pres" where
  "ReadLengthAndPushLimit next_input s =
     pbind (ReadVarint32 next_input s) (\<lambda>(v, s).
       PushLimit (case v of None \<Rightarrow> 0 | Some v \<Rightarrow> sint v) s)"

section \<open>Tags\<close>

definition Coded_ReadTagSlow :: "'s next_call \<Rightarrow> 's coded_input \<Rightarrow> (u32 \<times> 's coded_input) pres" where
  "Coded_ReadTagSlow next_input s =
     pbind (if ci_buffer s = [] then Refresh next_input s else Ok (True, s)) (\<lambda>(ok, s).
       if \<not> ok then
         let current_position = ci_total_bytes_read s - int (length (ci_after_limit s))
         in Ok (0, s\<lparr>ci_legitimate_message_end :=
              (if current_position \<ge> ci_total_bytes_limit s then ci_current_limit s = ci_total_bytes_limit s else True)\<rparr>)
       else pbind (ReadVarint64 next_input s) (\<lambda>(v, s). Ok (case v of None \<Rightarrow> 0 | Some v \<Rightarrow> ucast v, s)))"

definition Coded_ReadTagFallback :: "'s next_call \<Rightarrow> u32 \<Rightarrow> 's coded_input \<Rightarrow> (u32 \<times> 's coded_input) pres" where
  "Coded_ReadTagFallback next_input first_byte_or_zero s =
     (if varint_fits s then
        if first_byte_or_zero = 0 then Ok (0, Advance 1 s)
        else pbind (ReadVarint32FromArray first_byte_or_zero (ci_buffer s)) (\<lambda>(v, n).
          case v of None \<Rightarrow> Ok (0, s) | Some tag \<Rightarrow> Ok (tag, Advance (int n) s))
      else if BufferSize s = 0 \<and> (ci_after_limit s \<noteq> [] \<or> ci_total_bytes_read s = ci_current_limit s)
          \<and> ci_total_bytes_read s - int (length (ci_after_limit s)) < ci_total_bytes_limit s then
        Ok (0, s\<lparr>ci_legitimate_message_end := True\<rparr>)
      else Coded_ReadTagSlow next_input s)"

definition ReadTagNoLastTag :: "'s next_call \<Rightarrow> 's coded_input \<Rightarrow> (u32 \<times> 's coded_input) pres" where
  "ReadTagNoLastTag next_input s =
     (let v = (case ci_buffer s of [] \<Rightarrow> 0 | b # _ \<Rightarrow> ucast b)
      in if ci_buffer s \<noteq> [] \<and> unat v < 0x80 then Ok (v, Advance 1 s)
         else Coded_ReadTagFallback next_input v s)"

definition Coded_ReadTag :: "'s next_call \<Rightarrow> 's coded_input \<Rightarrow> (u32 \<times> 's coded_input) pres" where
  "Coded_ReadTag next_input s =
     pbind (ReadTagNoLastTag next_input s) (\<lambda>(tag, s). Ok (tag, s\<lparr>ci_last_tag := tag\<rparr>))"

definition ReadTagWithCutoffNoLastTag :: "'s next_call \<Rightarrow> u32 \<Rightarrow> 's coded_input \<Rightarrow> (u32 \<times> bool \<times> 's coded_input) pres" where
  "ReadTagWithCutoffNoLastTag next_input cutoff s =
     (case ci_buffer s of
        b0 # rest \<Rightarrow>
          if 0 < unat b0 \<and> unat b0 < 128 then
            let tag = (ucast b0 :: u32) in Ok (tag, cutoff \<ge> 0x7F \<or> tag \<le> cutoff, Advance 1 s)
          else if cutoff \<ge> 0x80 \<and> rest \<noteq> [] \<and> b0 AND NOT (hd rest) \<ge> 0x80 then
            let tag = push_bit 7 1 * ucast (hd rest) + (ucast b0 - 0x80)
            in Ok (tag, cutoff \<ge> push_bit 7 0x7F + 0x7F \<or> tag \<le> cutoff, Advance 2 s)
          else pbind (Coded_ReadTagFallback next_input (ucast b0) s) (\<lambda>(tag, s). Ok (tag, tag - 1 < cutoff, s))
      | [] \<Rightarrow> pbind (Coded_ReadTagFallback next_input 0 s) (\<lambda>(tag, s). Ok (tag, tag - 1 < cutoff, s)))"

definition LastTagWas :: "u32 \<Rightarrow> 's coded_input \<Rightarrow> bool" where
  "LastTagWas expected s \<longleftrightarrow> ci_last_tag s = expected"

definition SetLastTag :: "u32 \<Rightarrow> 's coded_input \<Rightarrow> 's coded_input" where "SetLastTag t s = s\<lparr>ci_last_tag := t\<rparr>"

definition SetConsumed :: "'s coded_input \<Rightarrow> 's coded_input" where "SetConsumed s = s\<lparr>ci_legitimate_message_end := True\<rparr>"

definition ExpectTag :: "u32 \<Rightarrow> 's coded_input \<Rightarrow> bool \<times> 's coded_input" where
  "ExpectTag expected s =
     (if expected < push_bit 7 1 then
        if ci_buffer s \<noteq> [] \<and> ucast (ci_buffer s ! 0) = expected then (True, Advance 1 s) else (False, s)
      else if expected < push_bit 14 1 then
        if BufferSize s \<ge> 2 \<and> ci_buffer s ! 0 = ucast (expected OR 0x80) \<and> ci_buffer s ! 1 = ucast (drop_bit 7 expected)
        then (True, Advance 2 s) else (False, s)
      else (False, s))"

definition Coded_ExpectTagFromArray :: "byte list \<Rightarrow> u32 \<Rightarrow> nat option pres" where
  "Coded_ExpectTagFromArray buffer expected =
     (if expected < push_bit 7 1 then pbind (rd buffer 0) (\<lambda>b. Ok (if ucast b = expected then Some 1 else None))
      else if expected < push_bit 14 1 then
        pbind (rd buffer 0) (\<lambda>b0. if b0 \<noteq> ucast (expected OR 0x80) then Ok None
          else pbind (rd buffer 1) (\<lambda>b1. Ok (if b1 = ucast (drop_bit 7 expected) then Some 2 else None)))
      else Ok None)"

definition ExpectAtEnd :: "'s coded_input \<Rightarrow> bool \<times> 's coded_input" where
  "ExpectAtEnd s =
     (if ci_buffer s = [] \<and> (ci_after_limit s \<noteq> [] \<or> ci_total_bytes_read s = ci_current_limit s)
      then (True, s\<lparr>ci_last_tag := 0, ci_legitimate_message_end := True\<rparr>) else (False, s))"

section \<open>What the reader sees\<close>

text \<open>The bytes up to the closest limit.\<close>

definition limit_left :: "'s coded_input \<Rightarrow> nat" where
  "limit_left s = nat (closest_limit s - CurrentPosition s)"

definition positions_ok :: "'s coded_input \<Rightarrow> bool" where
  "positions_ok s \<longleftrightarrow> 0 \<le> CurrentPosition s \<and> CurrentPosition s \<le> closest_limit s \<and> ci_total_bytes_read s \<le> int_max
     \<and> ci_current_limit s \<le> int_max \<and> ci_total_bytes_limit s \<le> int_max
     \<and> length (ci_after_limit s) = nat (ci_total_bytes_read s - closest_limit s)
     \<and> 0 \<le> ci_overflow_bytes s \<and> (0 < ci_overflow_bytes s \<longrightarrow> ci_total_bytes_read s = int_max)"

text \<open>Moved by \<open>n\<close> bytes, with the limits unchanged.\<close>

definition moved :: "nat \<Rightarrow> 's coded_input \<Rightarrow> 's coded_input \<Rightarrow> bool" where
  "moved n s s' \<longleftrightarrow> CurrentPosition s' = CurrentPosition s + int n \<and> ci_current_limit s' = ci_current_limit s
     \<and> ci_total_bytes_limit s' = ci_total_bytes_limit s \<and> (ci_input s' = None \<longleftrightarrow> ci_input s = None)
     \<and> (ci_input s = None \<longrightarrow> ci_total_bytes_read s' = ci_total_bytes_read s)"

lemma moved_refl [simp]: "moved 0 s s"
  by (simp add: moved_def)

lemma moved_trans: "moved m s s' \<Longrightarrow> moved n s' s'' \<Longrightarrow> moved (m + n) s s''"
  by (simp add: moved_def)

lemma moved_left: "moved n s s' \<Longrightarrow> limit_left s' = limit_left s - n"
  by (simp add: moved_def limit_left_def closest_limit_def)

text \<open>The limits put the bytes into the two parts of the buffer.\<close>

lemma RecomputeBufferLimits_ok:
  assumes "ci_total_bytes_read s - int (length (ci_buffer s @ ci_after_limit s)) \<le> closest_limit s"
  defines "n \<equiv> length (ci_buffer s @ ci_after_limit s) - nat (ci_total_bytes_read s - closest_limit s)"
  shows "RecomputeBufferLimits s = Ok (s\<lparr>ci_buffer := take n (ci_buffer s @ ci_after_limit s), ci_after_limit := drop n (ci_buffer s @ ci_after_limit s)\<rparr>)"
proof (cases "closest_limit s < ci_total_bytes_read s")
  case True
  define xs where "xs = ci_buffer s @ ci_after_limit s"
  have "int (length xs) - (ci_total_bytes_read s - closest_limit s) = int n"
    using True assms(1) unfolding n_def xs_def [symmetric] by (simp add: of_nat_diff nat_le_iff)
  then show ?thesis using True unfolding RecomputeBufferLimits_def Let_def xs_def [symmetric] by simp
next
  case False
  then show ?thesis by (simp add: RecomputeBufferLimits_def n_def)
qed

lemma no_overflow:
  "ci_overflow_bytes s = 0 \<Longrightarrow> s\<lparr>ci_input := i, ci_buffer := d, ci_total_bytes_read := t, ci_overflow_bytes := 0\<rparr>
     = s\<lparr>ci_input := i, ci_buffer := d, ci_total_bytes_read := t\<rparr>"
  by (cases s) simp

lemma overflow_order:
  "s\<lparr>ci_input := i, ci_overflow_bytes := v, ci_buffer := d, ci_total_bytes_read := t\<rparr>
     = s\<lparr>ci_input := i, ci_buffer := d, ci_total_bytes_read := t, ci_overflow_bytes := v\<rparr>"
  by (cases s) simp

context zero_copy_input begin

text \<open>The stream below stands behind the buffers, which are the end of the last chunk it handed out.
  \<open>xs\<close> are all bytes not yet read.\<close>

definition coded_at :: "'s coded_input \<Rightarrow> byte list \<Rightarrow> bool" where
  "coded_at s xs \<longleftrightarrow> positions_ok s \<and> (case ci_input s of
     None \<Rightarrow> ci_overflow_bytes s = 0 \<and> ci_current_limit s \<le> ci_total_bytes_read s \<and> xs = ci_buffer s @ ci_after_limit s
   | Some input \<Rightarrow> ok input \<and> (\<exists>over. int (length over) = ci_overflow_bytes s \<and> xs = ci_buffer s @ ci_after_limit s @ over @ rest input
        \<and> (ci_buffer s @ ci_after_limit s @ over = [] \<or> (\<exists>input0 used. ok input0
             \<and> next_chunk input0 = Ok (Some (used @ ci_buffer s @ ci_after_limit s @ over), input)))))"

definition seen :: "'s coded_input \<Rightarrow> byte list \<Rightarrow> byte list" where
  "seen s xs = take (limit_left s) xs"

lemma coded_at_advance:
  assumes "coded_at s xs" and "n \<le> length (ci_buffer s)"
  shows "coded_at (Advance (int n) s) (drop n xs)" "moved n s (Advance (int n) s)" "take n (ci_buffer s) = take n xs"
proof -
  have split: "ci_buffer s = take n (ci_buffer s) @ drop n (ci_buffer s)" by simp
  have p: "positions_ok (Advance (int n) s)"
    using assms by (auto simp: coded_at_def positions_ok_def Advance_def CurrentPosition_def BufferSize_def closest_limit_def of_nat_diff)
  have closest: "int (length (ci_buffer s)) + (ci_total_bytes_read s - int (length (ci_buffer s))) = ci_total_bytes_read s" by simp
  show "moved n s (Advance (int n) s)"
    using assms(2) by (simp add: moved_def Advance_def CurrentPosition_def BufferSize_def of_nat_diff)
  show "take n (ci_buffer s) = take n xs" using assms by (auto simp: coded_at_def split: option.splits)
  show "coded_at (Advance (int n) s) (drop n xs)"
  proof (cases "ci_input s")
    case None
    then show ?thesis using assms p by (simp add: coded_at_def Advance_def)
  next
    case (Some input)
    then obtain over where o: "ok input" "int (length over) = ci_overflow_bytes s" "xs = ci_buffer s @ ci_after_limit s @ over @ rest input"
      "ci_buffer s @ ci_after_limit s @ over = [] \<or> (\<exists>input0 used. ok input0
             \<and> next_chunk input0 = Ok (Some (used @ ci_buffer s @ ci_after_limit s @ over), input))"
      using assms(1) by (auto simp: coded_at_def)
    have "drop n (ci_buffer s) @ ci_after_limit s @ over = [] \<or> (\<exists>input0 used. ok input0
        \<and> next_chunk input0 = Ok (Some (used @ drop n (ci_buffer s) @ ci_after_limit s @ over), input))"
      using o(4)
    proof
      assume "\<exists>input0 used. ok input0 \<and> next_chunk input0 = Ok (Some (used @ ci_buffer s @ ci_after_limit s @ over), input)"
      then obtain input0 used where "ok input0" "next_chunk input0 = Ok (Some (used @ ci_buffer s @ ci_after_limit s @ over), input)" by blast
      then show ?thesis using split by (metis append_assoc)
    qed auto
    then show ?thesis using Some o assms(2) p by (auto simp: coded_at_def Advance_def)
  qed
qed

lemma seen_buffer:
  assumes "coded_at s xs"
  shows "\<exists>ys. seen s xs = ci_buffer s @ ys \<and> (ci_after_limit s \<noteq> [] \<or> 0 < ci_overflow_bytes s \<or> closest_limit s \<le> ci_total_bytes_read s \<longrightarrow> ys = [])"
proof -
  have p: "positions_ok s" using assms by (simp add: coded_at_def)
  obtain zs where xs: "xs = ci_buffer s @ zs" using assms by (auto simp: coded_at_def split: option.splits)
  define left where "left = nat (closest_limit s - ci_total_bytes_read s)"
  have l: "limit_left s = length (ci_buffer s) + left"
    using p by (auto simp: left_def limit_left_def positions_ok_def CurrentPosition_def BufferSize_def closest_limit_def)
  have "left = 0" if "ci_after_limit s \<noteq> [] \<or> 0 < ci_overflow_bytes s \<or> closest_limit s \<le> ci_total_bytes_read s"
  proof -
    have "0 < length (ci_after_limit s)" if "ci_after_limit s \<noteq> []" using that by simp
    moreover have "length (ci_after_limit s) = nat (ci_total_bytes_read s - closest_limit s)" using p by (simp add: positions_ok_def)
    ultimately have "0 < ci_total_bytes_read s - closest_limit s" if "ci_after_limit s \<noteq> []" using that by simp
    then show ?thesis using that p by (auto simp: left_def positions_ok_def closest_limit_def)
  qed
  then show ?thesis by (auto simp: seen_def xs l)
qed

lemma NextNonEmpty_eq: "ok input \<Longrightarrow> NextNonEmpty next_chunk input = Some (next_chunk input)"
proof -
  assume o: "ok input"
  obtain d input' where d: "next_chunk input = Ok (d, input')" using next_ok [OF o] by blast
  moreover have "d \<noteq> Some []" using next_some [OF o] d by blast
  ultimately show ?thesis by (subst NextNonEmpty.simps) simp
qed

text \<open>A chunk that has just come in, cut at the limits.\<close>

lemma coded_at_chunk:
  assumes "positions_ok s" "ci_after_limit s = []" "ci_buffer s = []" "ok input" "next_chunk input = Ok (Some (d @ over), input')" "ok input'"
    and "ci_total_bytes_read s + int (length d) \<le> int_max" "over \<noteq> [] \<longrightarrow> ci_total_bytes_read s + int (length d) = int_max" "d \<noteq> []" "ci_input s \<noteq> None"
  defines "s1 \<equiv> s\<lparr>ci_input := Some input', ci_buffer := d, ci_total_bytes_read := ci_total_bytes_read s + int (length d), ci_overflow_bytes := int (length over)\<rparr>"
  shows "\<exists>s'. RecomputeBufferLimits s1 = Ok s' \<and> coded_at s' (d @ over @ rest input') \<and> moved 0 s s' \<and> (ci_buffer s' \<noteq> [] \<or> ci_after_limit s' \<noteq> [])
    \<and> ci_legitimate_message_end s' = ci_legitimate_message_end s"
proof -
  have le: "ci_total_bytes_read s \<le> closest_limit s" "closest_limit s1 = closest_limit s"
    using assms(1-3) by (simp_all add: positions_ok_def CurrentPosition_def BufferSize_def s1_def closest_limit_def)
  define k where "k = length d - nat (ci_total_bytes_read s + int (length d) - closest_limit s)"
  have k: "k \<le> length d" "length d - k = nat (ci_total_bytes_read s + int (length d) - closest_limit s)" using le by (auto simp: k_def)
  have "RecomputeBufferLimits s1 = Ok (s1\<lparr>ci_buffer := take k d, ci_after_limit := drop k d\<rparr>)"
    using RecomputeBufferLimits_ok [of s1] le assms(2) by (simp add: s1_def k_def)
  moreover have "coded_at (s1\<lparr>ci_buffer := take k d, ci_after_limit := drop k d\<rparr>) (d @ over @ rest input')"
  proof -
    have "positions_ok (s1\<lparr>ci_buffer := take k d, ci_after_limit := drop k d\<rparr>)"
      using assms(1-3,7,8) k by (auto simp: positions_ok_def CurrentPosition_def BufferSize_def closest_limit_def s1_def)
    moreover have "\<exists>input0 used. ok input0 \<and> next_chunk input0 = Ok (Some (used @ take k d @ drop k d @ over), input')"
      using assms(4,5) by (intro exI [of _ input] exI [of _ "[]"]) (simp flip: append_assoc)
    ultimately show ?thesis using assms(6) by (auto simp: coded_at_def s1_def intro!: exI [of _ over])
  qed
  moreover have "moved 0 s (s1\<lparr>ci_buffer := take k d, ci_after_limit := drop k d\<rparr>)"
    using k(1) assms(2,3,10) by (auto simp: moved_def CurrentPosition_def BufferSize_def s1_def min_absorb2)
  moreover have "take k d \<noteq> [] \<or> drop k d \<noteq> []" using assms(9) by (metis append_Nil append_take_drop_id)
  moreover have "ci_legitimate_message_end (s1\<lparr>ci_buffer := take k d, ci_after_limit := drop k d\<rparr>) = ci_legitimate_message_end s" by (simp add: s1_def)
  ultimately show ?thesis by (intro exI [of _ "s1\<lparr>ci_buffer := take k d, ci_after_limit := drop k d\<rparr>"] conjI) simp_all
qed

lemma refresh_cases:
  assumes "coded_at s xs" and "ci_buffer s = []"
  obtains (stop) s' where "Refresh next_chunk s = Ok (False, s')" "coded_at s' xs" "moved 0 s s'" "seen s xs = []" "ci_buffer s' = []"
      "ci_legitimate_message_end s' = ci_legitimate_message_end s"
  | (more) s' where "Refresh next_chunk s = Ok (True, s')" "coded_at s' xs" "moved 0 s s'" "ci_buffer s' \<noteq> [] \<or> ci_after_limit s' \<noteq> []"
      "ci_legitimate_message_end s' = ci_legitimate_message_end s"
proof (cases "ci_after_limit s \<noteq> [] \<or> ci_overflow_bytes s > 0 \<or> ci_total_bytes_read s = ci_current_limit s")
  case True
  then have "Refresh next_chunk s = Ok (False, s)" by (simp add: Refresh_def)
  moreover have "seen s xs = []" using seen_buffer [OF assms(1)] assms(2) True by (auto simp: closest_limit_def)
  ultimately show thesis using stop assms by simp
next
  case False
  have p: "positions_ok s" using assms(1) by (simp add: coded_at_def)
  have after: "ci_after_limit s = []" using False by blast
  from p have pos: "ci_total_bytes_read s \<le> closest_limit s" "ci_overflow_bytes s = 0"
    using False after assms(2) by (simp_all add: positions_ok_def CurrentPosition_def BufferSize_def)
  have "ci_input s \<noteq> None"
  proof
    assume "ci_input s = None"
    then show False using assms(1) pos False by (simp add: coded_at_def closest_limit_def)
  qed
  then obtain input where i: "ci_input s = Some input" by blast
  then have o: "ok input" and xs: "xs = rest input" using assms False pos by (auto simp: coded_at_def)
  obtain data input' where n: "next_chunk input = Ok (data, input')" "ok input'" using next_ok [OF o] by blast
  have next_eq: "returns (NextNonEmpty next_chunk input) = Ok (data, input')" using NextNonEmpty_eq [OF o] n by (simp add: returns_def)
  show thesis
  proof (cases data)
    case None
    let ?s = "s\<lparr>ci_input := Some input', ci_buffer := []\<rparr>"
    have r: "rest input = []" "rest input' = []" using next_none [OF o] n None by blast+
    have "Refresh next_chunk s = Ok (False, ?s)" using False i next_eq None by (simp add: Refresh_def)
    moreover have "closest_limit ?s = closest_limit s" by (simp add: closest_limit_def)
    then have "positions_ok ?s" using p assms(2) by (simp add: positions_ok_def CurrentPosition_def BufferSize_def)
    then have "coded_at ?s xs" using xs r n(2) False pos by (auto simp: coded_at_def)
    moreover have "moved 0 s ?s" using assms(2) i by (simp add: moved_def CurrentPosition_def BufferSize_def)
    ultimately show ?thesis using stop xs r by (simp add: seen_def)
  next
    case (Some d)
    have d: "d \<noteq> []" "rest input = d @ rest input'" using next_some [OF o] n Some by blast+
    define m where "m = nat (int_max - ci_total_bytes_read s)"
    define d1 d2 where "d1 = take m d" and "d2 = drop m d"
    have m: "int m = int_max - ci_total_bytes_read s" using p by (simp add: m_def positions_ok_def)
    have "ci_total_bytes_read s < int_max" using p pos False by (auto simp: positions_ok_def closest_limit_def)
    then have d1: "d1 \<noteq> []" "d = d1 @ d2" "ci_total_bytes_read s + int (length d1) \<le> int_max"
      "d2 \<noteq> [] \<longrightarrow> ci_total_bytes_read s + int (length d1) = int_max"
      using d(1) m by (auto simp: d1_def d2_def min_def)
    obtain s' where s': "RecomputeBufferLimits (s\<lparr>ci_input := Some input', ci_buffer := d1,
        ci_total_bytes_read := ci_total_bytes_read s + int (length d1), ci_overflow_bytes := int (length d2)\<rparr>) = Ok s'"
      "coded_at s' (d1 @ d2 @ rest input')" "moved 0 s s'" "ci_buffer s' \<noteq> [] \<or> ci_after_limit s' \<noteq> []"
      "ci_legitimate_message_end s' = ci_legitimate_message_end s"
      using coded_at_chunk [OF p _ assms(2) o _ n(2) d1(3,4,1)] n(1) Some d1(2) False i by auto
    have "Refresh next_chunk s = pbind (RecomputeBufferLimits (s\<lparr>ci_input := Some input', ci_buffer := d1,
        ci_total_bytes_read := ci_total_bytes_read s + int (length d1), ci_overflow_bytes := int (length d2)\<rparr>)) (\<lambda>s. Ok (True, s))"
    proof (cases "length d \<le> m")
      case True
      then have "ci_total_bytes_read s \<le> int_max - int (length d)" "d1 = d" "d2 = []" using m by (simp_all add: d1_def d2_def)
      then show ?thesis using \<open>\<not> (ci_after_limit s \<noteq> [] \<or> _)\<close> i next_eq Some pos by (simp add: Refresh_def no_overflow [OF pos(2)])
    next
      case over: False
      have "\<not> ci_total_bytes_read s \<le> int_max - int (length d)" using over m by linarith
      moreover have "int (length d) - (ci_total_bytes_read s - (int_max - int (length d))) = int m" using m by simp
      moreover have "ci_total_bytes_read s + int (length d1) = int_max" "int (length d2) = ci_total_bytes_read s - (int_max - int (length d))"
        using over m by (simp_all add: d1_def d2_def of_nat_diff)
      moreover have "ci_total_bytes_read s + int m = int_max" using m by simp
      ultimately show ?thesis using False i next_eq Some by (simp add: Refresh_def Let_def d1_def overflow_order flip: m_def)
    qed
    then show ?thesis using more s' xs d(2) d1(2) by simp
  qed
qed

definition read_to :: "nat \<Rightarrow> 's coded_input \<Rightarrow> byte list \<Rightarrow> 's coded_input \<Rightarrow> bool" where
  "read_to n s xs s' \<longleftrightarrow> n \<le> length (seen s xs) \<and> coded_at s' (drop n xs) \<and> moved n s s'"

lemma read_to_seen: "read_to n s xs s' \<Longrightarrow> seen s' (drop n xs) = drop n (seen s xs)"
  using moved_left [of n s s'] by (simp add: read_to_def seen_def drop_take)

lemma read_to_refl: "coded_at s xs \<Longrightarrow> read_to 0 s xs s"
  by (simp add: read_to_def)

lemma read_to_trans: "read_to m s xs s' \<Longrightarrow> read_to n s' (drop m xs) s'' \<Longrightarrow> read_to (m + n) s xs s''"
proof -
  assume a: "read_to m s xs s'" "read_to n s' (drop m xs) s''"
  then have "n \<le> length (seen s xs) - m" using read_to_seen [OF a(1)] by (simp add: read_to_def)
  then show ?thesis using a by (auto simp: read_to_def add.commute intro: moved_trans)
qed

lemma advance_read_to:
  assumes "coded_at s xs" and "n \<le> length (ci_buffer s)"
  shows "read_to n s xs (Advance (int n) s)"
proof -
  obtain ys where "seen s xs = ci_buffer s @ ys" using seen_buffer [OF assms(1)] by blast
  then show ?thesis using coded_at_advance [OF assms] assms(2) by (simp add: read_to_def)
qed

text \<open>What is left to do: each turn of a loop reads a byte or has bytes behind a limit in hand.\<close>

definition turns :: "'s coded_input \<Rightarrow> byte list \<Rightarrow> nat" where
  "turns s xs = 2 * length xs + (if ci_buffer s = [] \<and> ci_after_limit s = [] then 1 else 0)"

lemma Refresh_after: "Refresh next_input s = Ok (True, s') \<Longrightarrow> ci_after_limit s = [] \<and> ci_total_bytes_read s \<noteq> ci_current_limit s"
  by (simp add: Refresh_def split: if_splits)

lemma refresh_read_to:
  assumes "coded_at s xs" and "ci_buffer s = []"
  obtains (stop) s' where "Refresh next_chunk s = Ok (False, s')" "read_to 0 s xs s'" "seen s xs = []" "ci_buffer s' = []"
  | (go_on) s' where "Refresh next_chunk s = Ok (True, s')" "read_to 0 s xs s'" "turns s' xs < turns s xs"
  using assms
proof (cases rule: refresh_cases)
  case (stop s')
  then show ?thesis using that(1) by (simp add: read_to_def)
next
  case (more s')
  then show ?thesis using that(2) [OF more(1)] Refresh_after [OF more(1)] assms(2) by (auto simp: read_to_def turns_def)
qed

lemma read_loop_spec:
  assumes "coded_at s xs"
  shows "\<exists>s'. read_loop next_chunk (int n) bytes s = Some (Ok (n \<le> length (seen s xs), bytes @ take n (seen s xs), s'))
    \<and> read_to (min n (length (seen s xs))) s xs s'"
  using assms
proof (induction "turns s xs" arbitrary: s xs n bytes rule: less_induct)
  case less
  obtain ys where ys: "seen s xs = ci_buffer s @ ys" using seen_buffer [OF less.prems] by blast
  let ?k = "length (ci_buffer s)"
  show ?case
  proof (cases "?k < n")
    case False
    have "read_to n s xs (Advance (int n) s)" using advance_read_to [OF less.prems] False by simp
    then show ?thesis using False ys by (subst read_loop.simps) (simp add: BufferSize_def)
  next
    case True
    let ?s = "Advance (int ?k) s"
    have adv: "read_to ?k s xs ?s" using advance_read_to [OF less.prems] by simp
    have buf: "ci_buffer ?s = []" "ci_after_limit ?s = ci_after_limit s" by (simp_all add: Advance_def)
    have n: "int n - int ?k = int (n - ?k)" using True by simp
    have at: "coded_at ?s (drop ?k xs)" using adv by (simp add: read_to_def)
    have rest_seen: "seen ?s (drop ?k xs) = ys" using read_to_seen [OF adv] ys by simp
    show ?thesis using at buf(1)
    proof (cases rule: refresh_read_to)
      case (stop s')
      have "read_to ?k s xs s'" using read_to_trans [OF adv stop(2)] by simp
      moreover have "ys = []" using stop(3) rest_seen by simp
      ultimately show ?thesis using True stop(1) ys by (subst read_loop.simps) (simp add: BufferSize_def Let_def)
    next
      case (go_on s')
      have "ys = seen s' (drop ?k xs)" using read_to_seen [OF go_on(2)] rest_seen by simp
      have "turns ?s (drop ?k xs) \<le> turns s xs" using less.prems by (auto simp: turns_def buf coded_at_def Suc_le_eq split: option.splits)
      then have "turns s' (drop ?k xs) < turns s xs" using go_on(3) by simp
      moreover have "coded_at s' (drop ?k xs)" using go_on(2) by (simp add: read_to_def)
      ultimately obtain s2 where s2: "read_loop next_chunk (int (n - ?k)) (bytes @ ci_buffer s) s'
          = Some (Ok (n - ?k \<le> length ys, (bytes @ ci_buffer s) @ take (n - ?k) ys, s2))"
        "read_to (min (n - ?k) (length ys)) s' (drop ?k xs) s2"
        using less.hyps [of s' "drop ?k xs" "n - ?k" "bytes @ ci_buffer s"] \<open>ys = _\<close> by auto
      have "read_to (?k + min (n - ?k) (length ys)) s xs s2"
        using read_to_trans [OF adv read_to_trans [OF go_on(2), of "min (n - ?k) (length ys)" s2]] s2(2) by simp
      moreover have "?k + min (n - ?k) (length ys) = min n (length (seen s xs))" using True ys by simp
      moreover have "(n - ?k \<le> length ys) = (n \<le> length (seen s xs))" using True ys by auto
      moreover have "read_loop next_chunk (int n) bytes s = read_loop next_chunk (int (n - ?k)) (bytes @ ci_buffer s) s'"
        using True go_on(1) n by (subst read_loop.simps) (simp add: BufferSize_def Let_def)
      ultimately show ?thesis using s2(1) True ys by simp
    qed
  qed
qed

end

end
