(* ===== verification/CodedReads.thy ===== *)
theory CodedReads
  imports CodedInput
begin

text \<open>
  What the readers of \<^verbatim>\<open>CodedInputStream\<close> compute: every one of them is a function of the bytes that are left up to
  the closest limit (\<open>seen\<close>), in whatever chunks the stream below hands them out, and it leaves the reader
  as many bytes further (\<open>read_to\<close>). The varints from an array first, then the readers and the limits
  over any stream that keeps the contract \<open>zero_copy_input\<close>, then the results over the stacks of
  \<open>Streams\<close>.
\<close>

section \<open>Varints from an array\<close>

text \<open>Varints in one piece: the reference again.\<close>

lemma and_128_zero32: "(ucast (b :: byte) :: u32) AND 0x80 = 0 \<longleftrightarrow> unat b < 128"
  using and_128_zero [of b] by (simp add: and.commute)

lemma varint_val_lead:
  assumes "i < vlead p"
  shows "varint_val (take (Suc i) p) + 2 ^ (7 * i) * 128 = varint_val (take i p) + 2 ^ (7 * i) * unat (p ! i)"
proof -
  have i: "i < length p" using assms vlead_le [of p] by simp
  have "unat (p ! i) div 128 = 1" using vlead_lead [OF assms] unat_byte_less [of "p ! i"] by simp
  then have "unat (p ! i) = unat (p ! i) mod 128 + 128" using div_mult_mod_eq [of "unat (p ! i)" 128] by simp
  then show ?thesis unfolding varint_val_take_Suc [OF i] by (metis add.assoc add_mult_distrib2)
qed

lemma varint_val_end:
  assumes "vlead p < length p"
  shows "vvalue p = varint_val (take (vlead p) p) + 2 ^ (7 * vlead p) * unat (p ! vlead p)"
  using vlead_end [OF assms] varint_val_take_Suc [OF assms] by (simp add: vvalue_def)

lemma varint32_overrun_spec:
  "i \<le> vlead p \<Longrightarrow> varint32_overrun n p i result =
     (if i + n \<le> vlead p then Ok (None, i + n) else if length p \<le> vlead p then OOB else Ok (Some result, Suc (vlead p)))"
proof (induction n arbitrary: i)
  case (Suc n)
  show ?case
  proof (cases "i < length p")
    case False
    then have "i = vlead p" "length p \<le> i" using Suc.prems vlead_le [of p] by simp_all
    then show ?thesis by (simp add: rd_out)
  next
    case True
    then show ?thesis using vlead_end [of p] vlead_lead [of i p] Suc.prems Suc.IH [of "Suc i"]
      by (cases "i = vlead p") (auto simp: and_128_zero32)
  qed
qed simp

lemma varint32_steps_spec:
  "i \<le> vlead p \<Longrightarrow> i + length shs = 5 \<Longrightarrow> shs = map (\<lambda>j. 7 * j) [i..<5] \<Longrightarrow>
     varint32_steps shs p i (of_nat (varint_val (take i p))) =
     (if 10 \<le> vlead p then Ok (None, 10) else if length p \<le> vlead p then OOB else Ok (Some (of_nat (vvalue p)), Suc (vlead p)))"
proof (induction shs arbitrary: i)
  case Nil
  have z: "(2 :: u32) ^ (7 * 5) = 0" by simp
  have "5 \<le> vlead p \<Longrightarrow> (of_nat (varint_val (take 5 p)) :: u32) = of_nat (vvalue p)"
    using vacc_overflow [OF _ z, of p] unfolding vacc_def z by simp
  with Nil show ?case by (simp add: varint32_overrun_spec)
next
  case (Cons sh shs)
  have "i < 5" using Cons.prems(2) by simp
  then have i: "sh = 7 * i" "shs = map (\<lambda>j. 7 * j) [Suc i..<5]" "i < 5"
    using Cons.prems(3) upt_conv_Cons [of i 5] by simp_all
  have r: "of_nat (varint_val (take i p)) + push_bit sh (ucast (p ! i)) = (of_nat (varint_val (take i p) + 2 ^ (7 * i) * unat (p ! i)) :: u32)"
    by (simp add: i push_bit_eq_mult)
  show ?case
  proof (cases "i < length p")
    case False
    then have "i = vlead p" "length p \<le> i" using Cons.prems vlead_le [of p] by simp_all
    then show ?thesis using i(3) by (simp add: rd_out)
  next
    case True
    show ?thesis
    proof (cases "i = vlead p")
      case end_here: True
      then have "unat (p ! i) < 128" using vlead_end True by simp
      then show ?thesis using True r varint_val_end [of p] end_here i(3) by (simp add: and_128_zero32 Let_def)
    next
      case False
      then have lead: "i < vlead p" using Cons.prems by simp
      have "(of_nat (varint_val (take i p) + 2 ^ (7 * i) * unat (p ! i)) - push_bit sh 0x80 :: u32) = of_nat (varint_val (take (Suc i) p))"
        using arg_cong [OF varint_val_lead [OF lead], of "of_nat :: nat \<Rightarrow> u32"] by (simp add: i push_bit_eq_mult algebra_simps)
      then show ?thesis using True r lead vlead_lead [OF lead] Cons.IH [of "Suc i"] Cons.prems(2) i
        by (simp add: and_128_zero32 Let_def)
    qed
  qed
qed

lemma ReadVarint32FromArray_spec:
  assumes "0 < vlead p" and "first_byte = ucast (p ! 0)"
  shows "ReadVarint32FromArray first_byte p =
     (if 10 \<le> vlead p then Ok (None, 10) else if length p \<le> vlead p then OOB else Ok (Some (of_nat (vvalue p)), Suc (vlead p)))"
proof -
  have "varint_val (take 1 p) + 128 = unat (p ! 0)" using varint_val_lead [OF assms(1)] by simp
  then have "(of_nat (varint_val (take 1 p) + 128) :: u32) = ucast (p ! 0)" by simp
  then have "first_byte - 0x80 = of_nat (varint_val (take 1 p))" using assms(2) by (simp add: algebra_simps)
  moreover have "[7, 14, 21, 28] = map (\<lambda>j. 7 * j) [1..<5 :: nat]" by code_simp
  ultimately show ?thesis using varint32_steps_spec [of 1 p "[7, 14, 21, 28]"] assms(1)
    by (simp add: ReadVarint32FromArray_def del: upt_rec_numeral)
qed

lemma known_size_loop_spec:
  "i + k \<le> vlead p \<Longrightarrow> known_size_loop k i p (of_nat (varint_val (take i p)) + x) = Ok (of_nat (varint_val (take (i + k) p)) + x)"
proof (induction k arbitrary: i)
  case (Suc k)
  then have lead: "i < vlead p" by simp
  then have "i < length p" using vlead_le [of p] by simp
  moreover have "(of_nat (varint_val (take i p)) + x + push_bit (7 * i) (of_int (uint (p ! i) - 0x80)) :: u64) = of_nat (varint_val (take (Suc i) p)) + x"
    using arg_cong [OF varint_val_lead [OF lead], of "of_nat :: nat \<Rightarrow> u64"] by (simp add: push_bit_eq_mult algebra_simps)
  ultimately have "known_size_loop (Suc k) i p (of_nat (varint_val (take i p)) + x) = known_size_loop k (i + 1) p (of_nat (varint_val (take (Suc i) p)) + x)"
    by (simp only: known_size_loop.simps rd_in pbind.simps)
  then show ?case using Suc by simp
qed simp

lemma DecodeVarint64KnownSize_spec:
  assumes "vlead p < length p"
  shows "DecodeVarint64KnownSize (Suc (vlead p)) p = Ok (of_nat (vvalue p))"
  using known_size_loop_spec [of 0 "vlead p" p "push_bit (7 * vlead p) (ucast (p ! vlead p))"] varint_val_end [OF assms] assms
  by (simp add: DecodeVarint64KnownSize_def push_bit_eq_mult)

lemma varint64_chain_spec:
  assumes "i \<le> vlead p"
  shows "varint64_chain i p =
     (if 10 \<le> vlead p then Ok (None, 11) else if length p \<le> vlead p then OOB else Ok (Some (of_nat (vvalue p)), Suc (vlead p)))"
  using assms
proof (induction i p rule: varint64_chain.induct)
  case (1 i p)
  show ?case
  proof (cases "i < length p")
    case False
    then have "i = vlead p" "length p \<le> i" using 1 vlead_le [of p] by simp_all
    then show ?thesis by (subst varint64_chain.simps) (simp add: rd_out)
  next
    case True
    show ?thesis
    proof (cases "i = vlead p")
      case end_here: True
      then have "unat (p ! i) < 128" using vlead_end True by simp
      then show ?thesis using True end_here DecodeVarint64KnownSize_spec [of p]
        by (subst varint64_chain.simps) simp
    next
      case False
      then have "i < vlead p" using 1 by simp
      then show ?thesis using True vlead_lead [of i p] 1
        by (subst varint64_chain.simps) (auto simp: Suc_le_eq)
    qed
  qed
qed

lemma or_next_group:
  assumes "a < 2 ^ k"
  shows "(of_nat a :: u64) OR push_bit k (of_nat b) = of_nat (a + 2 ^ k * b)"
proof -
  have "(of_nat a :: u64) AND push_bit k (of_nat b) = 0"
  proof (rule bit_eqI)
    fix n
    have "a = take_bit k a" using assms by (simp add: take_bit_nat_eq_self)
    then have "\<not> bit a n" if "k \<le> n" using that by (metis bit_take_bit_iff leD)
    then show "bit ((of_nat a :: u64) AND push_bit k (of_nat b)) n = bit (0 :: u64) n"
      by (auto simp: bit_simps)
  qed
  then show ?thesis by (simp add: disjunctive_add_eq_or [symmetric] push_bit_eq_mult)
qed

lemma low_group: "(ucast ((ucast (b :: byte) :: u32) AND 0x7F) :: u64) = of_nat (unat b mod 128)"
proof -
  have m: "(0x7F :: u32) = mask 7" by (simp add: mask_eq_exp_minus_1)
  have "unat ((ucast b :: u32) AND 0x7F) = unat b mod 128"
    unfolding m by (simp add: take_bit_eq_mask [symmetric] unsigned_take_bit_eq) (simp add: take_bit_eq_mod)
  then show ?thesis by (metis of_nat_unat)
qed

context zero_copy_input begin

lemma fill_buffer_spec:
  assumes "coded_at s xs"
  shows "\<exists>s'. fill_buffer next_chunk s = Some (Ok (seen s xs \<noteq> [], s')) \<and> read_to 0 s xs s' \<and> (seen s xs \<noteq> [] \<longrightarrow> ci_buffer s' \<noteq> [])"
  using assms
proof (induction "turns s xs" arbitrary: s rule: less_induct)
  case less
  show ?case
  proof (cases "ci_buffer s = []")
    case False
    then have "seen s xs \<noteq> []" using seen_buffer [OF less.prems] by auto
    then show ?thesis using False read_to_refl [OF less.prems] by (subst fill_buffer.simps) auto
  next
    case True
    show ?thesis using less.prems True
    proof (cases rule: refresh_read_to)
      case (stop s')
      then show ?thesis using True by (subst fill_buffer.simps) simp
    next
      case (go_on s')
      have same: "seen s' xs = seen s xs" using read_to_seen [OF go_on(2)] by simp
      have "coded_at s' xs" using go_on(2) by (simp add: read_to_def)
      then obtain s2 where "fill_buffer next_chunk s' = Some (Ok (seen s' xs \<noteq> [], s2))" "read_to 0 s' xs s2" "seen s' xs \<noteq> [] \<longrightarrow> ci_buffer s2 \<noteq> []"
        using less.hyps [OF go_on(3)] by blast
      then show ?thesis using True go_on(1) same read_to_trans [OF go_on(2), of 0 s2] by (subst fill_buffer.simps) simp
    qed
  qed
qed

text \<open>What a reader of one value returns, by a function on the bytes it sees.\<close>

definition read_result :: "('a \<times> nat) pres \<Rightarrow> 's coded_input \<Rightarrow> byte list \<Rightarrow> ('a option \<times> 's coded_input) pres \<Rightarrow> bool" where
  "read_result spec s xs r \<longleftrightarrow> (\<exists>v s'. r = Ok (v, s') \<and> (case spec of
     Ok (x, n) \<Rightarrow> v = Some x \<and> read_to n s xs s' | _ \<Rightarrow> v = None \<and> (\<exists>n. read_to n s xs s')))"

lemma varint64_slow_loop_spec:
  assumes "read_to count s0 xs s" and "count \<le> vlead (seen s0 xs)" and "count \<le> 10"
    and "result = of_nat (varint_val (take count (seen s0 xs)))"
  shows "read_result (varint_spec 10 (seen s0 xs)) s0 xs (varint64_slow_loop next_chunk count result s)"
  using assms
proof (induction "10 - count" arbitrary: count s result)
  case 0
  then show ?case by (subst varint64_slow_loop.simps) (auto simp: read_result_def varint_spec_def)
next
  case (Suc k)
  let ?p = "seen s0 xs"
  have at: "coded_at s (drop count xs)" and seen: "seen s (drop count xs) = drop count ?p"
    using Suc.prems(1) read_to_seen by (auto simp: read_to_def)
  obtain s' where s': "fill_buffer next_chunk s = Some (Ok (drop count ?p \<noteq> [], s'))" "read_to 0 s (drop count xs) s'"
    "drop count ?p \<noteq> [] \<longrightarrow> ci_buffer s' \<noteq> []" using fill_buffer_spec [OF at] seen by auto
  have to: "read_to count s0 xs s'" using read_to_trans [OF Suc.prems(1) s'(2)] by simp
  show ?case
  proof (cases "count < length ?p")
    case False
    then have "length ?p \<le> vlead ?p" using Suc.prems(2) by simp
    then show ?thesis using False Suc(2) s'(1) to
      by (subst varint64_slow_loop.simps) (auto simp: returns_def read_result_def varint_spec_def)
  next
    case True
    then obtain b buf where buf: "ci_buffer s' = b # buf" using s'(3) by (auto simp: neq_Nil_conv)
    have at': "coded_at s' (drop count xs)" using to by (simp add: read_to_def)
    have "take 1 (ci_buffer s') = take 1 (seen s' (drop count xs))" using seen_buffer [OF at'] buf by auto
    then have b: "b = ?p ! count" using read_to_seen [OF to] buf True by (simp add: take_Suc_conv_app_nth hd_drop_conv_nth take_Suc)
    have count: "count < 10" using Suc(2) by simp
    let ?result = "of_nat (varint_val (take (Suc count) ?p)) :: u64"
    have "varint_val (take count ?p) < 2 ^ (7 * count)" using varint_val_less [of "take count ?p"] True by simp
    then have result: "result OR push_bit (7 * count) (ucast ((ucast b :: u32) AND 0x7F)) = ?result"
      using True by (simp add: Suc.prems(4) low_group or_next_group varint_val_take_Suc b)
    have next_s: "read_to (Suc count) s0 xs (Advance 1 s')"
      using read_to_trans [OF to advance_read_to [OF at', of 1]] buf by simp
    have loop: "varint64_slow_loop next_chunk count result s =
      (if unat b < 128 then Ok (Some ?result, Advance 1 s') else varint64_slow_loop next_chunk (count + 1) ?result (Advance 1 s'))"
      using count s'(1) True buf result by (subst varint64_slow_loop.simps) (simp add: returns_def and_128_zero32 Let_def)
    show ?thesis
    proof (cases "unat b < 128")
      case here: True
      then have "vlead ?p = count" using vlead_lead [of count ?p] Suc.prems(2) b by (cases "count = vlead ?p") simp_all
      then show ?thesis using here loop next_s True Suc(2) by (auto simp: read_result_def varint_spec_def vvalue_def)
    next
      case False
      then have "count < vlead ?p" using vlead_end [of ?p] Suc.prems(2) b True by (cases "count = vlead ?p") simp_all
      then show ?thesis using False loop Suc(1) [of "count + 1" "Advance 1 s'" ?result] next_s Suc(2) by simp
    qed
  qed
qed

end


lemma varint_fits_lead: "varint_fits s \<Longrightarrow> ci_buffer s \<noteq> [] \<and> (10 \<le> vlead (ci_buffer s) \<or> vlead (ci_buffer s) < length (ci_buffer s))"
proof -
  assume f: "varint_fits s"
  then have ne: "ci_buffer s \<noteq> []" by (auto simp: varint_fits_def BufferSize_def)
  have "unat (last (ci_buffer s)) < 128 \<Longrightarrow> vlead (ci_buffer s) < length (ci_buffer s)"
    using vlead_lead [of "length (ci_buffer s) - 1" "ci_buffer s"] vlead_le [of "ci_buffer s"] ne
    by (cases "vlead (ci_buffer s) = length (ci_buffer s)") (simp_all add: last_conv_nth)
  moreover have "last (ci_buffer s) AND 0x80 = 0 \<Longrightarrow> unat (last (ci_buffer s)) < 128"
  proof -
    assume z: "last (ci_buffer s) AND 0x80 = 0"
    have "\<forall>n \<in> set [0..<256]. ((of_nat n :: byte) AND 0x80 = 0) = (n < 128)" by code_simp
    moreover have "unat (last (ci_buffer s)) \<in> set [0..<256]" using unat_byte_less [of "last (ci_buffer s)"] by simp
    ultimately have "((of_nat (unat (last (ci_buffer s))) :: byte) AND 0x80 = 0) = (unat (last (ci_buffer s)) < 128)" by (rule bspec)
    with z show ?thesis by simp
  qed
  moreover have "10 \<le> length (ci_buffer s) \<Longrightarrow> 10 \<le> vlead (ci_buffer s) \<or> vlead (ci_buffer s) < length (ci_buffer s)" by linarith
  ultimately show ?thesis using f ne by (auto simp: varint_fits_def BufferSize_def)
qed

lemma varint_spec_extend:
  assumes "10 \<le> vlead p \<or> vlead p < length p"
  shows "varint_spec 10 (p @ q) = varint_spec 10 p"
proof (cases "vlead p < length p")
  case True
  then show ?thesis using vlead_prefix [of p "length p" q] vvalue_prefix [of p "length p" q] by (simp add: varint_spec_def)
next
  case False
  then show ?thesis using assms vlead_append_ge [of p q] by (simp add: varint_spec_def)
qed

context zero_copy_input begin

lemma seen_spec:
  assumes "coded_at s xs" and "10 \<le> vlead (ci_buffer s) \<or> vlead (ci_buffer s) < length (ci_buffer s)"
  shows "varint_spec 10 (seen s xs) = varint_spec 10 (ci_buffer s)"
proof -
  obtain ys where "seen s xs = ci_buffer s @ ys" using seen_buffer [OF assms(1)] by blast
  then show ?thesis using varint_spec_extend [OF assms(2)] by simp
qed

lemma read_result_ok: "read_to n s xs s' \<Longrightarrow> read_result (Ok (x, n)) s xs (Ok (Some x, s'))"
  by (auto simp: read_result_def)

lemma read_result_stop: "coded_at s xs \<Longrightarrow> spec = Null \<or> spec = OOB \<Longrightarrow> read_result spec s xs (Ok (None, s))"
  using read_to_refl [of s xs] by (auto simp: read_result_def)

lemma from_array_result:
  assumes "coded_at s xs" and "10 \<le> vlead (ci_buffer s) \<or> vlead (ci_buffer s) < length (ci_buffer s)"
    and "r = (if 10 \<le> vlead (ci_buffer s) then Ok (None, over) else if length (ci_buffer s) \<le> vlead (ci_buffer s) then OOB
      else Ok (Some (of_nat (vvalue (ci_buffer s))), Suc (vlead (ci_buffer s))))"
  shows "read_result (varint_spec 10 (seen s xs)) s xs
    (pbind r (\<lambda>(v, n). case v of None \<Rightarrow> Ok (None, s) | Some v \<Rightarrow> Ok (Some v, Advance (int n) s)))"
  unfolding seen_spec [OF assms(1,2)] using assms advance_read_to [OF assms(1), of "Suc (vlead (ci_buffer s))"]
  by (auto simp: varint_spec_def intro: read_result_stop read_result_ok)

lemma slow_result:
  assumes "coded_at s xs"
  shows "read_result (varint_spec 10 (seen s xs)) s xs (ReadVarint64Slow next_chunk s)"
  using varint64_slow_loop_spec [OF read_to_refl [OF assms], of 0] by (simp add: ReadVarint64Slow_def)

lemma ReadVarint64Fallback_spec:
  assumes "coded_at s xs" and "ci_buffer s = [] \<or> 0 < vlead (ci_buffer s)"
  shows "read_result (varint_spec 10 (seen s xs)) s xs (ReadVarint64Fallback next_chunk s)"
proof (cases "varint_fits s")
  case True
  then have "1 \<le> vlead (ci_buffer s)" "10 \<le> vlead (ci_buffer s) \<or> vlead (ci_buffer s) < length (ci_buffer s)"
    using varint_fits_lead [of s] assms(2) by auto
  then show ?thesis using from_array_result [OF assms(1) _ varint64_chain_spec [of 1 "ci_buffer s"]] True
    by (simp add: ReadVarint64Fallback_def ReadVarint64FromArray_def)
qed (use slow_result [OF assms(1)] in \<open>simp add: ReadVarint64Fallback_def\<close>)

lemma first_byte:
  assumes "coded_at s xs" and "ci_buffer s \<noteq> []" and "unat (hd (ci_buffer s)) < 128"
  shows "varint_spec 10 (seen s xs) = Ok (ucast (hd (ci_buffer s)) :: 'a::len word, 1)" "read_to 1 s xs (Advance 1 s)"
proof -
  have v: "vlead (ci_buffer s) = 0" using vlead_0 [OF assms(2)] assms by (simp add: hd_conv_nth)
  then have "(varint_spec 10 (seen s xs) :: ('a word \<times> nat) pres) = varint_spec 10 (ci_buffer s)" using seen_spec [OF assms(1)] assms(2) by simp
  then show "varint_spec 10 (seen s xs) = Ok (ucast (hd (ci_buffer s)) :: 'a word, 1)"
    using v assms(2) vvalue_0 [OF assms(2) v, where ?'a = 'a] by (simp add: varint_spec_def [of 10 "ci_buffer s"] hd_conv_nth)
  have "1 \<le> length (ci_buffer s)" using assms(2) by (cases "ci_buffer s") simp_all
  then show "read_to 1 s xs (Advance 1 s)" using advance_read_to [OF assms(1), of 1] by simp
qed

lemma not_first: "\<not> (ci_buffer s \<noteq> [] \<and> unat (hd (ci_buffer s)) < 128) \<Longrightarrow> ci_buffer s = [] \<or> 0 < vlead (ci_buffer s)"
  using vlead_0 [of "ci_buffer s"] by (cases "ci_buffer s = []") (simp_all add: hd_conv_nth)

lemma ReadVarint64_spec:
  assumes "coded_at s xs"
  shows "read_result (varint_spec 10 (seen s xs)) s xs (ReadVarint64 next_chunk s)"
proof (cases "ci_buffer s \<noteq> [] \<and> unat (hd (ci_buffer s)) < 128")
  case True
  then show ?thesis using first_byte(1) [OF assms, where ?'a = 64] first_byte(2) [OF assms] read_result_ok [of 1 s xs "Advance 1 s"] by (simp add: ReadVarint64_def)
next
  case False
  then show ?thesis using ReadVarint64Fallback_spec [OF assms not_first [OF False]] by (simp only: ReadVarint64_def False if_False)
qed

lemma read_result_map:
  assumes "read_result spec s xs r" and "spec' = pbind spec (\<lambda>(x, n). Ok (f x, n))" and "spec = Null \<or> spec = OOB \<or> (\<exists>x. spec = Ok x)"
  shows "read_result spec' s xs (pbind r (\<lambda>(v, s). Ok (map_option f v, s)))"
  using assms by (auto simp: read_result_def split: pres.splits)

lemma varint_spec_cases:
  fixes r :: "('a::len word \<times> nat) pres"
  shows "r = varint_spec m p \<Longrightarrow> r = Null \<or> r = OOB \<or> (\<exists>x. r = Ok x)"
  by (simp add: varint_spec_def)

lemma varint_spec_32: "(varint_spec m p :: (u32 \<times> nat) pres) = pbind (varint_spec m p :: (u64 \<times> nat) pres) (\<lambda>(x, n). Ok (ucast x, n))"
proof -
  have "ucast (of_nat n :: u64) = (of_nat n :: u32)" for n by (rule bit_word_eqI) (auto simp: bit_simps)
  then show ?thesis by (simp add: varint_spec_def)
qed

lemma ReadVarint32_spec:
  assumes "coded_at s xs"
  shows "read_result (varint_spec 10 (seen s xs)) s xs (ReadVarint32 next_chunk s)"
proof (cases "ci_buffer s \<noteq> [] \<and> unat (hd (ci_buffer s)) < 128")
  case True
  then show ?thesis using first_byte(1) [OF assms, where ?'a = 32] first_byte(2) [OF assms] read_result_ok [of 1 s xs "Advance 1 s"]
    by (cases "ci_buffer s") (auto simp: ReadVarint32_def)
next
  case out: False
  let ?v = "(case ci_buffer s of [] \<Rightarrow> 0 | b # _ \<Rightarrow> ucast b) :: u32"
  have e: "ReadVarint32 next_chunk s = ReadVarint32Fallback next_chunk ?v s"
    using out by (cases "ci_buffer s") (auto simp: ReadVarint32_def)
  show ?thesis
  proof (cases "varint_fits s")
    case True
    then have v: "0 < vlead (ci_buffer s)" "10 \<le> vlead (ci_buffer s) \<or> vlead (ci_buffer s) < length (ci_buffer s)" "?v = ucast (ci_buffer s ! 0)"
      using varint_fits_lead [of s] not_first [OF out] by (auto split: list.splits)
    then show ?thesis using from_array_result [OF assms v(2) ReadVarint32FromArray_spec [OF v(1,3)]] True
      by (simp add: e ReadVarint32Fallback_def)
  next
    case False
    have "read_result (varint_spec 10 (seen s xs)) s xs (ReadVarint32Slow next_chunk s)"
      unfolding ReadVarint32Slow_def
      by (rule read_result_map [OF ReadVarint64Fallback_spec [OF assms not_first [OF out]] varint_spec_32 varint_spec_cases [OF refl]])
    then show ?thesis using False by (simp add: e ReadVarint32Fallback_def)
  qed
qed

end


context zero_copy_input begin

text \<open>Bytes.\<close>

lemma ReadRaw_spec:
  assumes "coded_at s xs"
  obtains s' where "ReadRaw next_chunk (int n) s = Ok (n \<le> length (seen s xs), take n (seen s xs), s')"
    "read_to (min n (length (seen s xs))) s xs s'"
  using read_loop_spec [OF assms, of n "[]"] by (auto simp: ReadRaw_def returns_def)

lemma buffer_reads:
  assumes "coded_at s xs" and "n \<le> length (ci_buffer s)"
  shows "n \<le> length (seen s xs)" "take n (ci_buffer s) = take n (seen s xs)" "read_to n s xs (Advance (int n) s)"
  using seen_buffer [OF assms(1)] assms(2) advance_read_to [OF assms] by auto

lemma ReadString_spec:
  assumes "coded_at s xs"
  obtains s' where "ReadString next_chunk buffer (int n) s = Ok (n \<le> length (seen s xs), take n (seen s xs), s')"
    "read_to (min n (length (seen s xs))) s xs s'"
proof (cases "n \<le> length (ci_buffer s)")
  case True
  then show thesis using that buffer_reads [OF assms True]
    by (simp add: ReadString_def BufferSize_def min_absorb1)
next
  case False
  then show thesis using that read_loop_spec [OF assms, of n "[]"]
    by (auto simp: ReadString_def ReadStringFallback_def returns_def BufferSize_def)
qed

lemma load_take: "4 \<le> length p \<Longrightarrow> UnalignedLoad32 (take 4 p) = UnalignedLoad32 p"
    "8 \<le> length p \<Longrightarrow> UnalignedLoad64 (take 8 p) = UnalignedLoad64 p"
  by (simp_all add: UnalignedLoad32_def UnalignedLoad64_def)

lemma ReadLittleEndian32_spec:
  assumes "coded_at s xs"
  shows "read_result (pbind (UnalignedLoad32 (seen s xs)) (\<lambda>v. Ok (v, 4))) s xs (ReadLittleEndian32 next_chunk s)"
proof (cases "4 \<le> length (ci_buffer s)")
  case True
  then show ?thesis using buffer_reads [OF assms True] load_take(1) [of "ci_buffer s"] load_take(1) [of "seen s xs"]
    by (auto simp: ReadLittleEndian32_def BufferSize_def UnalignedLoad32_def read_result_def)
next
  case False
  obtain s' where s': "ReadRaw next_chunk (int 4) s = Ok (4 \<le> length (seen s xs), take 4 (seen s xs), s')"
    "read_to (min 4 (length (seen s xs))) s xs s'" using ReadRaw_spec [OF assms] .
  show ?thesis
  proof (cases "4 \<le> length (seen s xs)")
    case True
    then show ?thesis using s' False
      by (simp add: ReadLittleEndian32_def ReadLittleEndian32Fallback_def BufferSize_def UnalignedLoad32_def read_result_def min_absorb1)
  next
    case short: False
    then show ?thesis using s' False
      by (auto simp: ReadLittleEndian32_def ReadLittleEndian32Fallback_def BufferSize_def UnalignedLoad32_def read_result_def)
  qed
qed

lemma ReadLittleEndian64_spec:
  assumes "coded_at s xs"
  shows "read_result (pbind (UnalignedLoad64 (seen s xs)) (\<lambda>v. Ok (v, 8))) s xs (ReadLittleEndian64 next_chunk s)"
proof (cases "8 \<le> length (ci_buffer s)")
  case True
  then show ?thesis using buffer_reads [OF assms True] load_take(2) [of "ci_buffer s"] load_take(2) [of "seen s xs"]
    by (auto simp: ReadLittleEndian64_def BufferSize_def UnalignedLoad64_def read_result_def)
next
  case False
  obtain s' where s': "ReadRaw next_chunk (int 8) s = Ok (8 \<le> length (seen s xs), take 8 (seen s xs), s')"
    "read_to (min 8 (length (seen s xs))) s xs s'" using ReadRaw_spec [OF assms] .
  show ?thesis
  proof (cases "8 \<le> length (seen s xs)")
    case True
    then show ?thesis using s' False
      by (simp add: ReadLittleEndian64_def ReadLittleEndian64Fallback_def BufferSize_def UnalignedLoad64_def read_result_def min_absorb1)
  next
    case short: False
    then show ?thesis using s' False
      by (auto simp: ReadLittleEndian64_def ReadLittleEndian64Fallback_def BufferSize_def UnalignedLoad64_def read_result_def)
  qed
qed

text \<open>Tags: no tag is 0, and at the end of the message the flag says so.\<close>

lemma flags_kept [simp]:
  "coded_at (s\<lparr>ci_last_tag := t\<rparr>) xs = coded_at s xs" "coded_at (s\<lparr>ci_legitimate_message_end := b\<rparr>) xs = coded_at s xs"
  "read_to n s0 xs (s\<lparr>ci_last_tag := t\<rparr>) = read_to n s0 xs s" "read_to n s0 xs (s\<lparr>ci_legitimate_message_end := b\<rparr>) = read_to n s0 xs s"
  by (simp_all add: coded_at_def positions_ok_def CurrentPosition_def closest_limit_def BufferSize_def read_to_def moved_def cong: option.case_cong)

definition tag_result :: "'s coded_input \<Rightarrow> byte list \<Rightarrow> (u32 \<times> 's coded_input) pres \<Rightarrow> bool" where
  "tag_result s xs r \<longleftrightarrow> (\<exists>tag s'. r = Ok (tag, s') \<and> (case varint_spec 10 (seen s xs) of
     Ok (x, n) \<Rightarrow> tag = x \<and> read_to n s xs s' | _ \<Rightarrow> tag = 0 \<and> (\<exists>n. read_to n s xs s'))
     \<and> (seen s xs = [] \<and> CurrentPosition s < ci_total_bytes_limit s \<longrightarrow> ci_legitimate_message_end s' \<and> read_to 0 s xs s'))"

lemma tag_of_varint:
  assumes "read_result (varint_spec 10 (seen s xs)) s xs r" and "seen s xs \<noteq> []"
  shows "tag_result s xs (pbind r (\<lambda>(v, s). Ok (case v of None \<Rightarrow> 0 | Some v \<Rightarrow> v, s)))"
  using varint_spec_cases [OF refl, of 10 "seen s xs", where ?'a = 32] assms by (auto simp: read_result_def tag_result_def)

lemma read_result_from: "read_to 0 s xs s' \<Longrightarrow> read_result spec s' xs r \<Longrightarrow> read_result spec s xs r"
proof -
  assume a: "read_to 0 s xs s'" "read_result spec s' xs r"
  have "read_to n s xs s2" if "read_to n s' xs s2" for n s2 using read_to_trans [OF a(1), of n s2] that by simp
  then show ?thesis using a(2) unfolding read_result_def by (cases spec) auto
qed

lemma tag_of_varint64:
  assumes "read_result (varint_spec 10 (seen s xs)) s xs r" and "seen s xs \<noteq> []"
  shows "tag_result s xs (pbind r (\<lambda>(v, s). Ok (case v of None \<Rightarrow> 0 | Some v \<Rightarrow> ucast (v :: u64), s)))"
proof -
  have "pbind (pbind r (\<lambda>(v, s). Ok (map_option ucast v, s))) (\<lambda>(v, s). Ok (case v of None \<Rightarrow> 0 | Some v \<Rightarrow> v, s))
      = pbind r (\<lambda>(v, s). Ok (case v of None \<Rightarrow> 0 :: u32 | Some v \<Rightarrow> ucast v, s))"
    by (cases r) (auto split: option.splits)
  then show ?thesis using tag_of_varint [OF read_result_map [OF assms(1) varint_spec_32 varint_spec_cases [OF refl]] assms(2)] by simp
qed

lemma seen_nonempty: "coded_at s xs \<Longrightarrow> ci_buffer s \<noteq> [] \<Longrightarrow> seen s xs \<noteq> []"
  using seen_buffer [of s xs] by auto

lemma varint_spec_Nil [simp]: "0 < m \<Longrightarrow> varint_spec m [] = OOB"
  by (simp add: varint_spec_def)

lemma ReadTag_at_end:
  assumes "coded_at s xs" and "ci_buffer s = []" and "seen s xs = []"
  shows "tag_result s xs (Coded_ReadTagFallback next_chunk 0 s)"
proof (cases "(ci_after_limit s \<noteq> [] \<or> ci_total_bytes_read s = ci_current_limit s)
    \<and> ci_total_bytes_read s - int (length (ci_after_limit s)) < ci_total_bytes_limit s")
  case True
  then show ?thesis using assms read_to_refl [OF assms(1)]
    by (auto simp: Coded_ReadTagFallback_def varint_fits_def BufferSize_def tag_result_def)
next
  case False
  then have e: "Coded_ReadTagFallback next_chunk 0 s = Coded_ReadTagSlow next_chunk s"
    using assms(2) by (auto simp: Coded_ReadTagFallback_def varint_fits_def BufferSize_def)
  show ?thesis using assms(1,2)
  proof (cases rule: refresh_read_to)
    case (stop s')
    have "CurrentPosition s' = CurrentPosition s" "ci_total_bytes_limit s' = ci_total_bytes_limit s"
      using stop(2) by (simp_all add: read_to_def moved_def)
    then have "ci_total_bytes_read s' - int (length (ci_after_limit s')) = CurrentPosition s"
      using stop(4) by (simp add: CurrentPosition_def BufferSize_def)
    then show ?thesis using e stop assms(2,3) \<open>ci_total_bytes_limit s' = _\<close>
      by (auto simp: Coded_ReadTagSlow_def tag_result_def)
  next
    case (go_on s')
    have at': "coded_at s' xs" and seen': "seen s' xs = []" using go_on(2) read_to_seen [OF go_on(2)] assms(3) by (simp_all add: read_to_def)
    then have "ci_buffer s' = []" using seen_nonempty by blast
    have "ReadVarint64 next_chunk s' = ReadVarint64Fallback next_chunk s'" using \<open>ci_buffer s' = []\<close> by (simp add: ReadVarint64_def)
    have "read_result OOB s' xs (ReadVarint64 next_chunk s')" using ReadVarint64_spec [OF at'] seen' by simp
    then obtain n s2 where s2: "ReadVarint64 next_chunk s' = Ok (None, s2)" "read_to n s' xs s2" by (auto simp: read_result_def)
    then have "n = 0" using seen' by (simp add: read_to_def)
    then have "read_to 0 s xs s2" using read_to_trans [OF go_on(2), of 0 s2] s2(2) by simp
    moreover have "\<not> CurrentPosition s < ci_total_bytes_limit s"
    proof -
      have s: "ci_after_limit s = []" "ci_total_bytes_read s \<noteq> ci_current_limit s" using Refresh_after [OF go_on(1)] by simp_all
      have "ci_after_limit s' \<noteq> []" using go_on(3) \<open>ci_buffer s' = []\<close> s(1) assms(2) by (auto simp: turns_def)
      moreover have after: "length (ci_after_limit s') = nat (ci_total_bytes_read s' - closest_limit s')"
        using at' by (simp add: coded_at_def positions_ok_def)
      ultimately have "0 < nat (ci_total_bytes_read s' - closest_limit s')" by (metis length_greater_0_conv)
      then have "CurrentPosition s' = closest_limit s'" using \<open>ci_buffer s' = []\<close> after
        by (simp add: CurrentPosition_def BufferSize_def)
      moreover have "CurrentPosition s' = CurrentPosition s" "closest_limit s' = closest_limit s"
        using go_on(2) by (simp_all add: read_to_def moved_def closest_limit_def)
      ultimately have "CurrentPosition s = min (ci_current_limit s) (ci_total_bytes_limit s)" by (simp add: closest_limit_def)
      moreover have "CurrentPosition s = ci_total_bytes_read s" using s(1) assms(2) by (simp add: CurrentPosition_def BufferSize_def)
      ultimately show ?thesis using s(2) by linarith
    qed
    ultimately show ?thesis using e go_on(1) s2(1) assms(2) by (auto simp: Coded_ReadTagSlow_def tag_result_def assms(3))
  qed
qed

lemma ReadTag_spec:
  assumes "coded_at s xs"
  shows "tag_result s xs (Coded_ReadTag next_chunk s)"
proof -
  have "tag_result s xs (ReadTagNoLastTag next_chunk s)"
  proof (cases "ci_buffer s")
    case Nil
    show ?thesis
    proof (cases "seen s xs = []")
      case True
      then show ?thesis using ReadTag_at_end [OF assms Nil True] Nil by (simp add: ReadTagNoLastTag_def)
    next
      case False
      have "\<not> (BufferSize s = 0 \<and> (ci_after_limit s \<noteq> [] \<or> ci_total_bytes_read s = ci_current_limit s)
          \<and> ci_total_bytes_read s - int (length (ci_after_limit s)) < ci_total_bytes_limit s)"
        using seen_buffer [OF assms] False Nil by (auto simp: closest_limit_def)
      then have e: "ReadTagNoLastTag next_chunk s = Coded_ReadTagSlow next_chunk s"
        using Nil by (auto simp: ReadTagNoLastTag_def Coded_ReadTagFallback_def varint_fits_def BufferSize_def)
      show ?thesis using assms Nil
      proof (cases rule: refresh_read_to)
        case (stop s')
        then show ?thesis using False by simp
      next
        case (go_on s')
        have at': "coded_at s' xs" and seen': "seen s' xs = seen s xs" using go_on(2) read_to_seen [OF go_on(2)] by (simp_all add: read_to_def)
        have "Coded_ReadTagSlow next_chunk s = pbind (ReadVarint64 next_chunk s') (\<lambda>(v, s). Ok (case v of None \<Rightarrow> 0 | Some v \<Rightarrow> ucast v, s))"
          using go_on(1) Nil by (simp add: Coded_ReadTagSlow_def)
        then show ?thesis using tag_of_varint64 [OF read_result_from [OF go_on(2) ReadVarint64_spec [OF at', unfolded seen']] False] e by simp
      qed
    qed
  next
    case (Cons b buf)
    then have ne: "seen s xs \<noteq> []" using seen_nonempty [OF assms] by simp
    show ?thesis
    proof (cases "unat b < 128")
      case True
      then have "tag_result s xs (Ok (ucast b, Advance 1 s))"
        using first_byte(1) [OF assms, where ?'a = 32] first_byte(2) [OF assms] Cons ne by (simp add: tag_result_def)
      then show ?thesis using Cons True by (simp add: ReadTagNoLastTag_def)
    next
      case False
      moreover have "(ucast b :: u32) = 0 \<Longrightarrow> unat b = 0" by (metis unat_ucast_byte32 unsigned_0)
      ultimately have b: "(ucast b :: u32) \<noteq> 0" "0 < vlead (ci_buffer s)" using Cons not_first [of s] by auto
      have e: "ReadTagNoLastTag next_chunk s = Coded_ReadTagFallback next_chunk (ucast b) s"
        using Cons False by (simp add: ReadTagNoLastTag_def)
      show ?thesis
      proof (cases "varint_fits s")
        case True
        then have v: "10 \<le> vlead (ci_buffer s) \<or> vlead (ci_buffer s) < length (ci_buffer s)" "ucast b = (ucast (ci_buffer s ! 0) :: u32)"
          using varint_fits_lead [of s] Cons by simp_all
        have "Coded_ReadTagFallback next_chunk (ucast b) s = pbind (pbind (ReadVarint32FromArray (ucast b) (ci_buffer s))
            (\<lambda>(v, n). case v of None \<Rightarrow> Ok (None, s) | Some v \<Rightarrow> Ok (Some v, Advance (int n) s)))
            (\<lambda>(v, s). Ok (case v of None \<Rightarrow> 0 | Some v \<Rightarrow> v, s))"
          using True b by (auto simp: Coded_ReadTagFallback_def pbind_assoc intro!: arg_cong2 [of _ _ _ _ pbind] split: option.splits)
        then show ?thesis unfolding e
          using tag_of_varint [OF from_array_result [OF assms v(1) ReadVarint32FromArray_spec [OF b(2) v(2)]] ne] by simp
      next
        case out: False
        have "Coded_ReadTagFallback next_chunk (ucast b) s = pbind (ReadVarint64 next_chunk s) (\<lambda>(v, s). Ok (case v of None \<Rightarrow> 0 | Some v \<Rightarrow> ucast v, s))"
          using out Cons by (simp add: Coded_ReadTagFallback_def Coded_ReadTagSlow_def BufferSize_def)
        then show ?thesis using tag_of_varint64 [OF ReadVarint64_spec [OF assms] ne] e by simp
      qed
    qed
  qed
  then show ?thesis by (auto simp: Coded_ReadTag_def tag_result_def cong: pres.case_cong)
qed

text \<open>Limits.\<close>

lemma coded_at_buffers:
  assumes "coded_at s xs" and "positions_ok s'" and "ci_buffer s' @ ci_after_limit s' = ci_buffer s @ ci_after_limit s"
    and "ci_input s' = ci_input s" and "ci_overflow_bytes s' = ci_overflow_bytes s"
    and "ci_input s = None \<longrightarrow> ci_current_limit s' \<le> ci_total_bytes_read s'"
  shows "coded_at s' xs"
proof -
  have e: "ci_buffer s' @ ci_after_limit s' @ zs = ci_buffer s @ ci_after_limit s @ zs" for zs by (metis append_assoc assms(3))
  show ?thesis using assms(1,2,4-6) unfolding coded_at_def e assms(3) by (cases "ci_input s") auto
qed

lemma change_limits:
  assumes "coded_at s xs" and "CurrentPosition s \<le> min c l" and "c \<le> int_max" and "l \<le> int_max" and "ci_input s = None \<longrightarrow> c \<le> ci_total_bytes_read s"
  obtains s' where "RecomputeBufferLimits (s\<lparr>ci_current_limit := c, ci_total_bytes_limit := l\<rparr>) = Ok s'" "coded_at s' xs"
    "CurrentPosition s' = CurrentPosition s" "ci_current_limit s' = c" "ci_total_bytes_limit s' = l"
    "ci_input s' = ci_input s" "ci_total_bytes_read s' = ci_total_bytes_read s"
    "ci_legitimate_message_end s' = ci_legitimate_message_end s"
proof -
  let ?s = "s\<lparr>ci_current_limit := c, ci_total_bytes_limit := l\<rparr>"
  define buf where "buf = ci_buffer s @ ci_after_limit s"
  define n where "n = length buf - nat (ci_total_bytes_read s - min c l)"
  let ?s' = "?s\<lparr>ci_buffer := take n buf, ci_after_limit := drop n buf\<rparr>"
  have cl: "closest_limit ?s = min c l" "closest_limit ?s' = min c l" by (simp_all add: closest_limit_def)
  have pos: "CurrentPosition s = ci_total_bytes_read s - int (length buf)" by (simp add: CurrentPosition_def BufferSize_def buf_def)
  have "RecomputeBufferLimits ?s = Ok ?s'"
    using RecomputeBufferLimits_ok [of ?s] assms(2) pos cl by (simp add: n_def buf_def)
  moreover have pos': "CurrentPosition ?s' = CurrentPosition s"
    unfolding pos by (simp add: CurrentPosition_def BufferSize_def)
  moreover have "coded_at ?s' xs"
  proof -
    have p: "positions_ok s" using assms(1) by (simp add: coded_at_def)
    have "length (drop n buf) = nat (ci_total_bytes_read s - min c l)"
    proof -
      have "nat (ci_total_bytes_read s - min c l) \<le> length buf" using assms(2) pos by linarith
      then show ?thesis by (simp add: n_def)
    qed
    then have "positions_ok ?s'"
      using p assms(2-4) pos' cl by (simp add: positions_ok_def)
    moreover have "ci_buffer ?s' @ ci_after_limit ?s' = buf" by simp
    ultimately show ?thesis using assms(5) by (intro coded_at_buffers [OF assms(1)]) (simp_all add: buf_def)
  qed
  ultimately show thesis using that by simp
qed

lemma seen_limits:
  assumes "CurrentPosition s' = CurrentPosition s"
  shows "seen s' xs = take (nat (closest_limit s' - CurrentPosition s)) xs"
  using assms by (simp add: seen_def limit_left_def)

lemma PushLimit_spec:
  assumes "coded_at s xs"
  obtains s' where "PushLimit (int n) s = Ok (ci_current_limit s, s')" "coded_at s' xs" "seen s' xs = take n (seen s xs)"
    "CurrentPosition s' = CurrentPosition s" "ci_total_bytes_limit s' = ci_total_bytes_limit s" "ci_input s' = ci_input s"
    "ci_total_bytes_read s' = ci_total_bytes_read s" "ci_current_limit s' \<le> ci_current_limit s"
proof (cases "int n \<le> int_max - CurrentPosition s \<and> int n < ci_current_limit s - CurrentPosition s")
  case True
  have p: "positions_ok s" using assms by (simp add: coded_at_def)
  have c: "ci_input s = None \<longrightarrow> CurrentPosition s + int n \<le> ci_total_bytes_read s"
    using assms True by (auto simp: coded_at_def)
  have same: "s\<lparr>ci_current_limit := c, ci_total_bytes_limit := ci_total_bytes_limit s\<rparr> = s\<lparr>ci_current_limit := c\<rparr>" for c by simp
  have "CurrentPosition s \<le> min (CurrentPosition s + int n) (ci_total_bytes_limit s)" "ci_total_bytes_limit s \<le> int_max"
    using p by (simp_all add: positions_ok_def closest_limit_def)
  then obtain s' where s': "RecomputeBufferLimits (s\<lparr>ci_current_limit := CurrentPosition s + int n\<rparr>) = Ok s'" "coded_at s' xs"
    "CurrentPosition s' = CurrentPosition s" "ci_current_limit s' = CurrentPosition s + int n" "ci_total_bytes_limit s' = ci_total_bytes_limit s"
    "ci_input s' = ci_input s" "ci_total_bytes_read s' = ci_total_bytes_read s"
    using change_limits [OF assms _ _ _ c, of "ci_total_bytes_limit s"] True unfolding same by auto
  have "nat (closest_limit s' - CurrentPosition s) = min n (limit_left s)"
    using True s'(4,5) by (auto simp: closest_limit_def limit_left_def min_def)
  then have "seen s' xs = take n (seen s xs)" using seen_limits [OF s'(3)] by (simp add: seen_def)
  then show thesis using that s' True by (simp add: PushLimit_def Let_def)
next
  case False
  have "limit_left s \<le> n" using False assms by (auto simp: coded_at_def positions_ok_def limit_left_def closest_limit_def)
  then have "seen s xs = take n (seen s xs)" by (simp add: seen_def)
  then show thesis using that [of s] False assms by (auto simp: PushLimit_def Let_def)
qed

lemma PopLimit_spec:
  assumes "coded_at s xs" and "CurrentPosition s \<le> old" and "old \<le> int_max" and "ci_input s = None \<longrightarrow> old \<le> ci_total_bytes_read s"
  obtains s' where "PopLimit old s = Ok s'" "coded_at s' xs"
    "CurrentPosition s' = CurrentPosition s" "ci_current_limit s' = old" "ci_total_bytes_limit s' = ci_total_bytes_limit s"
    "ci_input s' = ci_input s" "ci_total_bytes_read s' = ci_total_bytes_read s" "\<not> ci_legitimate_message_end s'"
proof -
  have p: "positions_ok s" using assms(1) by (simp add: coded_at_def)
  have same: "s\<lparr>ci_current_limit := c, ci_total_bytes_limit := ci_total_bytes_limit s\<rparr> = s\<lparr>ci_current_limit := c\<rparr>" for c by simp
  obtain s' where s': "RecomputeBufferLimits (s\<lparr>ci_current_limit := old\<rparr>) = Ok s'" "coded_at s' xs"
    "CurrentPosition s' = CurrentPosition s" "ci_current_limit s' = old" "ci_total_bytes_limit s' = ci_total_bytes_limit s"
    "ci_input s' = ci_input s" "ci_total_bytes_read s' = ci_total_bytes_read s"
    using change_limits [OF assms(1) _ assms(3) _ assms(4), of "ci_total_bytes_limit s"] p assms(2) unfolding same
    by (auto simp: positions_ok_def closest_limit_def)
  let ?s = "s'\<lparr>ci_legitimate_message_end := False\<rparr>"
  have "CurrentPosition ?s = CurrentPosition s'" by (simp add: CurrentPosition_def BufferSize_def)
  then show thesis using that [of ?s] s' by (simp add: PopLimit_def)
qed

text \<open>From the constructor to the destructor.\<close>

lemma CodedInputStream_spec:
  assumes "ok input"
  obtains s where "CodedInputStream next_chunk input = Ok s" "coded_at s (rest input)" "seen s (rest input) = take 2147483647 (rest input)"
    "CurrentPosition s = 0" "ci_current_limit s = int_max" "ci_total_bytes_limit s = int_max" "ci_input s \<noteq> None"
proof -
  let ?s = "\<lparr>ci_input = Some input, ci_buffer = [], ci_after_limit = [], ci_total_bytes_read = 0, ci_overflow_bytes = 0,
        ci_last_tag = 0, ci_legitimate_message_end = False, ci_current_limit = int_max,
        ci_total_bytes_limit = kDefaultTotalBytesLimit, ci_recursion_budget = default_recursion_limit,
        ci_recursion_limit = default_recursion_limit\<rparr>"
  have at: "coded_at ?s (rest input)"
    using assms by (simp add: coded_at_def positions_ok_def CurrentPosition_def BufferSize_def closest_limit_def kDefaultTotalBytesLimit_def)
  have "seen ?s (rest input) = take 2147483647 (rest input)"
    by (simp add: seen_def limit_left_def closest_limit_def CurrentPosition_def BufferSize_def kDefaultTotalBytesLimit_def)
  moreover have "CurrentPosition ?s = 0" by (simp add: CurrentPosition_def BufferSize_def)
  moreover obtain b s where s: "Refresh next_chunk ?s = Ok (b, s)" "read_to 0 ?s (rest input) s"
    using refresh_read_to [OF at] by (metis coded_input.select_convs(2))
  then have "CodedInputStream next_chunk input = Ok s" by (simp add: CodedInputStream_def)
  ultimately show thesis using that [of s] s(2) read_to_seen [OF s(2)]
    by (simp add: read_to_def moved_def kDefaultTotalBytesLimit_def)
qed

lemma Coded_destroy_spec:
  assumes "coded_at s xs" and "ci_input s \<noteq> None"
  obtains s' input where "Coded_destroy back_up s = Ok s'" "ci_input s' = Some input" "ok input" "rest input = xs"
proof -
  obtain input where i: "ci_input s = Some input" using assms(2) by blast
  obtain over where oi: "ok input" and o: "int (length over) = ci_overflow_bytes s"
    "xs = ci_buffer s @ ci_after_limit s @ over @ rest input"
    "ci_buffer s @ ci_after_limit s @ over = [] \<or> (\<exists>input0 used. ok input0
       \<and> next_chunk input0 = Ok (Some (used @ ci_buffer s @ ci_after_limit s @ over), input))"
    using assms(1) i unfolding coded_at_def by (simp del: append_is_Nil_conv) blast
  define left where "left = ci_buffer s @ ci_after_limit s @ over"
  have n: "BufferSize s + int (length (ci_after_limit s)) + ci_overflow_bytes s = int (length left)"
    using o(1) by (simp add: left_def BufferSize_def)
  show thesis
  proof (cases "left = []")
    case True
    then show ?thesis using that i oi o(2) n
      by (auto simp: Coded_destroy_def BackUpInputToCurrentPosition_def Let_def left_def)
  next
    case False
    then obtain input0 used where "ok input0" "next_chunk input0 = Ok (Some (used @ left), input)"
      using o(3) by (auto simp: left_def)
    then obtain input' where b: "back_up (int (length left)) input = Ok input'" "ok input'" "rest input' = left @ rest input"
      using back_up_next [of input0 "used @ left" input "length left"] by auto
    moreover have "xs = left @ rest input" using o(2) by (simp add: left_def)
    ultimately show ?thesis using that False by (simp add: Coded_destroy_def BackUpInputToCurrentPosition_def Let_def i n)
  qed
qed

text \<open>A length-delimited message: its length is a varint, and a limit around its bytes.\<close>

lemma ReadLengthAndPushLimit_spec:
  assumes "coded_at s xs" and "varint_spec 10 (seen s xs) = Ok (v :: u32, k)" and "unat v \<le> 2147483647"
  obtains s1 s' where "ReadLengthAndPushLimit next_chunk s = Ok (ci_current_limit s, s')" "read_to k s xs s1"
    "coded_at s' (drop k xs)" "seen s' (drop k xs) = take (unat v) (drop k (seen s xs))"
    "CurrentPosition s' = CurrentPosition s + int k" "ci_total_bytes_limit s' = ci_total_bytes_limit s"
    "ci_input s' = None \<longleftrightarrow> ci_input s = None" "ci_input s = None \<longrightarrow> ci_total_bytes_read s' = ci_total_bytes_read s"
proof -
  obtain s1 where s1: "ReadVarint32 next_chunk s = Ok (Some v, s1)" "read_to k s xs s1"
    using ReadVarint32_spec [OF assms(1)] by (auto simp: read_result_def assms(2))
  have at1: "coded_at s1 (drop k xs)" using s1(2) by (simp add: read_to_def)
  have "int (unat v) \<le> 2147483647" using assms(3) by linarith
  then have "signed_take_bit 31 (uint v) = uint v" by (intro signed_take_bit_int_eq_self order_trans [OF _ uint_ge_0]) simp_all
  then have "sint v = int (unat v)" by (simp add: sint_uint)
  obtain s' where s': "PushLimit (int (unat v)) s1 = Ok (ci_current_limit s1, s')" "coded_at s' (drop k xs)"
    "seen s' (drop k xs) = take (unat v) (seen s1 (drop k xs))"
    "CurrentPosition s' = CurrentPosition s1" "ci_total_bytes_limit s' = ci_total_bytes_limit s1" "ci_input s' = ci_input s1"
    "ci_total_bytes_read s' = ci_total_bytes_read s1" "ci_current_limit s' \<le> ci_current_limit s1"
    using PushLimit_spec [OF at1] by metis
  show thesis
    using that [OF _ s1(2) s'(2)] s' s1 read_to_seen [OF s1(2)] \<open>sint v = _\<close>
    by (simp add: ReadLengthAndPushLimit_def read_to_def moved_def)
qed

text \<open>Skipping bytes that are there.\<close>

lemma Coded_Skip_spec:
  assumes "coded_at s xs" and "n \<le> length (seen s xs)"
  obtains s' where "Coded_Skip skip byte_count (int n) s = Ok (True, s')" "read_to n s xs s'"
proof (cases "n \<le> length (ci_buffer s)")
  case True
  then show thesis using that buffer_reads [OF assms(1) True] by (simp add: Coded_Skip_def BufferSize_def)
next
  case False
  let ?k = "length (ci_buffer s)"
  obtain ys where ys: "seen s xs = ci_buffer s @ ys"
    "ci_after_limit s \<noteq> [] \<or> 0 < ci_overflow_bytes s \<or> closest_limit s \<le> ci_total_bytes_read s \<longrightarrow> ys = []"
    using seen_buffer [OF assms(1)] by blast
  then have "ys \<noteq> []" using False assms(2) by auto
  then have s: "ci_after_limit s = []" "\<not> 0 < ci_overflow_bytes s" "ci_total_bytes_read s < closest_limit s" using ys(2) by auto
  have p: "positions_ok s" using assms(1) by (simp add: coded_at_def)
  have "ci_input s \<noteq> None" using assms(1) s(3) unfolding coded_at_def closest_limit_def by (cases "ci_input s") auto
  then obtain input where i: "ci_input s = Some input" by blast
  have xs: "ok input" "xs = ci_buffer s @ rest input" "ci_overflow_bytes s = 0"
    using assms(1) i s(1,2) p by (auto simp: coded_at_def positions_ok_def)
  have left: "limit_left s = ?k + nat (closest_limit s - ci_total_bytes_read s)"
    using s p by (simp add: limit_left_def CurrentPosition_def BufferSize_def)
  then have m: "n - ?k \<le> length (rest input)" "int (n - ?k) \<le> closest_limit s - ci_total_bytes_read s"
    using assms(2) xs(2) False s(3) by (auto simp: seen_def min_def split: if_splits)
  obtain b input' where sk: "skip (int (n - ?k)) input = Ok (b, input')" "ok input'" "rest input' = drop (n - ?k) (rest input)"
    "\<not> b \<longrightarrow> n - ?k = 0 \<or> length (rest input) < n - ?k"
    using skip_ok [OF xs(1), of "n - ?k"] by blast
  then have b: b using m(1) False by auto
  let ?s = "s\<lparr>ci_buffer := [], ci_input := Some input', ci_total_bytes_read := ci_total_bytes_read s + int (n - ?k)\<rparr>"
  have "int n - int ?k = int (n - ?k)" using False by simp
  moreover have "closest_limit (s\<lparr>ci_buffer := []\<rparr>) = closest_limit s" by (simp add: closest_limit_def)
  ultimately have "Coded_Skip skip byte_count (int n) s = Ok (True, ?s)"
    using False s(1) i sk(1) b m(2) by (simp add: Coded_Skip_def BufferSize_def SkipFallback_def Let_def)
  moreover have "read_to n s xs ?s"
  proof -
    have pos: "CurrentPosition ?s = CurrentPosition s + int n" "CurrentPosition ?s = ci_total_bytes_read s + int (n - ?k)"
      using s(1) False by (simp_all add: CurrentPosition_def BufferSize_def of_nat_diff)
    have cl: "closest_limit ?s = closest_limit s" by (simp add: closest_limit_def)
    have "0 \<le> CurrentPosition s" "closest_limit s \<le> int_max" using p by (auto simp: positions_ok_def closest_limit_def)
    then have "0 \<le> CurrentPosition ?s" "CurrentPosition ?s \<le> closest_limit ?s" "ci_total_bytes_read ?s \<le> closest_limit ?s"
      "ci_total_bytes_read ?s \<le> int_max" using pos m(2) cl by simp_all
    then have "positions_ok ?s" using p s(1) xs(3) unfolding positions_ok_def by simp
    moreover have "drop n xs = rest input'" using xs(2) sk(3) False by simp
    ultimately have "coded_at ?s (drop n xs)" using s(1) xs(3) sk(2) by (simp add: coded_at_def)
    then show ?thesis using assms(2) pos i by (simp add: read_to_def moved_def)
  qed
  ultimately show thesis using that by blast
qed

end


section \<open>Over the stacks of streams\<close>

text \<open>What a reader leaves to the stream once it is destroyed.\<close>

definition gives_back :: "istream input_stream coded_input \<Rightarrow> byte list \<Rightarrow> bool" where
  "gives_back c xs \<longleftrightarrow> (\<exists>c' t. Coded_destroy stream_BackUp c = Ok c' \<and> ci_input c' = Some t \<and> istreams_ok t \<and> istream_rest t = xs)"

context zero_copy_input begin

lemma read_to_gives_back:
  assumes "read_to n s xs s'" and "ci_input s \<noteq> None"
  obtains c' t where "Coded_destroy back_up s' = Ok c'" "ci_input c' = Some t" "ok t" "rest t = drop n xs"
  using Coded_destroy_spec [of s' "drop n xs"] assms by (auto simp: read_to_def moved_def)

text \<open>The end of a message between its limit and the limit before it.\<close>

lemma message_end:
  assumes "coded_at m (body @ tail)" and "seen m (body @ tail) = body" and "ci_input m \<noteq> None"
    and "CurrentPosition m + int (length body) < ci_total_bytes_limit m" and "CurrentPosition m + int (length body) \<le> old" and "old \<le> int_max"
  obtains m' e p where "ReadString next_chunk [] (int (length body)) m = Ok (True, body, m')" "Coded_ReadTag next_chunk m' = Ok (0, e)"
    "CheckEntireMessageConsumedAndPopLimit old e = Ok (True, p)" "coded_at p tail" "CurrentPosition p = CurrentPosition m + int (length body)"
    "ci_current_limit p = old" "ci_total_bytes_limit p = ci_total_bytes_limit m" "ci_input p \<noteq> None"
proof -
  obtain m' where m': "ReadString next_chunk [] (int (length body)) m = Ok (True, body, m')" "read_to (length body) m (body @ tail) m'"
    by (rule ReadString_spec [OF assms(1), of "[]" "length body"]) (simp add: assms(2))
  have at': "coded_at m' tail" "seen m' tail = []" "CurrentPosition m' = CurrentPosition m + int (length body)"
      "ci_total_bytes_limit m' = ci_total_bytes_limit m" "ci_input m' \<noteq> None"
    using m'(2) read_to_seen [OF m'(2)] assms(2,3) by (simp_all add: read_to_def moved_def)
  then obtain e where e: "Coded_ReadTag next_chunk m' = Ok (0, e)" "ci_legitimate_message_end e" "read_to 0 m' tail e"
    using ReadTag_spec [OF at'(1)] assms(4) by (auto simp: tag_result_def)
  then have at_e: "coded_at e tail" "CurrentPosition e = CurrentPosition m + int (length body)" "ci_total_bytes_limit e = ci_total_bytes_limit m"
      "ci_input e \<noteq> None"
    using at' by (simp_all add: read_to_def moved_def)
  then have "CurrentPosition e \<le> old" "ci_input e = None \<longrightarrow> old \<le> ci_total_bytes_read e" using assms(5) by auto
  then obtain p where p: "PopLimit old e = Ok p" "coded_at p tail" "CurrentPosition p = CurrentPosition e" "ci_current_limit p = old"
      "ci_total_bytes_limit p = ci_total_bytes_limit e" "ci_input p = ci_input e"
    using PopLimit_spec [OF at_e(1) _ assms(6)] by metis
  have "CheckEntireMessageConsumedAndPopLimit old e = Ok (True, p)"
    using p(1) e(2) by (simp add: CheckEntireMessageConsumedAndPopLimit_def ConsumedEntireMessage_def)
  then show thesis using that [OF m'(1) e(1) _ p(2)] p(3-6) at_e by simp
qed

end

lemma gives_backI:
  assumes "istream.defaulted.streams.read_to n s xs s'" and "ci_input s \<noteq> None"
  shows "gives_back s' (drop n xs)"
  unfolding gives_back_def by (rule istream.defaulted.streams.read_to_gives_back [OF assms]) blast

lemma far_enough: "n \<le> k \<Longrightarrow> n \<le> length (take k xs) \<longleftrightarrow> n \<le> length xs" "n \<le> k \<Longrightarrow> take n (take k xs) = take n xs"
  by (auto simp: min_def)

lemma varint_spec_far:
  assumes k: "10 \<le> k"
  shows "(varint_spec 10 (take k xs) :: ('a::len word \<times> nat) pres) = varint_spec 10 xs"
proof -
  show ?thesis
  proof (cases "k < length xs")
    case True
    have "10 \<le> vlead (take k xs) \<or> vlead (take k xs) < length (take k xs)" using k True by auto
    then show ?thesis using varint_spec_extend [of "take k xs" "drop k xs", where ?'a = 'a] by simp
  qed simp
qed

lemma ReadString_back:
  assumes "istream.defaulted.streams.coded_at c xs" and "ci_input c \<noteq> None" and "n \<le> limit_left c"
  shows "\<exists>q. ReadString istream_Next buffer (int n) c = Ok (n \<le> length xs, take n xs, q) \<and> gives_back q (drop n xs)"
proof -
  have "drop (min n (length (take (limit_left c) xs))) xs = drop n xs" using assms(3) by (auto simp: min_def)
  then show ?thesis
    using istream.defaulted.streams.ReadString_spec [OF assms(1), of buffer n, unfolded istream.defaulted.streams.seen_def far_enough [OF assms(3)]]
      gives_backI [OF _ assms(2), of _ xs] by metis
qed

section \<open>Results\<close>

text \<open>C37: a reader over any stack of streams reads the flat bytes: \<^verbatim>\<open>ReadRaw\<close> and \<^verbatim>\<open>ReadString\<close> return the
  first \<open>n\<close> bytes, or all there are and false, \<^verbatim>\<open>Skip\<close> passes them, across the borders of the chunks; and when the
  reader is destroyed the stream stands exactly behind what was read, although the reader had taken whole chunks.\<close>

theorem coded_reads_flat:
  assumes "istreams_ok s" and "n \<le> 2147483647"
  shows "\<exists>c. CodedInputStream istream_Next s = Ok c
    \<and> (\<exists>c'. ReadRaw istream_Next (int n) c = Ok (n \<le> length (istream_rest s), take n (istream_rest s), c')
         \<and> gives_back c' (drop n (istream_rest s)))
    \<and> (\<exists>c'. ReadString istream_Next buffer (int n) c = Ok (n \<le> length (istream_rest s), take n (istream_rest s), c')
         \<and> gives_back c' (drop n (istream_rest s)))
    \<and> (n \<le> length (istream_rest s) \<longrightarrow> (\<exists>c'. Coded_Skip istream_Skip stream_ByteCount (int n) c = Ok (True, c')
         \<and> gives_back c' (drop n (istream_rest s))))"
proof -
  obtain c where c: "CodedInputStream istream_Next s = Ok c" "istream.defaulted.streams.coded_at c (istream_rest s)"
    "istream.defaulted.streams.seen c (istream_rest s) = take 2147483647 (istream_rest s)" "ci_input c \<noteq> None"
    using istream.defaulted.streams.CodedInputStream_spec [OF assms(1)] by blast
  note far = far_enough [OF assms(2), of "istream_rest s"]
  have d: "drop (min n (length (take 2147483647 (istream_rest s)))) (istream_rest s) = drop n (istream_rest s)"
    using assms(2) by (auto simp: min_def)
  note returned = gives_backI [OF _ c(4), where n = "min n (length (take 2147483647 (istream_rest s)))" and xs = "istream_rest s", unfolded d]
  show ?thesis
  proof (rule exI [of _ c], intro conjI impI c(1))
    show "\<exists>c'. ReadRaw istream_Next (int n) c = Ok (n \<le> length (istream_rest s), take n (istream_rest s), c')
        \<and> gives_back c' (drop n (istream_rest s))"
      by (rule istream.defaulted.streams.ReadRaw_spec [OF c(2), of n, unfolded c(3) far])
        (intro exI conjI, assumption, erule returned)
    show "\<exists>c'. ReadString istream_Next buffer (int n) c = Ok (n \<le> length (istream_rest s), take n (istream_rest s), c')
        \<and> gives_back c' (drop n (istream_rest s))"
      by (rule istream.defaulted.streams.ReadString_spec [OF c(2), of buffer n, unfolded c(3) far])
        (intro exI conjI, assumption, erule returned)
    show "\<exists>c'. Coded_Skip istream_Skip stream_ByteCount (int n) c = Ok (True, c') \<and> gives_back c' (drop n (istream_rest s))"
      if "n \<le> length (istream_rest s)"
      by (rule istream.defaulted.streams.Coded_Skip_spec [OF c(2), of n]) (auto simp: c(3) far that assms(2) intro: gives_backI [OF _ c(4)])
  qed
qed

theorem coded_reads_flat_witness:
  "\<exists>c c'. CodedInputStream istream_Next example_stream = Ok c \<and> ReadString istream_Next [] 4 c = Ok (True, [1, 2, 3, 4], c') \<and> gives_back c' [5]"
  using coded_reads_flat [OF example_stream_ok(1), of 4 "[]"] by (auto simp: example_stream_ok(2))

text \<open>A reader of one number returns what \<open>spec\<close> does on the bytes, and gives the rest back.\<close>

definition reads_as :: "('a \<times> nat) pres \<Rightarrow> byte list \<Rightarrow> ('a option \<times> istream input_stream coded_input) pres \<Rightarrow> bool" where
  "reads_as spec xs r \<longleftrightarrow> (\<exists>v c. r = Ok (v, c) \<and> (case spec of
     Ok (x, n) \<Rightarrow> v = Some x \<and> gives_back c (drop n xs) | _ \<Rightarrow> v = None))"

lemma reads_asI:
  "istream.defaulted.streams.read_result spec s xs r \<Longrightarrow> ci_input s \<noteq> None \<Longrightarrow> reads_as spec xs r"
  unfolding istream.defaulted.streams.read_result_def reads_as_def by (cases spec) (auto intro: gives_backI)

lemma load_far: "4 \<le> k \<Longrightarrow> UnalignedLoad32 (take k xs) = UnalignedLoad32 xs" "8 \<le> k \<Longrightarrow> UnalignedLoad64 (take k xs) = UnalignedLoad64 xs"
  by (simp_all add: UnalignedLoad32_def UnalignedLoad64_def min_def)

text \<open>C36: the readers of numbers agree with the reference on the flat bytes, wherever the chunks end inside a number: the
  unrolled varint readers from an array, the slow one byte by byte and the fast path of one byte are the same
  function, and so are the fixed-width loads from the buffer and through \<^verbatim>\<open>ReadRaw\<close>.\<close>

theorem coded_numbers:
  assumes "istreams_ok s"
  defines "xs \<equiv> istream_rest s"
  shows "\<exists>c. CodedInputStream istream_Next s = Ok c
    \<and> reads_as (varint_spec 10 xs) xs (ReadVarint64 istream_Next c)
    \<and> reads_as (varint_spec 10 xs) xs (ReadVarint32 istream_Next c)
    \<and> reads_as (pbind (UnalignedLoad32 xs) (\<lambda>v. Ok (v, 4))) xs (ReadLittleEndian32 istream_Next c)
    \<and> reads_as (pbind (UnalignedLoad64 xs) (\<lambda>v. Ok (v, 8))) xs (ReadLittleEndian64 istream_Next c)"
proof -
  obtain c where c: "CodedInputStream istream_Next s = Ok c" "istream.defaulted.streams.coded_at c xs"
    "istream.defaulted.streams.seen c xs = take 2147483647 xs" "ci_input c \<noteq> None"
    unfolding xs_def using istream.defaulted.streams.CodedInputStream_spec [OF assms(1)] by blast
  note far = varint_spec_far [of 2147483647 xs] load_far [of 2147483647 xs]
  show ?thesis
    using reads_asI [OF istream.defaulted.streams.ReadVarint64_spec [OF c(2)] c(4)]
      reads_asI [OF istream.defaulted.streams.ReadVarint32_spec [OF c(2)] c(4)]
      reads_asI [OF istream.defaulted.streams.ReadLittleEndian32_spec [OF c(2)] c(4)]
      reads_asI [OF istream.defaulted.streams.ReadLittleEndian64_spec [OF c(2)] c(4)]
    unfolding c(3) by (intro exI [of _ c] conjI c(1)) (simp_all add: far)
qed

theorem coded_numbers_witness:
  "\<exists>c c'. CodedInputStream istream_Next example_stream = Ok c \<and> ReadLittleEndian32 istream_Next c = Ok (Some 0x04030201, c') \<and> gives_back c' [5]"
  using coded_numbers [OF example_stream_ok(1)] by (auto simp: example_stream_ok(2) UnalignedLoad32_def reads_as_def)

text \<open>C35: limits confine a length-delimited message: after \<^verbatim>\<open>ReadLengthAndPushLimit\<close> no read passes the end of the
  body, however much is asked for and however far the chunk reaches; behind the body the next tag is 0 and the end is a
  legitimate one; and \<^verbatim>\<open>CheckEntireMessageConsumedAndPopLimit\<close> makes the bytes behind it readable again, none lost.\<close>

theorem coded_message:
  assumes "istreams_ok s" and "istream_rest s = varint_enc (length body) @ body @ tail"
    and "length (varint_enc (length body)) + length body < 2147483647"
  shows "\<exists>c old m. CodedInputStream istream_Next s = Ok c \<and> ReadLengthAndPushLimit istream_Next c = Ok (old, m)
    \<and> (\<forall>n buffer. \<exists>m'. ReadString istream_Next buffer (int n) m = Ok (n \<le> length body, take n body, m') \<and> gives_back m' (drop n body @ tail))
    \<and> (\<exists>m' e p. ReadString istream_Next [] (int (length body)) m = Ok (True, body, m') \<and> Coded_ReadTag istream_Next m' = Ok (0, e)
       \<and> CheckEntireMessageConsumedAndPopLimit old e = Ok (True, p) \<and> gives_back p tail
       \<and> (\<forall>n buffer. length (varint_enc (length body)) + length body + n \<le> 2147483647 \<longrightarrow>
            (\<exists>q. ReadString istream_Next buffer (int n) p = Ok (n \<le> length tail, take n tail, q) \<and> gives_back q (drop n tail))))"
proof -
  let ?xs = "istream_rest s" and ?k = "length (varint_enc (length body))"
  obtain c where c: "CodedInputStream istream_Next s = Ok c" "istream.defaulted.streams.coded_at c ?xs"
    "istream.defaulted.streams.seen c ?xs = take 2147483647 ?xs" "CurrentPosition c = 0" "ci_current_limit c = int_max"
    "ci_total_bytes_limit c = int_max" "ci_input c \<noteq> None"
    using istream.defaulted.streams.CodedInputStream_spec [OF assms(1)] by blast
  have unat: "unat (of_nat (length body) :: u32) = length body" "length body \<le> 2147483647"
    using assms(3) by (simp_all add: unsigned_of_nat take_bit_nat_eq_self)
  have "?k \<le> Suc 4" using assms(3) by (intro length_varint_enc_le) simp
  then have "varint_spec 10 ?xs = Ok (of_nat (length body) :: u32, ?k)" using assms(2) varint_spec_enc [of "length body" 10] by simp
  then have v: "varint_spec 10 (istream.defaulted.streams.seen c ?xs) = Ok (of_nat (length body) :: u32, ?k)"
    using varint_spec_far [of 2147483647 ?xs, where ?'a = 32] by (simp only: c(3))
  obtain m where m: "ReadLengthAndPushLimit istream_Next c = Ok (int_max, m)" "istream.defaulted.streams.coded_at m (drop ?k ?xs)"
    "istream.defaulted.streams.seen m (drop ?k ?xs) = take (length body) (drop ?k (istream.defaulted.streams.seen c ?xs))"
    "CurrentPosition m = int ?k" "ci_total_bytes_limit m = int_max" "ci_input m \<noteq> None"
    using istream.defaulted.streams.ReadLengthAndPushLimit_spec [OF c(2) v] c(7) unat unfolding c(4-6) by (metis add_0)
  have at_m: "istream.defaulted.streams.coded_at m (body @ tail)" "istream.defaulted.streams.seen m (body @ tail) = body"
    using m(2,3) assms(3) unfolding c(3) by (simp_all add: assms(2))
  have d: "drop (min n (length body)) (body @ tail) = drop n body @ tail" for n by (auto simp: min_def)
  have inside: "\<exists>m'. ReadString istream_Next buffer (int n) m = Ok (n \<le> length body, take n body, m') \<and> gives_back m' (drop n body @ tail)" for n buffer
    by (rule istream.defaulted.streams.ReadString_spec [OF at_m(1), of buffer n, unfolded at_m(2)])
      (use gives_backI [OF _ m(6), of "min n (length body)" "body @ tail", unfolded d] in blast)
  have pos: "CurrentPosition m + int (length body) < ci_total_bytes_limit m" "CurrentPosition m + int (length body) \<le> int_max"
    using m(4,5) assms(3) by linarith+
  obtain m' e p where p: "ReadString istream_Next [] (int (length body)) m = Ok (True, body, m')" "Coded_ReadTag istream_Next m' = Ok (0, e)"
    "CheckEntireMessageConsumedAndPopLimit int_max e = Ok (True, p)" "istream.defaulted.streams.coded_at p tail"
    "CurrentPosition p = CurrentPosition m + int (length body)" "ci_current_limit p = int_max" "ci_total_bytes_limit p = ci_total_bytes_limit m"
    "ci_input p \<noteq> None"
    by (rule istream.defaulted.streams.message_end [OF at_m m(6) pos order_refl])
  have "limit_left p = 2147483647 - (?k + length body)" using p(5-7) m(4,5) by (simp add: limit_left_def closest_limit_def)
  then have after: "\<exists>q. ReadString istream_Next buffer (int n) p = Ok (n \<le> length tail, take n tail, q) \<and> gives_back q (drop n tail)"
    if "?k + length body + n \<le> 2147483647" for n buffer
    using ReadString_back [OF p(4,8), of n buffer] that by simp
  have "gives_back p tail" using gives_backI [OF istream.defaulted.streams.read_to_refl [OF p(4)] p(8)] by simp
  then have "\<exists>m' e p. ReadString istream_Next [] (int (length body)) m = Ok (True, body, m') \<and> Coded_ReadTag istream_Next m' = Ok (0, e)
       \<and> CheckEntireMessageConsumedAndPopLimit int_max e = Ok (True, p) \<and> gives_back p tail
       \<and> (\<forall>n buffer. ?k + length body + n \<le> 2147483647 \<longrightarrow>
            (\<exists>q. ReadString istream_Next buffer (int n) p = Ok (n \<le> length tail, take n tail, q) \<and> gives_back q (drop n tail)))"
    using p(1-3) by - (rule exI [of _ m'], rule exI [of _ e], rule exI [of _ p], intro conjI allI impI after)
  then show ?thesis using inside c(1) m(1)
    by - (rule exI [of _ c], rule exI [of _ int_max], rule exI [of _ m], intro conjI allI)
qed

theorem coded_message_witness:
  "\<exists>s c old m m' e p. istream_rest s = [2, 7, 8, 9] \<and> CodedInputStream istream_Next s = Ok c \<and> ReadLengthAndPushLimit istream_Next c = Ok (old, m)
     \<and> ReadString istream_Next [] 2 m = Ok (True, [7, 8], m') \<and> Coded_ReadTag istream_Next m' = Ok (0, e)
     \<and> CheckEntireMessageConsumedAndPopLimit old e = Ok (True, p) \<and> gives_back p [9]"
proof -
  let ?s = "ArrayInput (ArrayInputStream [2, 7, 8, 9] 1) :: istream input_stream"
  have "varint_enc (length [7, 8 :: byte]) = [2]" by (simp add: varint_enc_small)
  then show ?thesis using coded_message [OF constructed(1) [of "[2, 7, 8, 9]" 1], of "[7, 8]" "[9]"] constructed(2) [of "[2, 7, 8, 9]" 1]
    by (intro exI [of _ ?s]) auto
qed

end
