(* ===== verification/Spec2Isabelle.thy ===== *)
theory Spec2Isabelle
  imports Delivery DummyClient RoundTrip Timestamp Escape NumText Base64 LineEndings Streams CodedReads
begin

text \<open>
  A chat server for a multiplayer game and the parts of the protobuf runtime that it is built on.

  \<^bold>\<open>The program.\<close> \<^verbatim>\<open>src/Server/TopViewServer\<close> accepts TCP connections. Each \<^verbatim>\<open>Session\<close> collects
  bytes in a \<^verbatim>\<open>RecvBuffer\<close>, cuts them into packets (size and id, 16 bits each, then the body) and
  gives each packet to the handler of its id. The one handler parses a \<^verbatim>\<open>C_Chat\<close>, serializes an
  \<^verbatim>\<open>S_Chat\<close> and pushes a job to the \<^verbatim>\<open>Room\<close>. The room's own thread runs the jobs, takes the messages
  they leave and sends them to the sessions of all players. \<^verbatim>\<open>src/Server/TopViewDummyCLient\<close> is the
  client that loads the server. \<^verbatim>\<open>src/Server/Libraries\<close> holds protobuf 3.21: parsing and
  serializing from and to arrays, and the string, time and number helpers it rests on.

  \<^bold>\<open>The theories\<close>, each importing what its code calls:

  \<^item> \<open>Prelude\<close>: machine integers at their width, \<open>'a pres\<close> for code that reads through pointers
    (a value, null, a read or write out of bounds, a fatal log, fuel used up), list and word lemmas.
  \<^item> \<open>Varint\<close>, \<open>Readers\<close> (\<^verbatim>\<open>io/coded_stream.h\<close>, \<^verbatim>\<open>parse_context.h\<close>, \<^verbatim>\<open>.cc\<close>): varint writers, sizes and
    readers. The locale \<open>wire_reader\<close> is what the parser relies on in a reader; all six are instances.
  \<^item> \<open>Utf8Table\<close>, \<open>Utf8\<close> (\<^verbatim>\<open>stubs/structurally_valid.cc\<close>): the table-driven scanner and its fast path
    against RFC 3629.
  \<^item> \<open>OutStream\<close>, \<open>UnknownFields\<close>, \<open>ParseCtx\<close>: the output and input streams over an array with their
    patch buffers, and the unknown fields of a message.
  \<^item> \<open>WireSpec\<close>, \<open>ProtocolSpec\<close>: the wire format on plain byte lists and the simulation that shows the
    buffered parser equal to it; the locale \<open>message_parser\<close> does that once for both messages.
  \<^item> \<open>Protocol\<close>, \<open>MsgLite\<close>, \<open>RoundTrip\<close>: the generated classes, \<^verbatim>\<open>message_lite.cc\<close>, and the theorems
    on the whole path: refinement, round trip, error cases.
  \<^item> \<open>Objects\<close>, \<open>Room\<close>, \<open>PacketHandler\<close>, \<open>RecvBuf\<close>, \<open>Framing\<close>, \<open>Session\<close>, \<open>SessionManager\<close>: the server's
    classes, one theory each. \<open>Framing\<close> is the abstract view: the packets in a byte stream. The
    locales \<open>keyed_map\<close>, \<open>ticket_counter\<close> and \<open>byte_queue\<close> are the contracts of the containers, of
    the id counters and of the receive buffer.
  \<^item> \<open>Server\<close>, \<open>Delivery\<close>: all threads as one step function on one state. The environment chooses the
    next step and the received bytes; \<open>reachable\<close> keeps the history the theorems speak of. The
    invariant \<open>server_inv\<close> gives: no message is lost or changes place, all clients see one sequence,
    a flush that is given its turns delivers all that is queued, and nothing but a wild packet id
    makes the server fault.
  \<^item> \<open>DummyClient\<close>: the load client, composed with the server's framing and handler.
  \<^item> \<open>Ascii\<close>, \<open>Escape\<close>, \<open>Base64\<close>, \<open>NumText\<close> (\<^verbatim>\<open>stubs/strutil.cc\<close>, \<^verbatim>\<open>strutil.h\<close>): character classes,
    C escapes, Base64 in both alphabets (the locale \<open>base64_tables\<close> is what an alphabet and its inverse
    promise each other), numbers from and to text. \<open>LineEndings\<close>: the pass that makes line ends uniform. \<open>Timestamp\<close> (\<^verbatim>\<open>stubs/time.cc\<close>): calendar and RFC 3339 text. \<open>Int128\<close>
    (\<^verbatim>\<open>stubs/int128.h\<close>, \<^verbatim>\<open>int128.cc\<close>): 128-bit arithmetic, division and printing.

  \<^item> \<open>Streams\<close> (\<^verbatim>\<open>io/zero_copy_stream_impl_lite.cc\<close>, \<^verbatim>\<open>zero_copy_stream_impl.cc\<close>): the input streams over
    arrays, C++ streams, a limited part of a stream and a sequence of streams. The locales
    \<open>byte_source\<close> and \<open>copying_source\<close> are what an adaptor relies on below, \<open>zero_copy_input\<close>
    what a stream promises above; sublocales lead from one to the other for every stack.
  \<^item> \<open>CodedInput\<close>, \<open>CodedReads\<close> (\<^verbatim>\<open>io/coded_stream.cc\<close>, \<^verbatim>\<open>.h\<close>): the reader of numbers, strings and tags on
    top of a stream, with its buffer, position and limits. The lemmas in \<open>zero_copy_input\<close> show that it
    reads the flat bytes up to the closest limit, whatever the chunks, and that its destructor gives
    back what it has not used.

  \<^bold>\<open>State and code.\<close> A class is a record with its members under their names, an operation a
  function that takes and returns the state it changes. Objects are shared through pointers in
  the code: sessions live in the session manager's map and are named by their ids, objects do not
  change once they are in the room. Every exception, null pointer, wild index or empty function
  is a value of \<open>fault\<close> or a constructor of \<open>pres\<close>, so that a theorem with a plain value on its right
  is also a proof that none of them happens.

  \<^bold>\<open>Bounds and fuel.\<close> The parser's recursion takes fuel: one unit per byte of the input is enough
  (\<open>fuel_enough\<close> in \<open>WireSpec\<close>), and the theorems that return a message say so themselves. The framing loop
  may run forever, on a header of size 0; it is a \<open>partial_function (option)\<close>, and
  \<open>process_recv_frames\<close> says when it returns. Other loops terminate on a measure. Server theorems
  hold for up to 2^32 connections, the range of the id counters; a coded reader reads at most
  \<^verbatim>\<open>INT_MAX\<close> bytes, its default total limit; string theorems assume sizes
  for which the code's \<^verbatim>\<open>int\<close> does not overflow.

  \<^bold>\<open>Not modelled.\<close> Sockets and the scheduler of asio (a parameter: which handler runs next, what a read
  brings); writes that the network splits or drops; the C# test client and the Unity project;
  output streams, files, descriptors, reflection, extensions, maps, arenas, text format, JSON and the compiler of
  protobuf, none of which this program runs; conversion of floating-point numbers, which the
  library leaves to the C runtime.
\<close>

end
